(* ===== verification/Prelude.thy ===== *)
theory Prelude
  imports Main "HOL-Library.Word" "HOL-Library.Finite_Map"
    "HOL-Library.List_Lexorder" "HOL-Library.Char_ord"
begin

text \<open>
  What the components share: octets and byte slices, Go's finite maps, the errors that the
  code tells apart, fixed-width integer conversions, and \<open>make\<close> and \<open>copy\<close> on byte slices.

  A HOL \<open>char\<close> is exactly an octet, so a Go \<open>string\<close> and the contents of a \<open>[]byte\<close> are both
  \<open>char list\<close>, and the conversions \<open>[]byte(s)\<close> and \<open>string(b)\<close> are the identity, as they are on
  the octets in Go. The difference between a nil slice and an allocated empty one is kept where
  it can be seen (\<open>encoding/json\<close> prints them differently): such a slice has type \<open>slice\<close>.
  A Go map is a finite map (\<open>fmap\<close>), whose iteration order is unspecified as in Go.
\<close>

named_theorems data_simps \<open>lookups in the data maps of the model\<close>
named_theorems go_simps \<open>slices, copies and integer conversions\<close>

section \<open>Octets, slices and maps\<close>

type_synonym bytes = string
type_synonym slice = "bytes option"
type_synonym data = "(string, bytes) fmap"

text \<open>The octets a slice holds: a nil slice has length 0.\<close>

definition slice_bytes :: "slice \<Rightarrow> bytes" where
  "slice_bytes s = (case s of None \<Rightarrow> [] | Some b \<Rightarrow> b)"

lemma slice_bytes_simps [simp, go_simps]: "slice_bytes None = []" "slice_bytes (Some b) = b"
  by (simp_all add: slice_bytes_def)

text \<open>\<open>make([]byte, n)\<close>: zeroed octets; a negative or unallocatable length panics
  (\<open>None\<close>). \<open>max_alloc\<close> is the runtime's address-space limit on 64-bit Linux, \<open>2 ^ 48\<close>.\<close>

definition max_alloc :: int where
  "max_alloc = 2 ^ 48"

definition make_bytes :: "int \<Rightarrow> bytes option" where
  "make_bytes n = (if 0 \<le> n \<and> n \<le> max_alloc then Some (replicate (nat n) (CHR 0x00)) else None)"

text \<open>\<open>copy(dst, src)\<close> overwrites the first \<open>min (len dst) (len src)\<close> octets of \<open>dst\<close>.\<close>

definition copy_bytes :: "bytes \<Rightarrow> bytes \<Rightarrow> bytes" where
  "copy_bytes dst src = take (length dst) src @ drop (length src) dst"

lemma length_copy_bytes [simp, go_simps]: "length (copy_bytes dst src) = length dst"
  by (simp add: copy_bytes_def)

lemma nth_copy_bytes:
  "i < length dst \<Longrightarrow> copy_bytes dst src ! i = (if i < length src then src ! i else dst ! i)"
  by (auto simp: copy_bytes_def nth_append)

lemma copy_bytes_same_length [simp, go_simps]: "length src = length dst \<Longrightarrow> copy_bytes dst src = src"
  by (simp add: copy_bytes_def)

text \<open>\<open>copy(dst[off:], src)\<close> for an offset inside \<open>dst\<close>.\<close>

definition copy_at :: "bytes \<Rightarrow> nat \<Rightarrow> bytes \<Rightarrow> bytes" where
  "copy_at dst off src = take off dst @ copy_bytes (drop off dst) src"

lemma length_copy_at [simp, go_simps]: "off \<le> length dst \<Longrightarrow> length (copy_at dst off src) = length dst"
  by (simp add: copy_at_def)

lemma nth_copy_at:
  "off \<le> length dst \<Longrightarrow> i < length dst \<Longrightarrow>
   copy_at dst off src ! i =
     (if off \<le> i \<and> i < off + length src then src ! (i - off) else dst ! i)"
  by (auto simp: copy_at_def nth_append nth_copy_bytes)

section \<open>Fixed-width integers\<close>

text \<open>Go's \<open>int\<close>, \<open>int64\<close> and \<open>time.Duration\<close> wrap at 64 bits, \<open>int32\<close> at 32.\<close>

definition wrap64 :: "int \<Rightarrow> int" where
  "wrap64 x = (x + 2 ^ 63) mod 2 ^ 64 - 2 ^ 63"

definition wrap32 :: "int \<Rightarrow> int" where
  "wrap32 x = (x + 2 ^ 31) mod 2 ^ 32 - 2 ^ 31"

lemma wrap64_id [go_simps]: "- (2 ^ 63) \<le> x \<Longrightarrow> x < 2 ^ 63 \<Longrightarrow> wrap64 x = x"
  by (simp add: wrap64_def)

lemma wrap32_id [go_simps]: "- (2 ^ 31) \<le> x \<Longrightarrow> x < 2 ^ 31 \<Longrightarrow> wrap32 x = x"
  by (simp add: wrap32_def)

lemma wrap64_sint: "wrap64 x = sint (word_of_int x :: 64 word)"
  by (simp add: wrap64_def sint_uint uint_word_of_int signed_take_bit_eq_take_bit_shift
      take_bit_eq_mod mod_add_left_eq)

type_synonym time = int
type_synonym duration = int

text \<open>\<open>time.Second\<close> and \<open>time.Millisecond\<close>, in nanoseconds.\<close>

definition second :: duration where
  "second = 1000000000"

definition millisecond :: duration where
  "millisecond = 1000000"

section \<open>Errors\<close>

text \<open>
  The errors the code tells apart. \<open>ErrTooLarge\<close>, \<open>ErrLeaseLost\<close> and \<open>ErrNoToken\<close> are the
  package's own sentinels; \<open>Forbidden\<close> to \<open>EntityTooLarge\<close> are the reasons that
  \<open>k8s.io/apimachinery/pkg/api/errors\<close> classifies an API error by (an API error has one reason);
  \<open>CtxErr\<close> is a cancelled context's error; every other error is an \<open>OtherErr\<close>.
\<close>

datatype err =
    ErrTooLarge
  | ErrLeaseLost
  | ErrNoToken
  | Forbidden
  | Unauthorized
  | NotFound
  | AlreadyExists
  | Conflict
  | EntityTooLarge
  | CtxErr
  | OtherErr string

type_synonym 'a result = "err + 'a"

text \<open>The \<open>syscall.Errno\<close> values the filesystem answers with; \<open>OK\<close> is 0.\<close>

datatype errno =
    OK | EPERM | ENOENT | EINTR | EIO | EACCES | EXDEV | EINVAL | ENOSPC | EWOULDBLOCK | ENOTSUP

section \<open>Finite maps\<close>

lemma fmap_eq_iff: "m = n \<longleftrightarrow> (\<forall>k. fmlookup m k = fmlookup n k)"
  by (metis fmap_ext)

lemma fmlookup_fold_fmdrop [data_simps]:
  "fmlookup (fold fmdrop ks m) k = (if k \<in> set ks then None else fmlookup m k)"
  by (induction ks arbitrary: m) auto

lemma fmdom_fold_fmdrop: "fmdom (fold fmdrop ks m) = fmdom m - fset_of_list ks"
  by (induction ks arbitrary: m) (auto simp: fset_of_list.rep_eq)

text \<open>Assigning the entries of a map one by one, in any order, is \<open>fmadd\<close>: the loop
  \<open>for k, v := range n \{ m[k] = v \}\<close>.\<close>

lemma fold_fmupd_lookup:
  "distinct (map fst xs) \<Longrightarrow>
   fmlookup (fold (\<lambda>(k, v). fmupd k v) xs m) k =
     (case map_of xs k of Some v \<Rightarrow> Some v | None \<Rightarrow> fmlookup m k)"
proof (induction xs arbitrary: m)
  case Nil
  then show ?case by simp
next
  case (Cons x xs)
  obtain a b where x: "x = (a, b)" by (cases x)
  from Cons.prems x have "map_of xs a = None" by (simp add: map_of_eq_None_iff)
  with Cons x show ?case by (auto split: option.splits)
qed

lemma fold_fmupd_fmadd:
  assumes "distinct (map fst xs)"
  shows "fold (\<lambda>(k, v). fmupd k v) xs m = fmadd m (fmap_of_list xs)"
proof (rule fmap_ext)
  fix k
  show "fmlookup (fold (\<lambda>(k, v). fmupd k v) xs m) k = fmlookup (fmadd m (fmap_of_list xs)) k"
    by (simp add: fold_fmupd_lookup [OF assms] fmlookup_of_list fmlookup_dom_iff
        fset_of_list.rep_eq map_of_eq_None_iff split: option.splits)
      (metis map_of_eq_None_iff option.distinct(1) list.set_map)
qed

lemma fmlookup_fold_fmupd:
  "fmlookup (fold (\<lambda>t. fmupd t (f t)) ts r) k = (if k \<in> set ts then Some (f k) else fmlookup r k)"
  by (induction ts arbitrary: r) auto

section \<open>Sequencing results\<close>

text \<open>\<open>v, err := f(); if err != nil \{ return err \}\<close>.\<close>

definition try_bind :: "'a result \<Rightarrow> ('a \<Rightarrow> 'b result) \<Rightarrow> 'b result" where
  "try_bind r f = (case r of Inl e \<Rightarrow> Inl e | Inr v \<Rightarrow> f v)"

lemma try_bind_simps [simp]: "try_bind (Inl e) f = Inl e" "try_bind (Inr v) f = f v"
  by (simp_all add: try_bind_def)

lemma try_bind_Inr: "try_bind r f = Inr b \<longleftrightarrow> (\<exists>a. r = Inr a \<and> f a = Inr b)"
  by (cases r) auto

end
