(* ===== verification/Utf8.thy ===== *)
theory Utf8
  imports Prelude
begin

text \<open>
  What the code uses of \<open>unicode/utf8\<close>, itself and through \<open>encoding/json\<close>: the size of the rune a string
  starts with, validity, and the encoding of a code point.
\<close>

abbreviation octet :: "char \<Rightarrow> nat" where
  "octet c \<equiv> of_char c"

text \<open>What the first octet of a rune asks for (the tables of \<open>unicode/utf8\<close>): the number of octets that
  follow, and the range of the first of them.\<close>

definition lead :: "nat \<Rightarrow> (nat \<times> nat \<times> nat) option" where
  "lead n =
     (if n < 0x80 then Some (0, 0x80, 0xBF)
      else if n < 0xC2 then None
      else if n \<le> 0xDF then Some (1, 0x80, 0xBF)
      else if n = 0xE0 then Some (2, 0xA0, 0xBF)
      else if n = 0xED then Some (2, 0x80, 0x9F)
      else if n \<le> 0xEF then Some (2, 0x80, 0xBF)
      else if n = 0xF0 then Some (3, 0x90, 0xBF)
      else if n \<le> 0xF3 then Some (3, 0x80, 0xBF)
      else if n = 0xF4 then Some (3, 0x80, 0x8F)
      else None)"

definition tail_octets :: "nat \<Rightarrow> nat \<Rightarrow> nat \<Rightarrow> string \<Rightarrow> bool" where
  "tail_octets k lo hi s \<longleftrightarrow>
     k \<le> length s \<and> (k = 0 \<or> lo \<le> octet (hd s) \<and> octet (hd s) \<le> hi) \<and>
     list_all (\<lambda>c. 0x80 \<le> octet c \<and> octet c \<le> 0xBF) (take k s)"

text \<open>The octets of the rune a string starts with, 0 if it starts with none (\<open>utf8.DecodeRune\<close>).\<close>

fun utf8_size :: "string \<Rightarrow> nat" where
  "utf8_size [] = 0"
| "utf8_size (c # s) =
     (case lead (octet c) of None \<Rightarrow> 0
      | Some (k, lo, hi) \<Rightarrow> if tail_octets k lo hi s then Suc k else 0)"

declare utf8_size.simps(2) [simp del]

function valid_utf8 :: "string \<Rightarrow> bool" where
  "valid_utf8 [] = True"
| "valid_utf8 (c # s) = (utf8_size (c # s) \<noteq> 0 \<and> valid_utf8 (drop (utf8_size (c # s) - 1) s))"
  by pat_completeness auto
termination by (relation "measure length") auto

text \<open>The encoding of U+FFFD, and of a code point below \<open>0x110000\<close>.\<close>

definition replacement :: string where
  "replacement = [CHR 0xEF, CHR 0xBF, CHR 0xBD]"

definition encode_rune :: "nat \<Rightarrow> string" where
  "encode_rune n =
     (if n < 0x80 then [char_of n]
      else if n < 0x800 then [char_of (0xC0 + n div 64), char_of (0x80 + n mod 64)]
      else if n < 0x10000
      then [char_of (0xE0 + n div 4096), char_of (0x80 + n div 64 mod 64), char_of (0x80 + n mod 64)]
      else [char_of (0xF0 + n div 262144), char_of (0x80 + n div 4096 mod 64), char_of (0x80 + n div 64 mod 64),
        char_of (0x80 + n mod 64)])"

lemma tail_octets_append: "tail_octets k lo hi s \<Longrightarrow> tail_octets k lo hi (s @ r)"
  by (auto simp: tail_octets_def hd_append)

lemma utf8_size_append: "utf8_size s \<noteq> 0 \<Longrightarrow> utf8_size (s @ r) = utf8_size s"
  by (cases s) (auto simp: utf8_size.simps(2) tail_octets_append split: option.splits if_splits)

lemma utf8_size_length: "utf8_size s \<le> length s"
  by (cases s) (auto simp: utf8_size.simps(2) tail_octets_def split: option.splits)

lemma utf8_size_ascii: "octet c < 0x80 \<Longrightarrow> utf8_size (c # s) = Suc 0"
  by (simp add: utf8_size.simps(2) lead_def tail_octets_def)

lemma valid_ascii [simp]: "octet c < 0x80 \<Longrightarrow> valid_utf8 (c # s) = valid_utf8 s"
  by (simp add: utf8_size_ascii)

lemma ascii_valid: "list_all (\<lambda>c. octet c < 0x80) s \<Longrightarrow> valid_utf8 s"
  by (induction s) (simp_all del: valid_utf8.simps(2))

lemma valid_append: "valid_utf8 s \<Longrightarrow> valid_utf8 r \<Longrightarrow> valid_utf8 (s @ r)"
proof (induction s rule: valid_utf8.induct)
  case (2 c s)
  let ?k = "utf8_size (c # s)"
  have k: "?k \<noteq> 0" using "2.prems" by simp
  have a: "utf8_size (c # s @ r) = ?k" using utf8_size_append [OF k, of r] by simp
  have "drop (?k - 1) (s @ r) = drop (?k - 1) s @ r" using utf8_size_length [of "c # s"] by simp
  moreover have "valid_utf8 (drop (?k - 1) s @ r)" using 2 by simp
  ultimately show ?case using k a by simp
qed simp

lemma utf8_size_take: "utf8_size s = k \<Longrightarrow> utf8_size (take k s) = k"
  by (cases s) (auto simp: utf8_size.simps(2) tail_octets_def hd_take split: option.splits if_splits)

lemma valid_rune: "utf8_size t = length t \<Longrightarrow> t \<noteq> [] \<Longrightarrow> valid_utf8 t"
  by (cases t) simp_all

lemma valid_take: "utf8_size s \<noteq> 0 \<Longrightarrow> valid_utf8 (take (utf8_size s) s)"
  by (rule valid_rune) (use utf8_size_length [of s] in \<open>auto simp: utf8_size_take\<close>)

lemma valid_replacement: "valid_utf8 replacement"
  by (simp add: replacement_def utf8_size.simps(2) lead_def tail_octets_def)

lemma valid_two:
  fixes a b k lo hi :: nat
  assumes "k = 1" "lead a = Some (k, lo, hi)" "a < 256" "lo \<le> b" "b \<le> hi" "hi < 192" "128 \<le> lo"
  shows "valid_utf8 [char_of a, char_of b]"
  using assms by (simp add: utf8_size.simps(2) tail_octets_def)

lemma valid_three:
  fixes a b c lo hi :: nat
  assumes "lead a = Some (2, lo, hi)" "a < 256" "lo \<le> b" "b \<le> hi" "hi < 192" "128 \<le> lo" "128 \<le> c" "c < 192"
  shows "valid_utf8 [char_of a, char_of b, char_of c]"
  using assms by (simp add: utf8_size.simps(2) tail_octets_def)

lemma valid_four:
  fixes a b c d lo hi :: nat
  assumes "lead a = Some (3, lo, hi)" "a < 256" "lo \<le> b" "b \<le> hi" "hi < 192" "128 \<le> lo"
    "128 \<le> c" "c < 192" "128 \<le> d" "d < 192"
  shows "valid_utf8 [char_of a, char_of b, char_of c, char_of d]"
  using assms by (simp add: utf8_size.simps(2) tail_octets_def)

lemma lead_three:
  assumes "q < 16" "q = 0 \<Longrightarrow> 0xA0 \<le> b" "q = 13 \<Longrightarrow> b \<le> 0x9F" "0x80 \<le> b" "b < 0xC0"
  shows "\<exists>lo hi. lead (0xE0 + q) = Some (2, lo, hi) \<and> lo \<le> b \<and> b \<le> hi \<and> hi < 192 \<and> 128 \<le> lo"
  using assms by (cases "q = 0"; cases "q = 13") (simp_all add: lead_def)

lemma lead_four:
  assumes "q < 5" "q = 0 \<Longrightarrow> 0x90 \<le> b" "q = 4 \<Longrightarrow> b \<le> 0x8F" "0x80 \<le> b" "b < 0xC0"
  shows "\<exists>lo hi. lead (0xF0 + q) = Some (3, lo, hi) \<and> lo \<le> b \<and> b \<le> hi \<and> hi < 192 \<and> 128 \<le> lo"
  using assms by (cases "q = 0"; cases "q = 4") (simp_all add: lead_def)

lemma valid_encode_three:
  fixes n :: nat
  assumes "0x800 \<le> n" "n < 0x10000" "n < 0xD800 \<or> 0xE000 \<le> n"
  shows "valid_utf8 [char_of (0xE0 + n div 4096), char_of (0x80 + n div 64 mod 64), char_of (0x80 + n mod 64)]"
proof -
  let ?a = "0xE0 + n div 4096" and ?b = "0x80 + n div 64 mod 64"
  have m: "n div 64 mod 64 = n div 64 - 64 * (n div 4096)"
    using div_mult2_eq [of n 64 64] by (simp add: minus_mult_div_eq_mod [symmetric])
  have a: "n div 4096 < 16" using assms by auto
  have lo: "n div 4096 = 0 \<Longrightarrow> 0xA0 \<le> ?b" using assms m by (simp add: le_div_geq)
  have hi: "?b \<le> 0x9F" if d: "n div 4096 = 13"
  proof -
    have "n < 0xE000" using d div_mult_mod_eq [of n 4096] mod_less_divisor [of 4096 n] by linarith
    with assms(3) have "n div 64 < 864" by (intro less_mult_imp_div_less) auto
    with m d show ?thesis by simp
  qed
  obtain l h where "lead ?a = Some (2, l, h)" "l \<le> ?b" "?b \<le> h" "h < 192" "128 \<le> l"
    using lead_three [OF a lo hi] by auto
  with a show ?thesis by (intro valid_three) auto
qed

lemma valid_encode_four:
  fixes n :: nat
  assumes "0x10000 \<le> n" "n < 0x110000"
  shows "valid_utf8 [char_of (0xF0 + n div 262144), char_of (0x80 + n div 4096 mod 64),
    char_of (0x80 + n div 64 mod 64), char_of (0x80 + n mod 64)]"
proof -
  let ?a = "0xF0 + n div 262144" and ?b = "0x80 + n div 4096 mod 64"
  have m: "n div 4096 mod 64 = n div 4096 - 64 * (n div 262144)"
    using div_mult2_eq [of n 4096 64] by (simp add: minus_mult_div_eq_mod [symmetric])
  have a: "n div 262144 < 5" using assms by auto
  have "16 \<le> n div 4096" using div_le_mono [of 65536 n 4096] assms(1) by simp
  then have lo: "n div 262144 = 0 \<Longrightarrow> 0x90 \<le> ?b" using m by simp
  have "n div 4096 < 272" using assms(2) by (intro less_mult_imp_div_less) simp
  then have hi: "n div 262144 = 4 \<Longrightarrow> ?b \<le> 0x8F" using m by simp
  obtain l h where "lead ?a = Some (3, l, h)" "l \<le> ?b" "?b \<le> h" "h < 192" "128 \<le> l"
    using lead_four [OF a lo hi] by auto
  with a show ?thesis by (intro valid_four) auto
qed

lemma valid_encode_rune:
  assumes "n < 0xD800 \<or> 0xE000 \<le> n" "n < 0x110000"
  shows "valid_utf8 (encode_rune n)"
proof -
  consider "n < 0x80" | "0x80 \<le> n" "n < 0x800" | "0x800 \<le> n" "n < 0x10000" | "0x10000 \<le> n" by linarith
  then show ?thesis
  proof cases
    case 1
    then show ?thesis by (simp add: encode_rune_def utf8_size_ascii)
  next
    case 2
    then have "2 \<le> n div 64" "n div 64 < 32" by (auto simp: div_le_mono less_mult_imp_div_less)
    then have "valid_utf8 [char_of (0xC0 + n div 64), char_of (0x80 + n mod 64)]"
      by (intro valid_two [OF refl, where lo = 128 and hi = 191]) (auto simp: lead_def)
    with 2 show ?thesis by (simp add: encode_rune_def)
  next
    case 3
    from valid_encode_three [OF this assms(1)] 3 show ?thesis by (simp add: encode_rune_def)
  next
    case 4
    from valid_encode_four [OF this assms(2)] 4 show ?thesis by (simp add: encode_rune_def)
  qed
qed

end
