(* ===== verification/Keys.thy ===== *)
theory Keys
  imports Prelude
begin

text \<open>
  \<open>pkg/objectfs/keys.go\<close>: which names are object keys, and the inode number of a key.
\<close>

unbundle bit_operations_syntax

section \<open>Valid keys\<close>

definition maxKeyLen :: nat where
  "maxKeyLen = 253"

text \<open>The character class of \<open>keyPattern\<close>, \<open>[-._a-zA-Z0-9]\<close>.\<close>

definition key_char :: "char \<Rightarrow> bool" where
  "key_char c \<longleftrightarrow> c = CHR ''-'' \<or> c = CHR ''.'' \<or> c = CHR ''_'' \<or>
     (CHR ''a'' \<le> c \<and> c \<le> CHR ''z'') \<or> (CHR ''A'' \<le> c \<and> c \<le> CHR ''Z'') \<or>
     (CHR ''0'' \<le> c \<and> c \<le> CHR ''9'')"

text \<open>\<open>keyPattern.MatchString\<close>: one or more characters of the class, the whole string.\<close>

definition keyPattern_match :: "string \<Rightarrow> bool" where
  "keyPattern_match name \<longleftrightarrow> name \<noteq> [] \<and> list_all key_char name"

definition ValidKey :: "string \<Rightarrow> bool" where
  "ValidKey name =
     (if name = '''' \<or> name = ''.'' \<or> name = ''..'' \<or> length name > maxKeyLen then False
      else keyPattern_match name)"

lemma ValidKey_chars: "ValidKey name \<Longrightarrow> c \<in> set name \<Longrightarrow> key_char c"
  by (simp add: ValidKey_def keyPattern_match_def list_all_iff split: if_splits)

lemma key_char_special: "\<not> key_char (CHR ''/'')" "\<not> key_char (CHR 0x00)"
  by code_simp+

text \<open>Every name \<open>ValidKey\<close> accepts is a single path component that is safe in a directory:
  not empty, neither of the two special entries, no slash or NUL octet, at most 253 octets.\<close>

theorem ValidKey_path_component:
  assumes "ValidKey name"
  shows "name \<noteq> '''' \<and> name \<noteq> ''.'' \<and> name \<noteq> ''..'' \<and> length name \<le> 253 \<and>
    CHR ''/'' \<notin> set name \<and> CHR 0x00 \<notin> set name"
proof -
  have "CHR ''/'' \<notin> set name" and "CHR 0x00 \<notin> set name"
    using assms ValidKey_chars key_char_special by blast+
  with assms show ?thesis by (simp add: ValidKey_def maxKeyLen_def split: if_splits)
qed

theorem ValidKey_path_component_witness:
  "ValidKey ''.credentials.json'' \<and> CHR ''/'' \<notin> set ''.credentials.json''"
proof -
  have v: "ValidKey ''.credentials.json''" by code_simp
  show ?thesis using ValidKey_path_component [OF v] v by blast
qed

section \<open>Inode numbers\<close>

text \<open>\<open>hash/fnv\<close>'s 64-bit FNV-1a: each octet is XORed in, then the state is multiplied by the
  prime, at 64 bits.\<close>

definition fnv_offset64 :: "64 word" where
  "fnv_offset64 = 14695981039346656037"

definition fnv_prime64 :: "64 word" where
  "fnv_prime64 = 1099511628211"

definition fnv_step :: "64 word \<Rightarrow> char \<Rightarrow> 64 word" where
  "fnv_step h c = (h XOR of_nat (of_char c)) * fnv_prime64"

definition hashKey :: "string \<Rightarrow> 64 word" where
  "hashKey key = foldl fnv_step fnv_offset64 key"

text \<open>The prime is odd, so multiplying by it loses nothing.\<close>

lemma fnv_prime64_cancel: "x * fnv_prime64 = y * fnv_prime64 \<longleftrightarrow> x = y"
proof
  assume eq: "x * fnv_prime64 = y * fnv_prime64"
  have inv: "fnv_prime64 * 14886173955864302971 = 1" by (simp add: fnv_prime64_def)
  from eq have "x * fnv_prime64 * 14886173955864302971 = y * fnv_prime64 * 14886173955864302971"
    by simp
  with inv show "x = y" by (simp add: mult.assoc)
qed simp

lemma xor_left_cancel: "(h XOR a = h XOR b) \<longleftrightarrow> a = (b :: 64 word)"
proof
  assume "h XOR a = h XOR b"
  then have "h XOR (h XOR a) = h XOR (h XOR b)" by simp
  then show "a = b" by (simp flip: xor.assoc)
qed simp

lemma octet_word_inj: "of_nat (of_char c) = (of_nat (of_char d) :: 64 word) \<longleftrightarrow> c = d"
proof -
  have "(of_char e :: nat) < 18446744073709551616" for e :: char
    by (rule less_trans [OF nat_of_char_less_256]) simp
  then have "unat (of_nat (of_char e) :: 64 word) = of_char e" for e :: char
    by (simp add: unat_of_nat take_bit_eq_mod)
  then show ?thesis by (metis of_char_eq_iff)
qed

lemma fnv_step_state_inj: "fnv_step h c = fnv_step h' c \<longleftrightarrow> h = h'"
  unfolding fnv_step_def fnv_prime64_cancel
  using xor_left_cancel [of "of_nat (of_char c)" h h'] by (simp add: xor.commute)

lemma fnv_step_octet_inj: "fnv_step h c = fnv_step h d \<longleftrightarrow> c = d"
  unfolding fnv_step_def fnv_prime64_cancel xor_left_cancel octet_word_inj ..

lemma fnv_run_state_inj: "foldl fnv_step h s = foldl fnv_step h' s \<longleftrightarrow> h = h'"
  by (induction s arbitrary: h h') (auto simp: fnv_step_state_inj)

text \<open>Two keys that differ in one octet never get the same inode number, so the hash can
  only collide between keys that differ in at least two places (or in length).\<close>

theorem hashKey_one_octet:
  "hashKey (p @ [c] @ s) = hashKey (p @ [d] @ s) \<longleftrightarrow> c = d"
  by (simp add: hashKey_def fnv_run_state_inj fnv_step_octet_inj)

end
