(* ===== verification/Snapshots.thy ===== *)
theory Snapshots
  imports Prelude
begin

text \<open>
  \<open>pkg/objectfs/snapshot.go\<close>: an immutable view of one object at one resource version, with
  \<open>Get\<close>, \<open>Keys\<close>, \<open>Size\<close> and \<open>With\<close>.
\<close>

definition MaxObjectBytes :: nat where
  "MaxObjectBytes = 2 ^ 20"

record snapshot =
  Data :: data
  ResourceVersion :: string
  FetchedAt :: time

definition snap_Get :: "snapshot \<Rightarrow> string \<Rightarrow> bytes option" where
  "snap_Get s key = fmlookup (Data s) key"

definition snap_Keys :: "snapshot \<Rightarrow> string list" where
  "snap_Keys s = sorted_list_of_fset (fmdom (Data s))"

definition snap_Size :: "snapshot \<Rightarrow> nat" where
  "snap_Size s = sum_list (map (\<lambda>k. length (the (fmlookup (Data s) k))) (snap_Keys s))"

text \<open>\<open>set\<close> is applied first, then \<open>del\<close>: a key in both is deleted. The resource version is
  cleared; the time of the fetch is kept.\<close>

definition snap_With :: "snapshot \<Rightarrow> (string, slice) fmap \<Rightarrow> string list \<Rightarrow> snapshot" where
  "snap_With s puts del =
     \<lparr>Data = fold fmdrop del (fmadd (Data s) (fmmap slice_bytes puts)),
      ResourceVersion = '''', FetchedAt = FetchedAt s\<rparr>"

section \<open>Lookup after With\<close>

lemma snap_Get_With [data_simps]:
  "snap_Get (snap_With s puts del) k =
     (if k \<in> set del then None
      else case fmlookup puts k of Some v \<Rightarrow> Some (slice_bytes v) | None \<Rightarrow> snap_Get s k)"
  by (auto simp: snap_Get_def snap_With_def fmlookup_fold_fmdrop fmlookup_dom_iff
      split: option.splits)

lemma snap_With_meta [simp]:
  "ResourceVersion (snap_With s puts del) = ''''" "FetchedAt (snap_With s puts del) = FetchedAt s"
  by (simp_all add: snap_With_def)

lemma snap_data_eqI: "(\<And>k. snap_Get s k = snap_Get t k) \<Longrightarrow> Data s = Data t"
  by (rule fmap_ext) (simp add: snap_Get_def)

section \<open>Keys and Size\<close>

lemma set_snap_Keys [simp]: "k \<in> set (snap_Keys s) \<longleftrightarrow> (\<exists>v. snap_Get s k = Some v)"
  by (simp add: snap_Keys_def snap_Get_def fmlookup_dom_iff)

lemma snap_Keys_sorted: "sorted (snap_Keys s)" and snap_Keys_distinct: "distinct (snap_Keys s)"
  by (simp_all add: snap_Keys_def sorted_list_of_fset.rep_eq)

text \<open>\<open>Keys\<close> collects the keys in the map's unspecified iteration order and sorts them: whatever
  the order, the result is the same.\<close>

lemma snap_Keys_any_order:
  assumes "distinct ks" and "set ks = fset (fmdom (Data s))"
  shows "sort ks = snap_Keys s"
  using assms by (metis snap_Keys_def finite_fset sorted_list_of_fset.rep_eq
      sorted_list_of_set_sort_remdups remdups_id_iff_distinct)

lemma snap_Size_sum: "snap_Size s = (\<Sum>k \<in> fset (fmdom (Data s)). length (the (fmlookup (Data s) k)))"
  by (simp add: snap_Size_def snap_Keys_def sorted_list_of_fset.rep_eq sum_list_distinct_conv_sum_set)

lemma snap_value_le_Size: "snap_Get s k = Some v \<Longrightarrow> length v \<le> snap_Size s"
  unfolding snap_Size_sum snap_Get_def
  by (rule order_trans [OF _ member_le_sum [of k]]) (auto simp: fmlookup_dom_iff)

end
