(* ===== verification/Kube.thy ===== *)
theory Kube
  imports Prelude
begin

text \<open>
  The code's surroundings, as parameters: the Kubernetes API server reached through client-go, the
  clock and a context's cancellation. None of this is code of the repository. Every definition that
  calls it takes a record \<open>'w kube\<close> of operations on a world \<open>'w\<close> that is never looked into: an
  operation answers and moves the world on, and what else happens in the cluster meanwhile is part
  of that move. What a property needs of these operations is a named hypothesis of that property.

  Reading the clock does not move the world: time passes in the calls, the waits and the sleeps.
\<close>

section \<open>Objects\<close>

text \<open>The parts of a \<open>coordination.k8s.io/v1\<close> Lease the code reads and writes; an absent
  pointer is \<open>None\<close>.\<close>

record lease =
  lease_rv :: string
  HolderIdentity :: "string option"
  LeaseDurationSeconds :: "int option"
  AcquireTime :: "time option"
  RenewTime :: "time option"

record secret =
  sec_Data :: data
  sec_rv :: string

text \<open>A ConfigMap keeps text in \<open>data\<close> and everything else in \<open>binaryData\<close>.\<close>

record configmap =
  cm_Data :: data
  cm_BinaryData :: data
  cm_rv :: string

text \<open>\<open>runtime.Object\<close>: what a watch event carries. Any other type keeps its type name.\<close>

datatype object = SecretObj secret | ConfigMapObj configmap | OtherObj string

section \<open>Merge patches\<close>

text \<open>
  The JSON of a patch as the stores build it: an object of sections, each an object of keys with a
  string (text, or the base64 form of a byte slice) or \<open>null\<close>, which is \<open>None\<close>. A document is the
  same without nulls.
\<close>

datatype leaf = Text bytes | Base64 bytes

type_synonym section_patch = "(string, leaf option) fmap"
type_synonym patch = "(string, section_patch) fmap"
type_synonym doc = "(string, (string, leaf) fmap) fmap"

text \<open>RFC 7386 on documents of this shape, which is what the API server documents for
  \<open>MergePatchType\<close>: a null removes the key, any other value replaces it, and a key that is not
  mentioned is left alone.\<close>

definition merge_section :: "section_patch \<Rightarrow> (string, leaf) fmap \<Rightarrow> (string, leaf) fmap" where
  "merge_section p d =
     fmadd (fmdrop_fset (fmdom p) d) (fmmap the (fmfilter (\<lambda>k. fmlookup p k \<noteq> Some None) p))"

definition merge_doc :: "patch \<Rightarrow> doc \<Rightarrow> doc" where
  "merge_doc body d =
     fmadd d (fmmap_keys (\<lambda>s p. merge_section p
       (case fmlookup d s of Some sec \<Rightarrow> sec | None \<Rightarrow> fmempty)) body)"

lemma fmlookup_merge_section [data_simps]:
  "fmlookup (merge_section p d) k =
     (case fmlookup p k of None \<Rightarrow> fmlookup d k | Some None \<Rightarrow> None | Some (Some v) \<Rightarrow> Some v)"
  by (auto simp: merge_section_def fmlookup_dom_iff split: option.splits)

lemma fmlookup_merge_doc [data_simps]:
  "fmlookup (merge_doc body d) s =
     (case fmlookup body s of None \<Rightarrow> fmlookup d s
      | Some p \<Rightarrow> Some (merge_section p (case fmlookup d s of Some sec \<Rightarrow> sec | None \<Rightarrow> fmempty)))"
  by (auto simp: merge_doc_def fmlookup_dom_iff split: option.splits)

section \<open>The operations\<close>

text \<open>One turn of the watch loop's \<open>select\<close>: the context is done, the channel is closed, or an
  event of some type arrives.\<close>

datatype event_type = Added | Modified | Deleted | Bookmark | Error

datatype watch_turn = CtxDone | ChanClosed | Event event_type object

text \<open>
  \<open>timer_or_done d\<close> waits for the duration or for the context, true if the timer fired first.
  \<open>watch_secret\<close> and \<open>watch_configmap\<close> take the namespace, the \<open>metadata.name\<close> of the field
  selector and the resource version to start from; \<open>watch_next\<close> receives from the open watch.
\<close>

record 'w kube =
  api_now :: "'w \<Rightarrow> time"
  ctx_err :: "'w \<Rightarrow> bool"
  timer_or_done :: "duration \<Rightarrow> 'w \<Rightarrow> bool \<times> 'w"
  get_secret :: "string \<Rightarrow> string \<Rightarrow> 'w \<Rightarrow> secret result \<times> 'w"
  patch_secret :: "string \<Rightarrow> string \<Rightarrow> patch \<Rightarrow> 'w \<Rightarrow> unit result \<times> 'w"
  watch_secret :: "string \<Rightarrow> string \<Rightarrow> string \<Rightarrow> 'w \<Rightarrow> unit result \<times> 'w"
  get_configmap :: "string \<Rightarrow> string \<Rightarrow> 'w \<Rightarrow> configmap result \<times> 'w"
  patch_configmap :: "string \<Rightarrow> string \<Rightarrow> patch \<Rightarrow> 'w \<Rightarrow> unit result \<times> 'w"
  watch_configmap :: "string \<Rightarrow> string \<Rightarrow> string \<Rightarrow> 'w \<Rightarrow> unit result \<times> 'w"
  watch_next :: "'w \<Rightarrow> watch_turn \<times> 'w"
  get_lease :: "string \<Rightarrow> string \<Rightarrow> 'w \<Rightarrow> lease result \<times> 'w"
  create_lease :: "string \<Rightarrow> string \<Rightarrow> lease \<Rightarrow> 'w \<Rightarrow> unit result \<times> 'w"
  update_lease :: "string \<Rightarrow> string \<Rightarrow> lease \<Rightarrow> 'w \<Rightarrow> unit result \<times> 'w"

end
