(* ===== verification/Stores.thy ===== *)
theory Stores
  imports Snapshots Kube Utf8
begin

text \<open>
  \<open>pkg/objectfs/store.go\<close>, \<open>store_secret.go\<close> and \<open>store_configmap.go\<close>: the interface through which
  object content is read and written, and its two implementations. The locale \<open>object_store\<close> is the
  contract of the interface: a patch that the API server applies leaves exactly the contents that
  \<open>Snapshot.With\<close> computes locally. Both implementations are interpretations of it.
\<close>

section \<open>SecretStore\<close>

definition secret_Decode :: "time \<Rightarrow> object \<Rightarrow> snapshot result" where
  "secret_Decode now obj =
     (case obj of
        SecretObj sec \<Rightarrow>
          Inr \<lparr>Data = sec_Data sec, ResourceVersion = sec_rv sec, FetchedAt = now\<rparr>
      | _ \<Rightarrow> Inl (OtherErr ''expected *v1.Secret''))"

definition secret_Get :: "'w kube \<Rightarrow> string \<Rightarrow> string \<Rightarrow> 'w \<Rightarrow> snapshot result \<times> 'w" where
  "secret_Get K ns name w =
     (case get_secret K ns name w of
        (Inl e, w1) \<Rightarrow> (Inl e, w1)
      | (Inr sec, w1) \<Rightarrow> (secret_Decode (api_now K w1) (SecretObj sec), w1))"

text \<open>The body of a Secret patch. \<open>json.Marshal\<close> prints an allocated slice in base64 and a nil one
  as \<open>null\<close>; it cannot fail on these types.\<close>

definition secret_body :: "(string, slice) fmap \<Rightarrow> string list \<Rightarrow> patch" where
  "secret_body puts del =
     fmupd ''data'' (fold (\<lambda>k. fmupd k None) del (fmmap (map_option Base64) puts)) fmempty"

definition secret_Patch ::
  "'w kube \<Rightarrow> string \<Rightarrow> string \<Rightarrow> (string, slice) fmap \<Rightarrow> string list \<Rightarrow> 'w \<Rightarrow> unit result \<times> 'w" where
  "secret_Patch K ns name puts del w = patch_secret K ns name (secret_body puts del) w"

definition secret_Watch :: "'w kube \<Rightarrow> string \<Rightarrow> string \<Rightarrow> string \<Rightarrow> 'w \<Rightarrow> unit result \<times> 'w" where
  "secret_Watch K ns name sinceRV w = watch_secret K ns name sinceRV w"

section \<open>ConfigMapStore\<close>

definition configmap_Decode :: "time \<Rightarrow> object \<Rightarrow> snapshot result" where
  "configmap_Decode now obj =
     (case obj of
        ConfigMapObj cm \<Rightarrow>
          Inr \<lparr>Data = fmadd (cm_Data cm) (cm_BinaryData cm), ResourceVersion = cm_rv cm,
            FetchedAt = now\<rparr>
      | _ \<Rightarrow> Inl (OtherErr ''expected *v1.ConfigMap''))"

definition configmap_Get :: "'w kube \<Rightarrow> string \<Rightarrow> string \<Rightarrow> 'w \<Rightarrow> snapshot result \<times> 'w" where
  "configmap_Get K ns name w =
     (case get_configmap K ns name w of
        (Inl e, w1) \<Rightarrow> (Inl e, w1)
      | (Inr cm, w1) \<Rightarrow> (configmap_Decode (api_now K w1) (ConfigMapObj cm), w1))"

text \<open>Each written key goes to the half that fits its content and is nulled in the other.\<close>

definition text_leaf :: "slice \<Rightarrow> leaf option" where
  "text_leaf v = (if valid_utf8 (slice_bytes v) then Some (Text (slice_bytes v)) else None)"

definition binary_leaf :: "slice \<Rightarrow> leaf option" where
  "binary_leaf v = (if valid_utf8 (slice_bytes v) then None else map_option Base64 v)"

definition configmap_body :: "(string, slice) fmap \<Rightarrow> string list \<Rightarrow> patch" where
  "configmap_body puts del =
     fmupd ''data'' (fold (\<lambda>k. fmupd k None) del (fmmap text_leaf puts))
       (fmupd ''binaryData'' (fold (\<lambda>k. fmupd k None) del (fmmap binary_leaf puts)) fmempty)"

definition configmap_Patch ::
  "'w kube \<Rightarrow> string \<Rightarrow> string \<Rightarrow> (string, slice) fmap \<Rightarrow> string list \<Rightarrow> 'w \<Rightarrow> unit result \<times> 'w" where
  "configmap_Patch K ns name puts del w = patch_configmap K ns name (configmap_body puts del) w"

definition configmap_Watch :: "'w kube \<Rightarrow> string \<Rightarrow> string \<Rightarrow> string \<Rightarrow> 'w \<Rightarrow> unit result \<times> 'w" where
  "configmap_Watch K ns name sinceRV w = watch_configmap K ns name sinceRV w"

section \<open>The interface\<close>

text \<open>A \<open>Store\<close> value is one of the two implementations with its namespace and name; a method call
  dispatches on it.\<close>

datatype store = SecretStore string string | ConfigMapStore string string

fun store_Get :: "'w kube \<Rightarrow> store \<Rightarrow> 'w \<Rightarrow> snapshot result \<times> 'w" where
  "store_Get K (SecretStore ns name) w = secret_Get K ns name w"
| "store_Get K (ConfigMapStore ns name) w = configmap_Get K ns name w"

fun store_Watch :: "'w kube \<Rightarrow> store \<Rightarrow> string \<Rightarrow> 'w \<Rightarrow> unit result \<times> 'w" where
  "store_Watch K (SecretStore ns name) rv w = secret_Watch K ns name rv w"
| "store_Watch K (ConfigMapStore ns name) rv w = configmap_Watch K ns name rv w"

fun store_Decode :: "store \<Rightarrow> time \<Rightarrow> object \<Rightarrow> snapshot result" where
  "store_Decode (SecretStore ns name) now obj = secret_Decode now obj"
| "store_Decode (ConfigMapStore ns name) now obj = configmap_Decode now obj"

fun store_Patch ::
  "'w kube \<Rightarrow> store \<Rightarrow> (string, slice) fmap \<Rightarrow> string list \<Rightarrow> 'w \<Rightarrow> unit result \<times> 'w" where
  "store_Patch K (SecretStore ns name) puts del w = secret_Patch K ns name puts del w"
| "store_Patch K (ConfigMapStore ns name) puts del w = configmap_Patch K ns name puts del w"

fun store_Describe :: "store \<Rightarrow> string" where
  "store_Describe (SecretStore ns name) = ''secrets/'' @ name"
| "store_Describe (ConfigMapStore ns name) = ''configmaps/'' @ name"

section \<open>The contract\<close>

text \<open>The contents a snapshot of the result must have.\<close>

definition with_data :: "data \<Rightarrow> (string, slice) fmap \<Rightarrow> string list \<Rightarrow> data" where
  "with_data d puts del = fold fmdrop del (fmadd d (fmmap slice_bytes puts))"

lemma Data_snap_With [simp]: "Data (snap_With s puts del) = with_data (Data s) puts del"
  by (simp add: snap_With_def with_data_def)

lemma fmlookup_with_data [data_simps]:
  "fmlookup (with_data d puts del) k =
     (if k \<in> set del then None
      else case fmlookup puts k of Some v \<Rightarrow> Some (slice_bytes v) | None \<Rightarrow> fmlookup d k)"
  by (auto simp: with_data_def fmlookup_fold_fmdrop fmlookup_dom_iff split: option.splits)

text \<open>Every value of a write is an allocated slice.\<close>

definition allocated :: "(string, slice) fmap \<Rightarrow> bool" where
  "allocated puts \<longleftrightarrow> (\<forall>k. fmlookup puts k \<noteq> Some None)"

lemma allocatedI: "(\<And>k v. fmlookup puts k = Some v \<Longrightarrow> v \<noteq> None) \<Longrightarrow> allocated puts"
  by (auto simp: allocated_def)

lemma allocated_empty [simp]: "allocated fmempty"
  by (simp add: allocated_def)

lemma allocated_upd [simp]: "allocated (fmupd k (Some v) fmempty)"
  by (simp add: allocated_def)

definition touched :: "(string, slice) fmap \<Rightarrow> string list \<Rightarrow> string set" where
  "touched puts del = fmdom' puts \<union> set del"

locale object_store =
  fixes body :: "(string, slice) fmap \<Rightarrow> string list \<Rightarrow> patch"
    and doc_of :: "'obj \<Rightarrow> doc"
    and contents :: "'obj \<Rightarrow> data"
    and valid :: "'obj \<Rightarrow> bool"
  assumes patch_contents: "valid ob \<Longrightarrow> allocated puts \<Longrightarrow>
      doc_of ob' = merge_doc (body puts del) (doc_of ob) \<Longrightarrow>
      contents ob' = with_data (contents ob) puts del"
    and patch_valid: "valid ob \<Longrightarrow> doc_of ob' = merge_doc (body puts del) (doc_of ob) \<Longrightarrow> valid ob'"
begin

text \<open>A key the patch does not mention keeps its value.\<close>

lemma untouched_key:
  assumes "valid ob" "allocated puts" "doc_of ob' = merge_doc (body puts del) (doc_of ob)"
    and "k \<notin> touched puts del"
  shows "fmlookup (contents ob') k = fmlookup (contents ob) k"
  using assms by (auto simp: patch_contents touched_def fmlookup_with_data fmlookup_dom'_iff
      split: option.splits)

text \<open>Writers of different keys do not lose each other's writes, in either order.\<close>

lemma disjoint_patches_commute:
  assumes v: "valid ob" and a: "allocated p1" "allocated p2"
    and disj: "touched p1 d1 \<inter> touched p2 d2 = {}"
    and l: "doc_of o1 = merge_doc (body p1 d1) (doc_of ob)"
           "doc_of o12 = merge_doc (body p2 d2) (doc_of o1)"
    and r: "doc_of o2 = merge_doc (body p2 d2) (doc_of ob)"
           "doc_of o21 = merge_doc (body p1 d1) (doc_of o2)"
  shows "contents o12 = contents o21"
proof (rule fmap_ext)
  fix k
  have "valid o1" "valid o2" using v l r patch_valid by blast+
  then have c: "contents o12 = with_data (with_data (contents ob) p1 d1) p2 d2"
    "contents o21 = with_data (with_data (contents ob) p2 d2) p1 d1"
    using v a l r by (simp_all add: patch_contents)
  have "k \<notin> touched p1 d1 \<or> k \<notin> touched p2 d2" using disj by blast
  then show "fmlookup (contents o12) k = fmlookup (contents o21) k"
    unfolding c fmlookup_with_data
    by (auto simp: touched_def fmlookup_dom'_iff split: option.splits)
qed

end

section \<open>Both stores meet it\<close>

lemma fmlookup_fold_null [data_simps]:
  "fmlookup (fold (\<lambda>k. fmupd k None) ks m) k = (if k \<in> set ks then Some None else fmlookup m k)"
  by (induction ks arbitrary: m) auto

definition secret_doc :: "secret \<Rightarrow> doc" where
  "secret_doc sec = fmupd ''data'' (fmmap Base64 (sec_Data sec)) fmempty"

definition configmap_doc :: "configmap \<Rightarrow> doc" where
  "configmap_doc cm =
     fmupd ''data'' (fmmap Text (cm_Data cm)) (fmupd ''binaryData'' (fmmap Base64 (cm_BinaryData cm)) fmempty)"

text \<open>The API server refuses a ConfigMap with a key in both halves.\<close>

definition configmap_valid :: "configmap \<Rightarrow> bool" where
  "configmap_valid cm \<longleftrightarrow> fmdom (cm_Data cm) |\<inter>| fmdom (cm_BinaryData cm) = {||}"

definition configmap_contents :: "configmap \<Rightarrow> data" where
  "configmap_contents cm = fmadd (cm_Data cm) (cm_BinaryData cm)"

lemma Base64_map_eq: "map_option Base64 a = map_option Base64 b \<longleftrightarrow> a = b"
  by (auto simp: map_option_case split: option.splits)

lemma Text_map_eq: "map_option Text a = map_option Text b \<longleftrightarrow> a = b"
  by (auto simp: map_option_case split: option.splits)

lemma secret_doc_merge_iff:
  "secret_doc s' = merge_doc (secret_body puts del) (secret_doc s) \<longleftrightarrow>
   fmmap Base64 (sec_Data s') =
     merge_section (fold (\<lambda>k. fmupd k None) del (fmmap (map_option Base64) puts)) (fmmap Base64 (sec_Data s))"
  by (auto simp: secret_doc_def secret_body_def fmap_eq_iff fmlookup_merge_doc split: if_splits)

lemma secret_patch_lookup:
  assumes "secret_doc s' = merge_doc (secret_body puts del) (secret_doc s)"
  shows "fmlookup (sec_Data s') k =
    (if k \<in> set del then None
     else case fmlookup puts k of None \<Rightarrow> fmlookup (sec_Data s) k | Some v \<Rightarrow> v)"
proof -
  from assms have "map_option Base64 (fmlookup (sec_Data s') k) =
      fmlookup (merge_section (fold (\<lambda>k. fmupd k None) del (fmmap (map_option Base64) puts))
        (fmmap Base64 (sec_Data s))) k"
    unfolding secret_doc_merge_iff by (metis fmlookup_map)
  also have "\<dots> = map_option Base64 (if k \<in> set del then None
     else case fmlookup puts k of None \<Rightarrow> fmlookup (sec_Data s) k | Some v \<Rightarrow> v)"
    by (simp add: fmlookup_merge_section fmlookup_fold_null split: option.splits)
  finally show ?thesis unfolding Base64_map_eq .
qed

interpretation secret_store: object_store secret_body secret_doc sec_Data "\<lambda>_. True"
proof
  fix ob ob' :: secret and puts del
  assume a: "allocated puts"
    and m: "secret_doc ob' = merge_doc (secret_body puts del) (secret_doc ob)"
  show "sec_Data ob' = with_data (sec_Data ob) puts del"
  proof (rule fmap_ext)
    fix k
    show "fmlookup (sec_Data ob') k = fmlookup (with_data (sec_Data ob) puts del) k"
      using a by (cases "fmlookup puts k")
        (auto simp: secret_patch_lookup [OF m] fmlookup_with_data allocated_def
          slice_bytes_def split: option.splits)
  qed
qed simp

lemma merge_two_sections:
  assumes "a \<noteq> b"
  shows "merge_doc (fmupd a p (fmupd b q fmempty)) (fmupd a u (fmupd b v fmempty)) =
    fmupd a (merge_section p u) (fmupd b (merge_section q v) fmempty)"
  using assms by (intro fmap_ext) (simp add: fmlookup_merge_doc)

lemma two_sections_eq:
  assumes "a \<noteq> b"
  shows "fmupd a x (fmupd b y fmempty) = fmupd a x' (fmupd b y' fmempty) \<longleftrightarrow> x = x' \<and> y = y'"
proof
  assume eq: "fmupd a x (fmupd b y fmempty) = fmupd a x' (fmupd b y' fmempty)"
  from arg_cong [OF eq, of "\<lambda>m. fmlookup m a"] arg_cong [OF eq, of "\<lambda>m. fmlookup m b"] assms
  show "x = x' \<and> y = y'" by simp
qed simp

lemma configmap_doc_merge_iff:
  "configmap_doc c' = merge_doc (configmap_body puts del) (configmap_doc c) \<longleftrightarrow>
   fmmap Text (cm_Data c') =
     merge_section (fold (\<lambda>k. fmupd k None) del (fmmap text_leaf puts)) (fmmap Text (cm_Data c)) \<and>
   fmmap Base64 (cm_BinaryData c') =
     merge_section (fold (\<lambda>k. fmupd k None) del (fmmap binary_leaf puts)) (fmmap Base64 (cm_BinaryData c))"
proof -
  have ne: "''data'' \<noteq> ''binaryData''" by simp
  show ?thesis
    unfolding configmap_doc_def configmap_body_def merge_two_sections [OF ne] two_sections_eq [OF ne] ..
qed

lemma configmap_patch_lookup:
  assumes "configmap_doc c' = merge_doc (configmap_body puts del) (configmap_doc c)"
  shows configmap_patch_text: "fmlookup (cm_Data c') k =
      (if k \<in> set del then None
       else case fmlookup puts k of None \<Rightarrow> fmlookup (cm_Data c) k
         | Some v \<Rightarrow> if valid_utf8 (slice_bytes v) then Some (slice_bytes v) else None)"
    and configmap_patch_binary: "fmlookup (cm_BinaryData c') k =
      (if k \<in> set del then None
       else case fmlookup puts k of None \<Rightarrow> fmlookup (cm_BinaryData c) k
         | Some v \<Rightarrow> if valid_utf8 (slice_bytes v) then None else v)"
proof -
  from assms have "map_option Text (fmlookup (cm_Data c') k) =
      fmlookup (merge_section (fold (\<lambda>k. fmupd k None) del (fmmap text_leaf puts))
        (fmmap Text (cm_Data c))) k"
    unfolding configmap_doc_merge_iff by (metis fmlookup_map)
  also have "\<dots> = map_option Text (if k \<in> set del then None
     else case fmlookup puts k of None \<Rightarrow> fmlookup (cm_Data c) k
       | Some v \<Rightarrow> if valid_utf8 (slice_bytes v) then Some (slice_bytes v) else None)"
    by (simp add: fmlookup_merge_section fmlookup_fold_null text_leaf_def split: option.splits)
  finally show "fmlookup (cm_Data c') k =
      (if k \<in> set del then None
       else case fmlookup puts k of None \<Rightarrow> fmlookup (cm_Data c) k
         | Some v \<Rightarrow> if valid_utf8 (slice_bytes v) then Some (slice_bytes v) else None)"
    unfolding Text_map_eq .
next
  from assms have "map_option Base64 (fmlookup (cm_BinaryData c') k) =
      fmlookup (merge_section (fold (\<lambda>k. fmupd k None) del (fmmap binary_leaf puts))
        (fmmap Base64 (cm_BinaryData c))) k"
    unfolding configmap_doc_merge_iff by (metis fmlookup_map)
  also have "\<dots> = map_option Base64 (if k \<in> set del then None
     else case fmlookup puts k of None \<Rightarrow> fmlookup (cm_BinaryData c) k
       | Some v \<Rightarrow> if valid_utf8 (slice_bytes v) then None else v)"
    by (simp add: fmlookup_merge_section fmlookup_fold_null binary_leaf_def split: option.splits)
  finally show "fmlookup (cm_BinaryData c') k =
      (if k \<in> set del then None
       else case fmlookup puts k of None \<Rightarrow> fmlookup (cm_BinaryData c) k
         | Some v \<Rightarrow> if valid_utf8 (slice_bytes v) then None else v)"
    unfolding Base64_map_eq .
qed

text \<open>No key in both halves, pointwise.\<close>

lemma configmap_valid_iff:
  "configmap_valid c \<longleftrightarrow> (\<forall>k. fmlookup (cm_Data c) k = None \<or> fmlookup (cm_BinaryData c) k = None)"
  by (auto simp: configmap_valid_def fset_eq_iff fmlookup_dom_iff)

lemma fmlookup_configmap_contents:
  "fmlookup (configmap_contents c) k =
     (case fmlookup (cm_BinaryData c) k of Some v \<Rightarrow> Some v | None \<Rightarrow> fmlookup (cm_Data c) k)"
  by (auto simp: configmap_contents_def fmlookup_dom_iff split: option.splits)

interpretation configmap_store: object_store configmap_body configmap_doc configmap_contents configmap_valid
proof
  fix ob ob' :: configmap and puts del
  assume m: "configmap_doc ob' = merge_doc (configmap_body puts del) (configmap_doc ob)"
  note lk = configmap_patch_lookup [OF m]
  show "configmap_valid ob'" if "configmap_valid ob"
    using that unfolding configmap_valid_iff by (auto simp: lk split: option.splits)
  show "configmap_contents ob' = with_data (configmap_contents ob) puts del"
    if "configmap_valid ob" and a: "allocated puts"
  proof (rule fmap_ext)
    fix k
    show "fmlookup (configmap_contents ob') k = fmlookup (with_data (configmap_contents ob) puts del) k"
      using a by (cases "fmlookup puts k")
        (auto simp: fmlookup_configmap_contents lk fmlookup_with_data allocated_def
          slice_bytes_def split: option.splits)
  qed
qed

section \<open>Properties\<close>

text \<open>A Secret that the API server patched with \<open>SecretStore.Patch\<close>'s body decodes to exactly
  what \<open>Snapshot.With\<close> computes locally from the Secret before it, as long as every written slice
  is allocated.\<close>

theorem secret_patch_refines_With:
  assumes "allocated puts"
    and "secret_doc s' = merge_doc (secret_body puts del) (secret_doc s)"
    and "secret_Decode t (SecretObj s) = Inr snap" and "secret_Decode t' (SecretObj s') = Inr snap'"
  shows "Data snap' = Data (snap_With snap puts del)"
  using assms secret_store.patch_contents [OF _ assms(1,2)] by (auto simp: secret_Decode_def)

text \<open>The same for a ConfigMap, whose two halves stay disjoint: each written key lands in the
  half that fits its content and leaves the other.\<close>

theorem configmap_patch_refines_With:
  assumes "configmap_valid c" and "allocated puts"
    and "configmap_doc c' = merge_doc (configmap_body puts del) (configmap_doc c)"
    and "configmap_Decode t (ConfigMapObj c) = Inr snap"
    and "configmap_Decode t' (ConfigMapObj c') = Inr snap'"
  shows "Data snap' = Data (snap_With snap puts del) \<and> configmap_valid c'"
  using assms configmap_store.patch_contents [OF assms(1-3)] configmap_store.patch_valid [OF assms(1,3)]
  by (auto simp: configmap_Decode_def configmap_contents_def)

text \<open>Two ConfigMap patches that touch different keys give the same contents in either order,
  so writers of different files never lose each other's writes and need no retry loop.\<close>

theorem configmap_disjoint_writers:
  assumes "configmap_valid c" and "allocated p1" and "allocated p2"
    and "touched p1 d1 \<inter> touched p2 d2 = {}"
    and "configmap_doc c1 = merge_doc (configmap_body p1 d1) (configmap_doc c)"
    and "configmap_doc c12 = merge_doc (configmap_body p2 d2) (configmap_doc c1)"
    and "configmap_doc c2 = merge_doc (configmap_body p2 d2) (configmap_doc c)"
    and "configmap_doc c21 = merge_doc (configmap_body p1 d1) (configmap_doc c2)"
  shows "configmap_contents c12 = configmap_contents c21"
  using assms by (rule configmap_store.disjoint_patches_commute)

theorem secret_patch_refines_With_witness:
  "Data \<lparr>Data = fmupd ''k'' ''b'' fmempty, ResourceVersion = ''2'', FetchedAt = 9\<rparr> =
   Data (snap_With \<lparr>Data = fmupd ''k'' ''a'' fmempty, ResourceVersion = ''1'', FetchedAt = 3\<rparr>
     (fmupd ''k'' (Some ''b'') fmempty) [])"
proof (rule secret_patch_refines_With)
  show "allocated (fmupd ''k'' (Some ''b'') fmempty)" by simp
  show "secret_doc \<lparr>sec_Data = fmupd ''k'' ''b'' fmempty, sec_rv = ''2''\<rparr> =
    merge_doc (secret_body (fmupd ''k'' (Some ''b'') fmempty) [])
      (secret_doc \<lparr>sec_Data = fmupd ''k'' ''a'' fmempty, sec_rv = ''1''\<rparr>)"
    unfolding secret_doc_merge_iff
    by (rule fmap_ext) (simp add: fmlookup_merge_section)
qed (simp_all add: secret_Decode_def)

definition demo_configmap :: "string \<Rightarrow> bytes \<Rightarrow> bytes \<Rightarrow> configmap" where
  "demo_configmap v a b = \<lparr>cm_Data = fmupd ''a'' a (fmupd ''b'' b fmempty), cm_BinaryData = fmempty, cm_rv = v\<rparr>"

lemma demo_configmap_valid [simp]: "configmap_valid (demo_configmap v a b)"
  by (simp add: configmap_valid_def demo_configmap_def)

lemma demo_configmap_patch:
  "configmap_doc (demo_configmap v' ''x'' b) =
     merge_doc (configmap_body (fmupd ''a'' (Some ''x'') fmempty) []) (configmap_doc (demo_configmap v a b))"
  "configmap_doc (demo_configmap v' a ''y'') =
     merge_doc (configmap_body (fmupd ''b'' (Some ''y'') fmempty) []) (configmap_doc (demo_configmap v a b))"
  unfolding configmap_doc_merge_iff
  by (auto simp: fmap_eq_iff fmlookup_merge_section demo_configmap_def text_leaf_def binary_leaf_def utf8_size_ascii)

theorem configmap_patch_refines_With_witness:
  "Data \<lparr>Data = configmap_contents (demo_configmap ''2'' ''x'' ''b''), ResourceVersion = ''2'', FetchedAt = 9\<rparr> =
   Data (snap_With \<lparr>Data = configmap_contents (demo_configmap ''1'' ''a'' ''b''), ResourceVersion = ''1'', FetchedAt = 3\<rparr>
     (fmupd ''a'' (Some ''x'') fmempty) []) \<and> configmap_valid (demo_configmap ''2'' ''x'' ''b'')"
  by (rule configmap_patch_refines_With [OF demo_configmap_valid [where v = "''1''"] allocated_upd demo_configmap_patch(1)])
    (simp_all add: configmap_Decode_def configmap_contents_def demo_configmap_def)

theorem configmap_disjoint_writers_witness:
  "configmap_contents (demo_configmap ''3'' ''x'' ''y'') = configmap_contents (demo_configmap ''5'' ''x'' ''y'')"
  by (rule configmap_disjoint_writers [OF demo_configmap_valid allocated_upd allocated_upd _
        demo_configmap_patch(1) demo_configmap_patch(2) demo_configmap_patch(2) demo_configmap_patch(1)])
    (simp add: touched_def)

end
