(* ===== verification/Json.thy ===== *)
theory Json
  imports Utf8
begin

text \<open>
  What the code uses of Go's \<open>encoding/json\<close>: the text of a value as \<open>MarshalIndent\<close> writes it, and the
  value of a text as \<open>Unmarshal\<close> reads it, with the scanner's nesting limit. Strings are octets: an
  invalid UTF-8 sequence is written and read as U+FFFD.
\<close>

datatype json =
    JNull
  | JBool bool
  | JNumber string
  | JString string
  | JArray "json list"
  | JObject "(string \<times> json) list"

section \<open>Strings\<close>

definition quote_mark :: char where "quote_mark = CHR 0x22"
definition backslash :: char where "backslash = CHR 0x5C"

definition hex_lower :: "nat \<Rightarrow> char" where
  "hex_lower n = (if n < 10 then char_of (48 + n) else char_of (87 + n))"

text \<open>One ASCII octet inside a string literal: beside what JSON asks for, \<open><\<close>, \<open>>\<close> and \<open>&\<close> are written
  as escapes.\<close>

definition escape_ascii :: "char \<Rightarrow> string" where
  "escape_ascii c =
     (if c = quote_mark \<or> c = backslash then [backslash, c]
      else if octet c = 8 then [backslash, CHR ''b'']
      else if octet c = 12 then [backslash, CHR ''f'']
      else if octet c = 10 then [backslash, CHR ''n'']
      else if octet c = 13 then [backslash, CHR ''r'']
      else if octet c = 9 then [backslash, CHR ''t'']
      else if octet c < 0x20 \<or> c \<in> {CHR ''<'', CHR ''>'', CHR ''&''}
      then [backslash, CHR ''u'', CHR ''0'', CHR ''0'', hex_lower (octet c div 16), hex_lower (octet c mod 16)]
      else [c])"

text \<open>U+2028 and U+2029 are escaped too.\<close>

definition line_separator :: "string \<Rightarrow> bool" where
  "line_separator s \<longleftrightarrow> s = [CHR 0xE2, CHR 0x80, CHR 0xA8] \<or> s = [CHR 0xE2, CHR 0x80, CHR 0xA9]"

definition escape_rune :: "string \<Rightarrow> string" where
  "escape_rune s =
     (if line_separator s then backslash # (if last s = CHR 0xA8 then ''u2028'' else ''u2029'') else s)"

function escape :: "string \<Rightarrow> string" where
  "escape [] = []"
| "escape (c # s) =
     (let k = utf8_size (c # s) in
      if octet c < 0x80 then escape_ascii c @ escape s
      else if k = 0 then backslash # ''ufffd'' @ escape s
      else escape_rune (take k (c # s)) @ escape (drop (k - 1) s))"
  by pat_completeness auto
termination by (relation "measure length") auto

definition quote_json :: "string \<Rightarrow> string" where
  "quote_json s = quote_mark # escape s @ [quote_mark]"

text \<open>Reading: the four hexadecimal digits of an escape.\<close>

definition hex_value :: "char \<Rightarrow> nat option" where
  "hex_value c =
     (let n = octet c in
      if 48 \<le> n \<and> n \<le> 57 then Some (n - 48)
      else if 97 \<le> n \<and> n \<le> 102 then Some (n - 87)
      else if 65 \<le> n \<and> n \<le> 70 then Some (n - 55)
      else None)"

fun hex4 :: "string \<Rightarrow> (nat \<times> string) option" where
  "hex4 (a # b # c # d # s) =
     (case (hex_value a, hex_value b, hex_value c, hex_value d) of
        (Some i, Some j, Some k, Some l) \<Rightarrow> Some (4096 * i + 256 * j + 16 * k + l, s)
      | _ \<Rightarrow> None)"
| "hex4 _ = None"

fun second_half :: "string \<Rightarrow> (nat \<times> string) option" where
  "second_half (a # b # s) = (if a = backslash \<and> b = CHR ''u'' then hex4 s else None)"
| "second_half _ = None"

text \<open>What follows a backslash; a surrogate without its other half reads as U+FFFD.\<close>

definition unescape_rune :: "nat \<Rightarrow> string \<Rightarrow> string \<times> string" where
  "unescape_rune u s =
     (if u < 0xD800 \<or> 0xE000 \<le> u then (encode_rune u, s)
      else case second_half s of
        Some (v, s1) \<Rightarrow>
          if u < 0xDC00 \<and> 0xDC00 \<le> v \<and> v < 0xE000
          then (encode_rune (0x10000 + (u - 0xD800) * 0x400 + (v - 0xDC00)), s1) else (replacement, s)
      | None \<Rightarrow> (replacement, s))"

fun unescape :: "string \<Rightarrow> (string \<times> string) option" where
  "unescape [] = None"
| "unescape (c # s) =
     (if c = quote_mark \<or> c = backslash \<or> c = CHR ''/'' then Some ([c], s)
      else if c = CHR ''b'' then Some ([CHR 0x08], s)
      else if c = CHR ''f'' then Some ([CHR 0x0C], s)
      else if c = CHR ''n'' then Some ([CHR 0x0A], s)
      else if c = CHR ''r'' then Some ([CHR 0x0D], s)
      else if c = CHR ''t'' then Some ([CHR 0x09], s)
      else if c = CHR ''u'' then map_option (\<lambda>(u, s1). unescape_rune u s1) (hex4 s)
      else None)"

lemma hex4_shorter: "hex4 s = Some (u, r) \<Longrightarrow> length r < length s"
  by (cases s rule: hex4.cases) (auto split: option.splits)

lemma second_half_shorter: "second_half s = Some (u, r) \<Longrightarrow> length r < length s"
  by (cases s rule: second_half.cases) (auto split: if_splits dest: hex4_shorter)

lemma unescape_shorter: "unescape s = Some (t, r) \<Longrightarrow> length r < length s"
  by (cases s)
    (auto simp: unescape_rune_def split: if_splits option.splits dest!: hex4_shorter second_half_shorter)

text \<open>The contents of a literal after its opening quote, and what follows its closing quote.\<close>

definition prepend :: "string \<Rightarrow> (string \<times> string) option \<Rightarrow> (string \<times> string) option" where
  "prepend t r = map_option (\<lambda>(u, rest). (t @ u, rest)) r"

function lex_string :: "string \<Rightarrow> (string \<times> string) option" where
  "lex_string [] = None"
| "lex_string (c # s) =
     (let k = utf8_size (c # s) in
      if c = quote_mark then Some ([], s)
      else if c = backslash
      then (case unescape s of None \<Rightarrow> None | Some (t, r) \<Rightarrow> prepend t (lex_string r))
      else if octet c < 0x20 then None
      else if k = 0 then prepend replacement (lex_string s)
      else prepend (take k (c # s)) (lex_string (drop (k - 1) s)))"
  by pat_completeness auto
termination by (relation "measure length") (auto dest: unescape_shorter)

declare escape.simps(2) [simp del] lex_string.simps(2) [simp del]

text \<open>Reading undoes writing, one rune at a time.\<close>

lemma prepend_simps [simp]: "prepend t (Some (u, r)) = Some (t @ u, r)" "prepend t None = None"
  by (simp_all add: prepend_def)

lemma hex_value_lower: "n < 16 \<Longrightarrow> hex_value (hex_lower n) = Some n"
  by (auto simp: hex_value_def hex_lower_def Let_def)

lemma char_numerals:
  "char_of (226 :: nat) = CHR 0xE2" "char_of (128 :: nat) = CHR 0x80" "char_of (168 :: nat) = CHR 0xA8"
  "char_of (169 :: nat) = CHR 0xA9" "char_of (8 :: nat) = CHR 0x08" "char_of (12 :: nat) = CHR 0x0C"
  "char_of (10 :: nat) = CHR 0x0A" "char_of (13 :: nat) = CHR 0x0D" "char_of (9 :: nat) = CHR 0x09"
  by code_simp+

lemma octet_eq: "octet c = n \<Longrightarrow> c = char_of n"
  by auto

lemma lex_backslash: "unescape s = Some (t, r) \<Longrightarrow> lex_string (backslash # s) = prepend t (lex_string r)"
  by (simp add: lex_string.simps(2) quote_mark_def backslash_def)

lemma lex_control:
  assumes "octet c < 0x80"
  shows "lex_string (backslash # CHR ''u'' # CHR ''0'' # CHR ''0'' # hex_lower (octet c div 16) # hex_lower (octet c mod 16) # r)
    = prepend [c] (lex_string r)"
proof (rule lex_backslash)
  have z: "hex_value (CHR ''0'') = Some 0" by (simp add: hex_value_def)
  have "octet c div 16 < 16" "octet c mod 16 < 16" using assms by simp_all
  from this [THEN hex_value_lower] z
  have "hex4 (CHR ''0'' # CHR ''0'' # hex_lower (octet c div 16) # hex_lower (octet c mod 16) # r) = Some (octet c, r)"
    by simp
  then show "unescape (CHR ''u'' # CHR ''0'' # CHR ''0'' # hex_lower (octet c div 16) # hex_lower (octet c mod 16) # r) = Some ([c], r)"
    using assms by (simp add: quote_mark_def backslash_def unescape_rune_def encode_rune_def)
qed

lemma lex_escape_ascii:
  assumes "octet c < 0x80"
  shows "lex_string (escape_ascii c @ r) = prepend [c] (lex_string r)"
proof -
  have two: "lex_string (backslash # b # r) = prepend [c] (lex_string r)" if "unescape (b # r) = Some ([c], r)" for b
    using that by (rule lex_backslash)
  consider "c = quote_mark \<or> c = backslash" | "octet c = 8" | "octet c = 12" | "octet c = 10" | "octet c = 13" | "octet c = 9"
    | "c \<noteq> quote_mark" "c \<noteq> backslash" "octet c \<notin> {8, 12, 10, 13, 9}" "octet c < 0x20 \<or> c \<in> {CHR ''<'', CHR ''>'', CHR ''&''}"
    | "c \<noteq> quote_mark" "c \<noteq> backslash" "octet c \<notin> {8, 12, 10, 13, 9}" "\<not> octet c < 0x20" "c \<notin> {CHR ''<'', CHR ''>'', CHR ''&''}"
    by blast
  then show ?thesis
  proof cases
    case 1
    then show ?thesis using two [of c] by (auto simp: escape_ascii_def)
  next
    case 7
    then show ?thesis using lex_control [OF assms, of r] by (simp add: escape_ascii_def)
  next
    case 8
    then show ?thesis using assms by (simp add: escape_ascii_def lex_string.simps(2) utf8_size_ascii)
  qed (use two in \<open>auto simp: escape_ascii_def quote_mark_def backslash_def char_numerals dest!: octet_eq\<close>)
qed

lemma lex_escape_rune:
  assumes "\<not> octet c < 0x80" and k: "utf8_size (c # s) = k" "k \<noteq> 0"
  shows "lex_string (escape_rune (take k (c # s)) @ r) = prepend (take k (c # s)) (lex_string r)"
proof (cases "line_separator (take k (c # s))")
  case True
  have h: "hex_value (CHR ''0'') = Some 0" "hex_value (CHR ''2'') = Some 2" "hex_value (CHR ''8'') = Some 8"
    "hex_value (CHR ''9'') = Some 9" by (simp_all add: hex_value_def)
  have "unescape (CHR ''u'' # CHR ''2'' # CHR ''0'' # CHR ''2'' # CHR ''8'' # r) = Some ([CHR 0xE2, CHR 0x80, CHR 0xA8], r)"
    "unescape (CHR ''u'' # CHR ''2'' # CHR ''0'' # CHR ''2'' # CHR ''9'' # r) = Some ([CHR 0xE2, CHR 0x80, CHR 0xA9], r)"
    by (simp_all add: h unescape_rune_def encode_rune_def quote_mark_def backslash_def char_numerals)
  from this [THEN lex_backslash] True show ?thesis
    by (auto simp: line_separator_def escape_rune_def)
next
  case False
  obtain j where j: "k = Suc j" using k(2) by (cases k) simp_all
  have s: "utf8_size (c # take j s @ r) = k"
    using utf8_size_append [of "take k (c # s)" r] utf8_size_take [OF k(1)] k(2) j by simp
  have "length (take j s) = j" using utf8_size_length [of "c # s"] k(1) j by simp
  moreover have "c \<noteq> quote_mark" "c \<noteq> backslash" "\<not> octet c < 0x20"
    using assms(1) by (auto simp: quote_mark_def backslash_def)
  ultimately show ?thesis
    using False s j by (simp add: escape_rune_def lex_string.simps(2) Let_def)
qed

lemma lex_quoted: "valid_utf8 s \<Longrightarrow> lex_string (escape s @ quote_mark # r) = Some (s, r)"
proof (induction s rule: escape.induct)
  case 1
  show ?case by (simp add: lex_string.simps(2))
next
  case (2 c s)
  let ?k = "utf8_size (c # s)"
  show ?case
  proof (cases "octet c < 0x80")
    case True
    with 2 lex_escape_ascii [OF True] show ?thesis by (simp add: escape.simps(2) Let_def utf8_size_ascii)
  next
    case False
    have k: "?k \<noteq> 0" "valid_utf8 (drop (?k - 1) s)" using "2.prems" by simp_all
    have e: "escape (c # s) = escape_rune (take ?k (c # s)) @ escape (drop (?k - 1) s)"
      using False k(1) by (simp add: escape.simps(2) Let_def)
    have "take ?k (c # s) @ drop (?k - 1) s = c # s"
      using k(1) by (cases ?k) simp_all
    moreover have "lex_string (escape (drop (?k - 1) s) @ quote_mark # r) = Some (drop (?k - 1) s, r)"
      by (rule "2.IH"(3) [OF refl False k])
    ultimately show ?thesis using lex_escape_rune [OF False refl k(1)] by (simp add: e)
  qed
qed

section \<open>Tokens\<close>

datatype token = BraceOpen | BraceClose | BracketOpen | BracketClose | Colon_tok | Comma_tok
  | Tok_value json

definition is_digit :: "char \<Rightarrow> bool" where
  "is_digit c \<longleftrightarrow> 48 \<le> octet c \<and> octet c \<le> 57"

definition digits1 :: "string \<Rightarrow> (string \<times> string) option" where
  "digits1 s = (if takeWhile is_digit s = [] then None else Some (takeWhile is_digit s, dropWhile is_digit s))"

text \<open>The three parts of a number after its sign: the integer without leading zeros, a fraction and an
  exponent that may be missing.\<close>

definition lex_integer :: "string \<Rightarrow> (string \<times> string) option" where
  "lex_integer s =
     (case s of
        [] \<Rightarrow> None
      | c # r \<Rightarrow> if c = CHR ''0'' then Some ([c], r) else digits1 s)"

definition lex_fraction :: "string \<Rightarrow> (string \<times> string) option" where
  "lex_fraction s =
     (case s of
        c # r \<Rightarrow> if c = CHR ''.'' then prepend [c] (digits1 r) else Some ([], s)
      | [] \<Rightarrow> Some ([], s))"

definition lex_exponent :: "string \<Rightarrow> (string \<times> string) option" where
  "lex_exponent s =
     (case s of
        c # r \<Rightarrow>
          if c = CHR ''e'' \<or> c = CHR ''E''
          then (case r of
              d # r1 \<Rightarrow> if d = CHR ''+'' \<or> d = CHR ''-'' then prepend [c, d] (digits1 r1) else prepend [c] (digits1 r)
            | [] \<Rightarrow> None)
          else Some ([], s)
      | [] \<Rightarrow> Some ([], s))"

definition lex_number :: "string \<Rightarrow> (string \<times> string) option" where
  "lex_number s =
     (let (sign, s0) = (case s of c # r \<Rightarrow> if c = CHR ''-'' then ([c], r) else ([], s) | [] \<Rightarrow> ([], s)) in
      Option.bind (lex_integer s0) (\<lambda>(i, s1). Option.bind (lex_fraction s1) (\<lambda>(f, s2).
        map_option (\<lambda>(e, s3). (sign @ i @ f @ e, s3)) (lex_exponent s2))))"

lemma digits1_shorter: "digits1 s = Some (t, r) \<Longrightarrow> length r < length s"
  by (cases s) (auto simp: digits1_def split: if_splits intro: le_imp_less_Suc length_dropWhile_le)

lemma lex_number_shorter: "lex_number s = Some (t, r) \<Longrightarrow> length r < length s"
proof -
  assume a: "lex_number s = Some (t, r)"
  have i: "lex_integer s0 = Some (x, s1) \<Longrightarrow> length s1 < length s0" for s0 x s1
    by (auto simp: lex_integer_def split: list.splits if_splits dest: digits1_shorter)
  have f: "lex_fraction s0 = Some (x, s1) \<Longrightarrow> length s1 \<le> length s0" for s0 x s1
    by (auto simp: lex_fraction_def prepend_def split: list.splits if_splits dest: digits1_shorter)
  have e: "lex_exponent s0 = Some (x, s1) \<Longrightarrow> length s1 \<le> length s0" for s0 x s1
    by (auto simp: lex_exponent_def prepend_def split: list.splits if_splits dest!: digits1_shorter)
  obtain sign s0 where s0: "length s0 \<le> length s"
    "Option.bind (lex_integer s0) (\<lambda>(i, s1). Option.bind (lex_fraction s1) (\<lambda>(f, s2).
        map_option (\<lambda>(e, s3). (sign @ i @ f @ e, s3)) (lex_exponent s2))) = Some (t, r)"
  proof (cases "s \<noteq> [] \<and> hd s = CHR ''-''")
    case True
    with a that [of "tl s" "''-''"] show ?thesis by (cases s) (simp_all add: lex_number_def)
  next
    case False
    with a that [of s "[]"] show ?thesis by (cases s) (simp_all add: lex_number_def)
  qed
  then obtain x y z s1 s2 where "lex_integer s0 = Some (x, s1)" "lex_fraction s1 = Some (y, s2)" "lex_exponent s2 = Some (z, r)"
    by (auto simp: bind_eq_Some_conv)
  with s0(1) i f e show ?thesis by (meson le_trans less_le_trans order_le_less_trans)
qed

definition white :: "char \<Rightarrow> bool" where
  "white c \<longleftrightarrow> c = CHR '' '' \<or> octet c = 9 \<or> octet c = 13 \<or> octet c = 10"

text \<open>The token at the start of a text without leading white space.\<close>

definition next_token :: "string \<Rightarrow> (token \<times> string) option" where
  "next_token s =
     (case s of
        [] \<Rightarrow> None
      | c # r \<Rightarrow>
          if c = CHR ''{'' then Some (BraceOpen, r)
          else if c = CHR ''}'' then Some (BraceClose, r)
          else if c = CHR ''['' then Some (BracketOpen, r)
          else if c = CHR '']'' then Some (BracketClose, r)
          else if c = CHR '':'' then Some (Colon_tok, r)
          else if c = CHR '','' then Some (Comma_tok, r)
          else if c = quote_mark then map_option (\<lambda>(t, r1). (Tok_value (JString t), r1)) (lex_string r)
          else if take 4 s = ''null'' then Some (Tok_value JNull, drop 4 s)
          else if take 4 s = ''true'' then Some (Tok_value (JBool True), drop 4 s)
          else if take 5 s = ''false'' then Some (Tok_value (JBool False), drop 5 s)
          else map_option (\<lambda>(t, r1). (Tok_value (JNumber t), r1)) (lex_number s))"

lemma lex_string_shorter: "lex_string s = Some (t, r) \<Longrightarrow> length r < length s"
proof (induction s arbitrary: t r rule: lex_string.induct)
  case (2 c s)
  let ?k = "utf8_size (c # s)"
  have p: "prepend u m = Some (t, r) \<Longrightarrow> \<exists>t'. m = Some (t', r)" for u m by (auto simp: prepend_def)
  from "2.prems" consider "r = s" | u s1 t' where "unescape s = Some (u, s1)" "lex_string s1 = Some (t', r)" "c \<noteq> quote_mark" "c = backslash"
    | t' where "?k = 0" "lex_string s = Some (t', r)" "c \<noteq> quote_mark" "c \<noteq> backslash" "\<not> octet c < 0x20"
    | t' where "?k \<noteq> 0" "lex_string (drop (?k - 1) s) = Some (t', r)" "c \<noteq> quote_mark" "c \<noteq> backslash" "\<not> octet c < 0x20"
    by (auto simp: lex_string.simps(2) Let_def split: if_splits option.splits dest!: p)
  then show ?case
  proof cases
    case 2
    then show ?thesis
      using "2.IH"(1) [of ?k "(u, s1)" u s1] unescape_shorter [OF 2(1)] by (auto dest: less_trans)
  next
    case 3
    then show ?thesis using "2.IH"(2) [of ?k] by fastforce
  next
    case 4
    then show ?thesis using "2.IH"(3) [of ?k] by fastforce
  qed simp
qed (simp)

lemma next_token_shorter: "next_token s = Some (t, r) \<Longrightarrow> length r < length s"
  by (auto simp: next_token_def split: list.splits if_splits dest: lex_string_shorter lex_number_shorter)

function json_lex :: "string \<Rightarrow> token list option" where
  "json_lex [] = Some []"
| "json_lex (c # s) =
     (if white c then json_lex s
      else case next_token (c # s) of
        None \<Rightarrow> None
      | Some (t, r) \<Rightarrow> map_option (\<lambda>ts. t # ts) (json_lex r))"
  by pat_completeness auto
termination by (relation "measure length") (auto dest: next_token_shorter)

section \<open>Values\<close>

text \<open>The containers that are open, outermost last, with what they hold so far and, for an object, the
  name of the member at hand; and what may come next. Nesting deeper than \<open>maxNestingDepth\<close> is an error.\<close>

datatype frame = Elements "json list" | Members "(string \<times> json) list" string

datatype expects = Value | Value_or_close | Name | Name_or_close | Colon | After json

definition maxNestingDepth :: nat where
  "maxNestingDepth = 10000"

definition open_frame :: "expects \<Rightarrow> frame \<Rightarrow> frame list \<Rightarrow> (expects \<times> frame list) option" where
  "open_frame m f fs = (if length fs < maxNestingDepth then Some (m, f # fs) else None)"

fun step_value :: "frame list \<Rightarrow> token \<Rightarrow> (expects \<times> frame list) option" where
  "step_value fs (Tok_value v) = Some (After v, fs)"
| "step_value fs BraceOpen = open_frame Name_or_close (Members [] []) fs"
| "step_value fs BracketOpen = open_frame Value_or_close (Elements []) fs"
| "step_value fs _ = None"

fun step_name :: "frame list \<Rightarrow> token \<Rightarrow> (expects \<times> frame list) option" where
  "step_name (Members ms k # fs) (Tok_value (JString s)) = Some (Colon, Members ms s # fs)"
| "step_name _ _ = None"

fun step_after :: "json \<Rightarrow> frame list \<Rightarrow> token \<Rightarrow> (expects \<times> frame list) option" where
  "step_after v (Elements vs # fs) Comma_tok = Some (Value, Elements (vs @ [v]) # fs)"
| "step_after v (Elements vs # fs) BracketClose = Some (After (JArray (vs @ [v])), fs)"
| "step_after v (Members ms k # fs) Comma_tok = Some (Name, Members (ms @ [(k, v)]) k # fs)"
| "step_after v (Members ms k # fs) BraceClose = Some (After (JObject (ms @ [(k, v)])), fs)"
| "step_after v _ _ = None"

definition json_step :: "expects \<Rightarrow> frame list \<Rightarrow> token \<Rightarrow> (expects \<times> frame list) option" where
  "json_step m fs t =
     (case m of
        Value \<Rightarrow> step_value fs t
      | Value_or_close \<Rightarrow> if t = BracketClose then Some (After (JArray []), tl fs) else step_value fs t
      | Name \<Rightarrow> step_name fs t
      | Name_or_close \<Rightarrow> if t = BraceClose then Some (After (JObject []), tl fs) else step_name fs t
      | Colon \<Rightarrow> if t = Colon_tok then Some (Value, fs) else None
      | After v \<Rightarrow> step_after v fs t)"

fun json_run :: "expects \<Rightarrow> frame list \<Rightarrow> token list \<Rightarrow> json option" where
  "json_run m fs [] = (case (m, fs) of (After v, []) \<Rightarrow> Some v | _ \<Rightarrow> None)"
| "json_run m fs (t # ts) = (case json_step m fs t of None \<Rightarrow> None | Some (m1, fs1) \<Rightarrow> json_run m1 fs1 ts)"

definition json_parse :: "string \<Rightarrow> json option" where
  "json_parse s = Option.bind (json_lex s) (json_run Value [])"

text \<open>\<open>MarshalIndent\<close> with an empty prefix and two spaces; \<open>d\<close> is the depth.\<close>

fun join :: "'a list \<Rightarrow> 'a list list \<Rightarrow> 'a list" where
  "join sep [] = []"
| "join sep [x] = x"
| "join sep (x # y # xs) = x @ sep @ join sep (y # xs)"

definition newline :: "nat \<Rightarrow> string" where
  "newline d = CHR 0x0A # replicate (2 * d) (CHR '' '')"

fun json_print :: "nat \<Rightarrow> json \<Rightarrow> string" where
  "json_print d JNull = ''null''"
| "json_print d (JBool b) = (if b then ''true'' else ''false'')"
| "json_print d (JNumber s) = s"
| "json_print d (JString s) = quote_json s"
| "json_print d (JArray vs) =
     (if vs = [] then ''[]''
      else ''['' @ join '','' (map (\<lambda>v. newline (Suc d) @ json_print (Suc d) v) vs) @ newline d @ '']'')"
| "json_print d (JObject ms) =
     (if ms = [] then ''{}''
      else ''{'' @ join '','' (map (\<lambda>(k, v). newline (Suc d) @ quote_json k @ '': '' @ json_print (Suc d) v) ms)
        @ newline d @ ''}'')"

text \<open>\<open>Marshal\<close>: no white space.\<close>

fun json_compact :: "json \<Rightarrow> string" where
  "json_compact JNull = ''null''"
| "json_compact (JBool b) = (if b then ''true'' else ''false'')"
| "json_compact (JNumber s) = s"
| "json_compact (JString s) = quote_json s"
| "json_compact (JArray vs) = ''['' @ join '','' (map json_compact vs) @ '']''"
| "json_compact (JObject ms) = ''{'' @ join '','' (map (\<lambda>(k, v). quote_json k @ '':'' @ json_compact v) ms) @ ''}''"

section \<open>Reading what was printed\<close>

fun toks :: "json \<Rightarrow> token list" where
  "toks (JArray vs) = BracketOpen # join [Comma_tok] (map toks vs) @ [BracketClose]"
| "toks (JObject ms) =
     BraceOpen # join [Comma_tok] (map (\<lambda>(k, v). Tok_value (JString k) # Colon_tok # toks v) ms) @ [BraceClose]"
| "toks v = [Tok_value v]"

text \<open>What is printed is read back if its strings are UTF-8, and it has no numbers, which the program never
  prints.\<close>

fun utf8_json :: "json \<Rightarrow> bool" where
  "utf8_json (JString s) = valid_utf8 s"
| "utf8_json (JArray vs) = (\<forall>v\<in>set vs. utf8_json v)"
| "utf8_json (JObject ms) = (\<forall>(k, v)\<in>set ms. valid_utf8 k \<and> utf8_json v)"
| "utf8_json _ = True"

fun no_numbers :: "json \<Rightarrow> bool" where
  "no_numbers (JNumber s) = False"
| "no_numbers (JArray vs) = (\<forall>v\<in>set vs. no_numbers v)"
| "no_numbers (JObject ms) = (\<forall>(k, v)\<in>set ms. no_numbers v)"
| "no_numbers _ = True"

fun nested :: "nat \<Rightarrow> json \<Rightarrow> bool" where
  "nested n (JArray vs) = (n \<noteq> 0 \<and> (\<forall>v\<in>set vs. nested (n - 1) v))"
| "nested n (JObject ms) = (n \<noteq> 0 \<and> (\<forall>(k, v)\<in>set ms. nested (n - 1) v))"
| "nested n _ = True"

definition lexes :: "string \<Rightarrow> token list \<Rightarrow> bool" where
  "lexes s ts \<longleftrightarrow> (\<forall>r. json_lex (s @ r) = map_option (\<lambda>us. ts @ us) (json_lex r))"

lemma lexes_append: "lexes s ts \<Longrightarrow> lexes s' ts' \<Longrightarrow> lexes (s @ s') (ts @ ts')"
  by (auto simp: lexes_def option.map_comp comp_def)

lemma lexes_Cons: "lexes [c] [t] \<Longrightarrow> lexes s ts \<Longrightarrow> lexes (c # s) (t # ts)"
  using lexes_append [of "[c]" "[t]" s ts] by simp

lemma lexes_token: "next_token (s @ r) = Some (t, r) \<Longrightarrow> s \<noteq> [] \<Longrightarrow> \<not> white (hd s) \<Longrightarrow>
    json_lex (s @ r) = map_option (\<lambda>us. t # us) (json_lex r)"
  by (cases s) auto

lemma lexes_tokenI: "(\<And>r. next_token (s @ r) = Some (t, r)) \<Longrightarrow> s \<noteq> [] \<Longrightarrow> \<not> white (hd s) \<Longrightarrow> lexes s [t]"
  by (simp add: lexes_def lexes_token)

lemma lexes_marks: "lexes ''{'' [BraceOpen]" "lexes ''}'' [BraceClose]" "lexes ''['' [BracketOpen]"
  "lexes '']'' [BracketClose]" "lexes '':'' [Colon_tok]" "lexes '','' [Comma_tok]"
  by (rule lexes_tokenI; simp add: next_token_def white_def)+

lemma lexes_words: "lexes ''null'' [Tok_value JNull]" "lexes ''true'' [Tok_value (JBool True)]"
  "lexes ''false'' [Tok_value (JBool False)]"
  by (rule lexes_tokenI; simp add: next_token_def white_def quote_mark_def)+

lemma lexes_quote: "valid_utf8 s \<Longrightarrow> lexes (quote_json s) [Tok_value (JString s)]"
proof (rule lexes_tokenI)
  fix r assume "valid_utf8 s"
  from lex_quoted [OF this, of r] show "next_token (quote_json s @ r) = Some (Tok_value (JString s), r)"
    by (simp add: next_token_def quote_json_def) (simp add: quote_mark_def)
qed (simp_all add: quote_json_def white_def quote_mark_def)

lemma lexes_space: "lexes ('' '' ) []" "lexes (newline d) []"
proof -
  have "json_lex (replicate n (CHR '' '') @ r) = json_lex r" for n r by (induction n) (simp_all add: white_def)
  then show "lexes (newline d) []" by (simp add: lexes_def newline_def white_def option.map_id0 option.map_ident)
qed (simp add: lexes_def white_def option.map_ident)

lemma lexes_join: "list_all2 lexes xs ts \<Longrightarrow> lexes (join '','' xs) (join [Comma_tok] ts)"
proof (induction xs arbitrary: ts rule: induct_list012)
  case (3 x y xs)
  from "3.prems" obtain t u us where ts: "ts = t # u # us" "lexes x t" "list_all2 lexes (y # xs) (u # us)"
    by (auto simp: list_all2_Cons1)
  from lexes_append [OF ts(2) lexes_Cons [OF lexes_marks(6) "3.IH"(2) [OF ts(3)]]] show ?case by (simp add: ts(1))
qed (auto simp: list_all2_Cons1 lexes_def option.map_ident)

lemma lexes_print: "utf8_json j \<Longrightarrow> no_numbers j \<Longrightarrow> lexes (json_print d j) (toks j)"
proof (induction j arbitrary: d)
  case (JArray vs)
  have "list_all2 lexes (map (\<lambda>v. newline (Suc d) @ json_print (Suc d) v) vs) (map toks vs)"
    using JArray lexes_append [OF lexes_space(2)] by (fastforce simp: list_all2_conv_all_nth)
  from lexes_append [OF lexes_join [OF this] lexes_append [OF lexes_space(2) [of d] lexes_marks(4)]]
  show ?case using lexes_Cons [OF lexes_marks(3)] lexes_append [OF lexes_marks(3,4)] by auto
next
  case (JObject ms)
  have "lexes (newline (Suc d) @ quote_json k @ '': '' @ json_print (Suc d) v) (Tok_value (JString k) # Colon_tok # toks v)"
    if "(k, v) \<in> set ms" for k v
  proof -
    have "lexes (json_print (Suc d) v) (toks v)" "valid_utf8 k" using JObject that by fastforce+
    from lexes_append [OF lexes_space(2) lexes_append [OF lexes_quote [OF this(2)] lexes_append [OF lexes_marks(5)
      lexes_append [OF lexes_space(1) this(1)]]]]
    show ?thesis by simp
  qed
  then have "list_all2 lexes (map (\<lambda>(k, v). newline (Suc d) @ quote_json k @ '': '' @ json_print (Suc d) v) ms)
      (map (\<lambda>(k, v). Tok_value (JString k) # Colon_tok # toks v) ms)"
    by (auto simp: list_all2_conv_all_nth split: prod.split) (metis nth_mem)
  from lexes_append [OF lexes_join [OF this] lexes_append [OF lexes_space(2) [of d] lexes_marks(2)]]
  show ?case using lexes_Cons [OF lexes_marks(1)] lexes_append [OF lexes_marks(1,2)] by auto
qed (use lexes_words lexes_quote in auto)

lemma lexes_compact: "utf8_json j \<Longrightarrow> no_numbers j \<Longrightarrow> lexes (json_compact j) (toks j)"
proof (induction j)
  case (JArray vs)
  have "list_all2 lexes (map json_compact vs) (map toks vs)"
    using JArray by (fastforce simp: list_all2_conv_all_nth)
  from lexes_Cons [OF lexes_marks(3) lexes_append [OF lexes_join [OF this] lexes_marks(4)]] show ?case by simp
next
  case (JObject ms)
  have "lexes (quote_json k @ '':'' @ json_compact v) (Tok_value (JString k) # Colon_tok # toks v)" if "(k, v) \<in> set ms" for k v
  proof -
    have "lexes (json_compact v) (toks v)" "valid_utf8 k" using JObject that by fastforce+
    from lexes_append [OF lexes_quote [OF this(2)] lexes_append [OF lexes_marks(5) this(1)]] show ?thesis by simp
  qed
  then have "list_all2 lexes (map (\<lambda>(k, v). quote_json k @ '':'' @ json_compact v) ms)
      (map (\<lambda>(k, v). Tok_value (JString k) # Colon_tok # toks v) ms)"
    by (auto simp: list_all2_conv_all_nth split: prod.split) (metis nth_mem)
  from lexes_Cons [OF lexes_marks(1) lexes_append [OF lexes_join [OF this] lexes_marks(2)]] show ?case by simp
qed (use lexes_words lexes_quote in auto)

text \<open>The scanner, on the tokens of a value.\<close>

definition runs :: "nat \<Rightarrow> json \<Rightarrow> bool" where
  "runs n v \<longleftrightarrow> (\<forall>fs ts. length fs + n \<le> maxNestingDepth \<longrightarrow>
     json_run Value fs (toks v @ ts) = json_run (After v) fs ts)"

lemma runsD: "runs n v \<Longrightarrow> length fs + n \<le> maxNestingDepth \<Longrightarrow>
    json_run Value fs (toks v @ ts) = json_run (After v) fs ts"
  by (simp add: runs_def)

lemma first_token: "json_run Value_or_close fs (toks v @ ts) = json_run Value fs (toks v @ ts)"
  by (cases v) (simp_all add: json_step_def)

lemma runs_elements:
  assumes "vs \<noteq> []" "\<And>v. v \<in> set vs \<Longrightarrow> runs n v" "Suc (length fs) + n \<le> maxNestingDepth"
  shows "json_run Value (Elements us # fs) (join [Comma_tok] (map toks vs) @ BracketClose # ts) =
    json_run (After (JArray (us @ vs))) fs ts"
  using assms(1,2)
proof (induction vs arbitrary: us rule: induct_list012)
  case (2 v)
  then show ?case using assms(3) by (simp add: runs_def json_step_def)
next
  case (3 v w vs)
  have "json_run Value (Elements us # fs) (join [Comma_tok] (map toks (v # w # vs)) @ BracketClose # ts) =
    json_run Value (Elements (us @ [v]) # fs) (join [Comma_tok] (map toks (w # vs)) @ BracketClose # ts)"
    using "3.prems"(2) [of v] assms(3) by (simp add: runs_def json_step_def)
  also have "\<dots> = json_run (After (JArray ((us @ [v]) @ w # vs))) fs ts"
    by (rule "3.IH"(2)) (use "3.prems" in auto)
  finally show ?case by simp
qed simp

abbreviation member_toks :: "string \<times> json \<Rightarrow> token list" where
  "member_toks \<equiv> \<lambda>(k, v). Tok_value (JString k) # Colon_tok # toks v"

lemma runs_members:
  assumes "ms \<noteq> []" "\<And>k v. (k, v) \<in> set ms \<Longrightarrow> runs n v" "Suc (length fs) + n \<le> maxNestingDepth"
  shows "json_run Name (Members us k0 # fs) (join [Comma_tok] (map member_toks ms) @ BraceClose # ts) =
    json_run (After (JObject (us @ ms))) fs ts"
  using assms(1,2)
proof (induction ms arbitrary: us k0 rule: induct_list012)
  case (2 m)
  then show ?case using assms(3) by (cases m) (simp add: runs_def json_step_def)
next
  case (3 m m' ms)
  obtain k v where m: "m = (k, v)" by (cases m)
  have "json_run Name (Members us k0 # fs) (join [Comma_tok] (map member_toks (m # m' # ms)) @ BraceClose # ts) =
    json_run Name (Members (us @ [m]) k # fs) (join [Comma_tok] (map member_toks (m' # ms)) @ BraceClose # ts)"
    using "3.prems"(2) [of k v] assms(3) by (simp add: m runs_def json_step_def)
  also have "\<dots> = json_run (After (JObject ((us @ [m]) @ m' # ms))) fs ts"
    by (rule "3.IH"(2)) (use "3.prems" in auto)
  finally show ?case by simp
qed simp

lemma first_name: "ms \<noteq> [] \<Longrightarrow> json_run Name_or_close fs (join [Comma_tok] (map member_toks ms) @ ts) =
    json_run Name fs (join [Comma_tok] (map member_toks ms) @ ts)"
  by (cases ms; cases "tl ms") (auto simp: json_step_def split: prod.splits)

lemma runs_toks: "nested n v \<Longrightarrow> n \<le> maxNestingDepth \<Longrightarrow> no_numbers v \<Longrightarrow> runs n v"
proof (induction v arbitrary: n)
  case (JArray vs)
  then obtain m where n: "n = Suc m" by (cases n) auto
  have r: "runs m v" if "v \<in> set vs" for v using JArray that n by auto
  have "json_run Value fs (toks (JArray vs) @ ts) = json_run (After (JArray vs)) fs ts" if "length fs + n \<le> maxNestingDepth" for fs ts
  proof (cases vs)
    case Nil
    with that n show ?thesis by (simp add: json_step_def open_frame_def)
  next
    case (Cons v us)
    then have "json_run Value_or_close (Elements [] # fs) (join [Comma_tok] (map toks vs) @ BracketClose # ts) =
      json_run Value (Elements [] # fs) (join [Comma_tok] (map toks vs) @ BracketClose # ts)"
      using first_token [of _ v] by (cases us) simp_all
    with runs_elements [of vs m fs "[]" ts] Cons r that n show ?thesis by (simp add: json_step_def open_frame_def)
  qed
  then show ?case by (simp add: runs_def)
next
  case (JObject ms)
  then obtain m where n: "n = Suc m" by (cases n) auto
  have r: "runs m v" if "(k, v) \<in> set ms" for k v using JObject that n by fastforce
  have "json_run Value fs (toks (JObject ms) @ ts) = json_run (After (JObject ms)) fs ts" if "length fs + n \<le> maxNestingDepth" for fs ts
  proof (cases "ms = []")
    case True
    with that n show ?thesis by (simp add: json_step_def open_frame_def)
  next
    case False
    with runs_members [of ms m fs "[]" "[]" ts] first_name [OF False, of "Members [] [] # fs" "BraceClose # ts"] r that n
    show ?thesis by (simp add: json_step_def open_frame_def)
  qed
  then show ?case by (simp add: runs_def)
qed (auto simp: runs_def json_step_def)

lemma lexed_parse:
  assumes "lexes s (toks v)" "no_numbers v" "nested maxNestingDepth v"
  shows "json_parse s = Some v"
proof -
  have "json_lex (s @ []) = Some (toks v)"
    using assms(1) unfolding lexes_def by (simp only: spec [where x = "[]"]) simp
  moreover have "json_run Value [] (toks v @ []) = Some v"
    using runsD [OF runs_toks [OF assms(3) order_refl assms(2)], of "[]" "[]"] by simp
  ultimately show ?thesis by (simp add: json_parse_def)
qed

lemma json_round_trip:
  assumes "utf8_json v" "no_numbers v" "nested maxNestingDepth v"
  shows "json_parse (json_print d v) = Some v" "json_parse (json_compact v) = Some v"
  using assms lexed_parse lexes_print lexes_compact by blast+

section \<open>What is read is UTF-8\<close>

lemma hex4_bound: "hex4 s = Some (u, r) \<Longrightarrow> u < 0x10000"
proof -
  have h: "hex_value c = Some n \<Longrightarrow> n < 16" for c n by (auto simp: hex_value_def Let_def split: if_splits)
  show "hex4 s = Some (u, r) \<Longrightarrow> u < 0x10000"
    by (cases s rule: hex4.cases) (auto split: option.splits dest!: h)
qed

lemma valid_unescape:
  assumes "unescape s = Some (t, r)"
  shows "valid_utf8 t"
proof -
  have "valid_utf8 (fst (unescape_rune u s1))" if "hex4 s0 = Some (u, s1)" for u s0 s1
    using hex4_bound [OF that]
    by (auto simp: unescape_rune_def valid_replacement intro!: valid_encode_rune split: option.splits)
  then have u: "valid_utf8 t" if "hex4 s0 = Some (u, s1)" "unescape_rune u s1 = (t, r)" for s0 u s1
    using that by fastforce
  from assms show ?thesis
    by (cases s) (auto simp: quote_mark_def backslash_def utf8_size_ascii split: if_splits intro: u)
qed

lemma valid_lex_string: "lex_string s = Some (t, r) \<Longrightarrow> valid_utf8 t"
proof (induction s arbitrary: t r rule: lex_string.induct)
  case (2 c s)
  let ?k = "utf8_size (c # s)"
  have p: "\<exists>t'. m = Some (t', r) \<and> t = u @ t'" if "prepend u m = Some (t, r)" for u m
    using that by (auto simp: prepend_def)
  from "2.prems" consider "t = []"
    | u s1 t' where "unescape s = Some (u, s1)" "lex_string s1 = Some (t', r)" "c \<noteq> quote_mark" "c = backslash" "t = u @ t'"
    | t' where "?k = 0" "lex_string s = Some (t', r)" "c \<noteq> quote_mark" "c \<noteq> backslash" "\<not> octet c < 0x20" "t = replacement @ t'"
    | t' where "?k \<noteq> 0" "lex_string (drop (?k - 1) s) = Some (t', r)" "c \<noteq> quote_mark" "c \<noteq> backslash" "\<not> octet c < 0x20"
        "t = take ?k (c # s) @ t'"
    by (auto simp: lex_string.simps(2) Let_def split: if_splits option.splits dest!: p)
  then show ?case
  proof cases
    case 2
    then show ?thesis
      using "2.IH"(1) [of ?k "(u, s1)" u s1] valid_unescape [OF 2(1)] by (auto intro: valid_append)
  next
    case 3
    then show ?thesis using "2.IH"(2) [of ?k] valid_replacement by (auto intro: valid_append)
  next
    case 4
    then show ?thesis using "2.IH"(3) [of ?k] valid_take [of "c # s"] by (auto intro!: valid_append)
  qed simp
qed simp

text \<open>Every value a token or a frame holds.\<close>

fun utf8_token :: "token \<Rightarrow> bool" where
  "utf8_token (Tok_value v) = utf8_json v"
| "utf8_token _ = True"

fun utf8_frame :: "frame \<Rightarrow> bool" where
  "utf8_frame (Elements vs) = (\<forall>v\<in>set vs. utf8_json v)"
| "utf8_frame (Members ms k) = (valid_utf8 k \<and> (\<forall>(k, v)\<in>set ms. valid_utf8 k \<and> utf8_json v))"

fun utf8_expects :: "expects \<Rightarrow> bool" where
  "utf8_expects (After v) = utf8_json v"
| "utf8_expects _ = True"

lemma utf8_next_token: "next_token s = Some (t, r) \<Longrightarrow> utf8_token t"
  by (auto simp: next_token_def split: list.splits if_splits dest: valid_lex_string)

lemma utf8_lex: "json_lex s = Some ts \<Longrightarrow> \<forall>t\<in>set ts. utf8_token t"
proof (induction s arbitrary: ts rule: json_lex.induct)
  case (2 c s)
  then show ?case by (auto split: if_splits option.splits dest: utf8_next_token)
qed simp

lemma utf8_step_value: "step_value fs t = Some (m, fs1) \<Longrightarrow> utf8_token t \<Longrightarrow> \<forall>f\<in>set fs. utf8_frame f \<Longrightarrow>
    utf8_expects m \<and> (\<forall>f\<in>set fs1. utf8_frame f)"
  by (induction fs t rule: step_value.induct) (auto simp: open_frame_def split: if_splits)

lemma utf8_step_name: "step_name fs t = Some (m, fs1) \<Longrightarrow> utf8_token t \<Longrightarrow> \<forall>f\<in>set fs. utf8_frame f \<Longrightarrow>
    utf8_expects m \<and> (\<forall>f\<in>set fs1. utf8_frame f)"
  by (induction fs t rule: step_name.induct) auto

lemma utf8_step_after: "step_after v fs t = Some (m, fs1) \<Longrightarrow> utf8_json v \<Longrightarrow> \<forall>f\<in>set fs. utf8_frame f \<Longrightarrow>
    utf8_expects m \<and> (\<forall>f\<in>set fs1. utf8_frame f)"
  by (induction v fs t rule: step_after.induct) auto

lemma in_set_tl: "x \<in> set (tl xs) \<Longrightarrow> x \<in> set xs"
  by (cases xs) auto

lemma utf8_step:
  assumes "json_step m fs t = Some (m1, fs1)" "utf8_token t" "utf8_expects m" "\<forall>f\<in>set fs. utf8_frame f"
  shows "utf8_expects m1 \<and> (\<forall>f\<in>set fs1. utf8_frame f)"
proof -
  have r: "\<forall>f\<in>set (tl fs). utf8_frame f" using assms(4) by (auto dest: in_set_tl)
  have v: "step_value fs t = Some (m1, fs1) \<Longrightarrow> ?thesis" and n: "step_name fs t = Some (m1, fs1) \<Longrightarrow> ?thesis"
    and a: "utf8_json x \<Longrightarrow> step_after x fs t = Some (m1, fs1) \<Longrightarrow> ?thesis" for x
    using utf8_step_value utf8_step_name utf8_step_after assms(2,4) by blast+
  show ?thesis
    using assms(1,3,4) r v n a by (cases m) (auto simp: json_step_def split: if_splits)
qed

lemma utf8_run: "json_run m fs ts = Some v \<Longrightarrow> \<forall>t\<in>set ts. utf8_token t \<Longrightarrow> utf8_expects m \<Longrightarrow> \<forall>f\<in>set fs. utf8_frame f \<Longrightarrow>
    utf8_json v"
proof (induction ts arbitrary: m fs)
  case Nil
  then show ?case by (cases m; cases fs) simp_all
next
  case (Cons t ts)
  from Cons.prems(1) obtain m1 fs1 where s: "json_step m fs t = Some (m1, fs1)" "json_run m1 fs1 ts = Some v"
    by (auto split: option.splits)
  from utf8_step [OF s(1)] Cons.prems have "utf8_expects m1" "\<forall>f\<in>set fs1. utf8_frame f" by simp_all
  with Cons.IH [OF s(2)] Cons.prems(2) show ?case by simp
qed

lemma utf8_parse: "json_parse s = Some v \<Longrightarrow> utf8_json v"
proof -
  assume "json_parse s = Some v"
  then obtain ts where ts: "json_lex s = Some ts" "json_run Value [] ts = Some v"
    by (auto simp: json_parse_def bind_eq_Some_conv)
  show "utf8_json v" by (rule utf8_run [OF ts(2) utf8_lex [OF ts(1)]]) simp_all
qed

section \<open>Storing into Go values\<close>

definition ascii_lower :: "char \<Rightarrow> char" where
  "ascii_lower c = (if CHR ''A'' \<le> c \<and> c \<le> CHR ''Z'' then char_of (of_char c + 32 :: nat) else c)"

text \<open>\<open>encoding/json\<close> matches a member to a field up to case folding; beside the ASCII letters the
  Kelvin sign folds to \<open>k\<close> and the long s to \<open>s\<close> (in UTF-8, \<open>E2 84 AA\<close> and \<open>C5 BF\<close>).\<close>

fun fold_name :: "string \<Rightarrow> string" where
  "fold_name [] = []"
| "fold_name (c # s) =
     (if c = CHR 0xE2 \<and> take 2 s = [CHR 0x84, CHR 0xAA] then CHR ''k'' # fold_name (drop 2 s)
      else if c = CHR 0xC5 \<and> take 1 s = [CHR 0xBF] then CHR ''s'' # fold_name (drop 1 s)
      else ascii_lower c # fold_name s)"

text \<open>A string member is stored, a null leaves the field alone, and any other value is an error.\<close>

definition store_string :: "json \<Rightarrow> string \<Rightarrow> string option" where
  "store_string j old = (case j of JString s \<Rightarrow> Some s | JNull \<Rightarrow> Some old | _ \<Rightarrow> None)"

end
