(* ===== verification/Wire.thy ===== *)
theory Wire
  imports Stores Json
begin

text \<open>
  The text of a merge patch: what \<open>json.Marshal\<close> makes of the maps that \<open>SecretStore.Patch\<close> and
  \<open>ConfigMapStore.Patch\<close> build, with \<open>encoding/base64\<close> for octets, and what an API server reads from it.
  \<open>Stores\<close> works with the documents; here they are shown to be what is sent.
\<close>

section \<open>Base64\<close>

text \<open>The standard alphabet, and the padded encoding of three octets at a time.\<close>

definition base64_char :: "nat \<Rightarrow> char" where
  "base64_char n =
     (if n < 26 then char_of (65 + n)
      else if n < 52 then char_of (71 + n)
      else if n < 62 then char_of (n - 4)
      else if n = 62 then CHR ''+'' else CHR ''/'')"

fun base64 :: "bytes \<Rightarrow> string" where
  "base64 [] = []"
| "base64 [a] = [base64_char (octet a div 4), base64_char (octet a mod 4 * 16), CHR ''='', CHR ''='']"
| "base64 [a, b] =
     [base64_char (octet a div 4), base64_char (octet a mod 4 * 16 + octet b div 16),
      base64_char (octet b mod 16 * 4), CHR ''='']"
| "base64 (a # b # c # r) =
     base64_char (octet a div 4) # base64_char (octet a mod 4 * 16 + octet b div 16) #
     base64_char (octet b mod 16 * 4 + octet c div 64) # base64_char (octet c mod 64) # base64 r"

definition base64_value :: "char \<Rightarrow> nat option" where
  "base64_value c =
     (let n = octet c in
      if 65 \<le> n \<and> n \<le> 90 then Some (n - 65)
      else if 97 \<le> n \<and> n \<le> 122 then Some (n - 71)
      else if 48 \<le> n \<and> n \<le> 57 then Some (n + 4)
      else if c = CHR ''+'' then Some 62
      else if c = CHR ''/'' then Some 63
      else None)"

definition quad :: "nat \<Rightarrow> nat \<Rightarrow> nat \<Rightarrow> nat \<Rightarrow> bytes" where
  "quad i j k l = [char_of (i * 4 + j div 16), char_of (j mod 16 * 16 + k div 4), char_of (k mod 4 * 64 + l)]"

fun unbase64 :: "string \<Rightarrow> bytes option" where
  "unbase64 [] = Some []"
| "unbase64 (p # q # r # s # t) =
     (case (base64_value p, base64_value q) of
        (Some i, Some j) \<Rightarrow>
          if r = CHR ''='' \<and> s = CHR ''='' \<and> t = [] then Some (take 1 (quad i j 0 0))
          else (case base64_value r of
              None \<Rightarrow> None
            | Some k \<Rightarrow>
                if s = CHR ''='' \<and> t = [] then Some (take 2 (quad i j k 0))
                else (case base64_value s of
                    None \<Rightarrow> None
                  | Some l \<Rightarrow> map_option (\<lambda>u. quad i j k l @ u) (unbase64 t)))
      | _ \<Rightarrow> None)"
| "unbase64 _ = None"

lemma base64_value_char:
  assumes "n < 64"
  shows "base64_value (base64_char n) = Some n"
proof -
  consider "n < 26" | "26 \<le> n" "n < 52" | "52 \<le> n" "n < 62" | "n = 62" | "n = 63" using assms by linarith
  then show ?thesis by cases (auto simp: base64_value_def base64_char_def Let_def)
qed

lemma base64_char_not_pad: "n < 64 \<Longrightarrow> base64_char n \<noteq> CHR ''=''"
  using base64_value_char [of n] by (auto simp: base64_value_def)

text \<open>The octets come back from their six-bit groups.\<close>

lemma quad_groups:
  fixes a b c :: nat
  assumes "b < 256" "c < 256"
  shows "quad (a div 4) (a mod 4 * 16 + b div 16) (b mod 16 * 4 + c div 64) (c mod 64) = [char_of a, char_of b, char_of c]"
proof -
  have "b div 16 < 16" "c div 64 < 4" using assms by (simp_all add: less_mult_imp_div_less)
  then have "(a mod 4 * 16 + b div 16) div 16 = a mod 4" "(a mod 4 * 16 + b div 16) mod 16 = b div 16"
    "(b mod 16 * 4 + c div 64) div 4 = b mod 16" "(b mod 16 * 4 + c div 64) mod 4 = c div 64"
    by simp_all
  then show ?thesis by (simp only: quad_def div_mult_mod_eq)
qed

lemma group_bounds: "octet a div 4 < 64" "octet a mod 4 * 16 + octet b div 16 < 64" "octet b mod 16 * 4 + octet c div 64 < 64"
  "octet c mod 64 < 64" "octet a mod 4 * 16 < 64" "octet b mod 16 * 4 < 64"
proof -
  have "octet a div 4 < 64" "octet b div 16 < 16" "octet c div 64 < 4"
    by (rule less_mult_imp_div_less, simp)+
  moreover have "octet a mod 4 < 4" "octet b mod 16 < 16" by simp_all
  ultimately show "octet a div 4 < 64" "octet a mod 4 * 16 + octet b div 16 < 64" "octet b mod 16 * 4 + octet c div 64 < 64"
    "octet a mod 4 * 16 < 64" "octet b mod 16 * 4 < 64" by linarith+
qed simp

lemma base64_round_trip: "unbase64 (base64 b) = Some b"
proof (induction b rule: base64.induct)
  case (2 a)
  show ?case
    using quad_groups [of 0 0 "octet a"]
    by (simp add: base64_value_char base64_char_not_pad group_bounds)
next
  case (3 a b)
  show ?case
    using quad_groups [of "octet b" 0 "octet a"]
    by (simp add: base64_value_char base64_char_not_pad group_bounds)
next
  case (4 a b c r)
  then show ?case
    using quad_groups [of "octet b" "octet c" "octet a"]
    by (simp add: base64_value_char base64_char_not_pad group_bounds)
qed simp

lemma base64_valid: "valid_utf8 (base64 b)"
proof (rule ascii_valid)
  have "octet (base64_char n) < 0x80" if "n < 64" for n using that by (auto simp: base64_char_def)
  then show "list_all (\<lambda>c. octet c < 0x80) (base64 b)"
    using group_bounds by (induction b rule: base64.induct) (simp_all del: One_nat_def)
qed

section \<open>The text of a patch\<close>

definition leaf_json :: "leaf option \<Rightarrow> json" where
  "leaf_json l = (case l of None \<Rightarrow> JNull | Some (Text s) \<Rightarrow> JString s | Some (Base64 b) \<Rightarrow> JString (base64 b))"

text \<open>\<open>json.Marshal\<close> prints the entries of a map in the order of their keys.\<close>

definition map_json :: "('v \<Rightarrow> json) \<Rightarrow> (string, 'v) fmap \<Rightarrow> json" where
  "map_json f m = JObject (map (\<lambda>k. (k, f (the (fmlookup m k)))) (sorted_list_of_fset (fmdom m)))"

definition Marshal_patch :: "patch \<Rightarrow> string" where
  "Marshal_patch p = json_compact (map_json (map_json leaf_json) p)"

text \<open>The server's side: the strings of each section are text or base64, by the type of the object's field.\<close>

type_synonym field_kinds = "string \<Rightarrow> string \<Rightarrow> leaf option"

definition secret_fields :: field_kinds where
  "secret_fields name s = (if name = ''data'' then map_option Base64 (unbase64 s) else None)"

definition configmap_fields :: field_kinds where
  "configmap_fields name s =
     (if name = ''data'' then Some (Text s)
      else if name = ''binaryData'' then map_option Base64 (unbase64 s)
      else None)"

definition read_leaf :: "(string \<Rightarrow> leaf option) \<Rightarrow> json \<Rightarrow> leaf option option" where
  "read_leaf field j = (case j of JNull \<Rightarrow> Some None | JString s \<Rightarrow> map_option Some (field s) | _ \<Rightarrow> None)"

fun read_members :: "(string \<Rightarrow> json \<Rightarrow> 'v option) \<Rightarrow> (string \<times> json) list \<Rightarrow> (string, 'v) fmap \<Rightarrow> (string, 'v) fmap option" where
  "read_members f [] m = Some m"
| "read_members f ((k, j) # ms) m = Option.bind (f k j) (\<lambda>v. read_members f ms (fmupd k v m))"

definition read_object :: "(string \<Rightarrow> json \<Rightarrow> 'v option) \<Rightarrow> json \<Rightarrow> (string, 'v) fmap option" where
  "read_object f j = (case j of JObject ms \<Rightarrow> read_members f ms fmempty | _ \<Rightarrow> None)"

definition read_patch :: "field_kinds \<Rightarrow> string \<Rightarrow> patch option" where
  "read_patch fk raw =
     Option.bind (json_parse raw) (read_object (\<lambda>name. read_object (\<lambda>_. read_leaf (fk name))))"

text \<open>Reading the printed entries of a map gives the map.\<close>

lemma read_members_map:
  assumes "\<And>k. k \<in> set ks \<Longrightarrow> f k (g k) = Some (h k)"
  shows "read_members f (map (\<lambda>k. (k, g k)) ks) m = Some (fold (\<lambda>k. fmupd k (h k)) ks m)"
  using assms by (induction ks arbitrary: m) simp_all

lemma fold_fmupd_self: "fold (\<lambda>k. fmupd k (the (fmlookup m k))) (sorted_list_of_fset (fmdom m)) fmempty = m"
  by (rule fmap_ext) (auto simp: fmlookup_fold_fmupd fmlookup_dom_iff)

lemma read_map_json:
  assumes "\<And>k v. fmlookup m k = Some v \<Longrightarrow> f k (g v) = Some v"
  shows "read_object f (map_json g m) = Some m"
proof -
  have "f k (g (the (fmlookup m k))) = Some (the (fmlookup m k))" if "k \<in> set (sorted_list_of_fset (fmdom m))" for k
    using that assms by (auto simp: fmlookup_dom_iff)
  then have "read_members f (map (\<lambda>k. (k, g (the (fmlookup m k)))) (sorted_list_of_fset (fmdom m))) fmempty =
      Some (fold (\<lambda>k. fmupd k (the (fmlookup m k))) (sorted_list_of_fset (fmdom m)) fmempty)"
    by (rule read_members_map)
  then show ?thesis by (simp add: read_object_def map_json_def fold_fmupd_self)
qed

text \<open>What a leaf needs to be read back in a section.\<close>

definition leaf_fits :: "(string \<Rightarrow> leaf option) \<Rightarrow> leaf option \<Rightarrow> bool" where
  "leaf_fits field l \<longleftrightarrow>
     (case l of None \<Rightarrow> True
      | Some (Text s) \<Rightarrow> valid_utf8 s \<and> field s = l
      | Some (Base64 b) \<Rightarrow> field (base64 b) = l)"

lemma leaf_fits_json:
  assumes "leaf_fits field l"
  shows "read_leaf field (leaf_json l) = Some l" "utf8_json (leaf_json l)" "no_numbers (leaf_json l)" "nested n (leaf_json l)"
  using assms base64_valid by (auto simp: leaf_fits_def read_leaf_def leaf_json_def split: option.splits leaf.splits)

definition patch_fits :: "field_kinds \<Rightarrow> patch \<Rightarrow> bool" where
  "patch_fits fk p \<longleftrightarrow> (\<forall>name sec. fmlookup p name = Some sec \<longrightarrow> valid_utf8 name \<and>
     (\<forall>k l. fmlookup sec k = Some l \<longrightarrow> valid_utf8 k \<and> leaf_fits (fk name) l))"

lemma map_json_props:
  assumes "\<And>k v. fmlookup m k = Some v \<Longrightarrow> valid_utf8 k \<and> utf8_json (f v) \<and> no_numbers (f v) \<and> nested n (f v)"
  shows "utf8_json (map_json f m)" "no_numbers (map_json f m)" "nested (Suc n) (map_json f m)"
  using assms by (auto simp: map_json_def fmlookup_dom_iff)

lemma patch_text:
  assumes "patch_fits fk p"
  shows "read_patch fk (Marshal_patch p) = Some p"
proof -
  have l: "read_leaf (fk name) (leaf_json l) = Some l" "utf8_json (leaf_json l)" "no_numbers (leaf_json l)"
      "nested n (leaf_json l)" "valid_utf8 name" "valid_utf8 k"
    if "fmlookup p name = Some sec" "fmlookup sec k = Some l" for name sec k l n
    using that assms leaf_fits_json [of "fk name" l] by (auto simp: patch_fits_def)
  have s: "valid_utf8 name \<and> utf8_json (map_json leaf_json sec) \<and> no_numbers (map_json leaf_json sec) \<and>
      nested (Suc n) (map_json leaf_json sec)" if "fmlookup p name = Some sec" for name sec n
    using map_json_props [of sec leaf_json n] l that assms by (auto simp: patch_fits_def)
  have n: "maxNestingDepth = Suc (Suc 9998)" by (simp add: maxNestingDepth_def)
  note j = map_json_props [of p "map_json leaf_json" "Suc 9998", folded n, OF s]
  have "read_object (\<lambda>name. read_object (\<lambda>_. read_leaf (fk name))) (map_json (map_json leaf_json) p) = Some p"
    by (intro read_map_json) (simp add: l(1))
  then show ?thesis using json_round_trip(2) [OF j] by (simp add: read_patch_def Marshal_patch_def)
qed

section \<open>What the stores send\<close>

definition utf8_keys :: "(string, slice) fmap \<Rightarrow> string list \<Rightarrow> bool" where
  "utf8_keys puts del \<longleftrightarrow> (\<forall>k\<in>touched puts del. valid_utf8 k)"

lemma fold_null_lookup: "fmlookup (fold (\<lambda>k. fmupd k None) ks m) k = (if k \<in> set ks then Some None else fmlookup m k)"
  by (induction ks arbitrary: m) auto

lemma section_names: "valid_utf8 ''data''" "valid_utf8 ''binaryData''"
  by (rule ascii_valid; simp)+

lemma secret_body_fits: "utf8_keys puts del \<Longrightarrow> patch_fits secret_fields (secret_body puts del)"
  by (auto simp: patch_fits_def secret_body_def utf8_keys_def touched_def fmdom'I fold_null_lookup leaf_fits_def secret_fields_def
      base64_round_trip section_names simp del: valid_utf8.simps split: if_splits option.splits leaf.splits)

lemma configmap_body_fits: "utf8_keys puts del \<Longrightarrow> patch_fits configmap_fields (configmap_body puts del)"
  by (auto simp: patch_fits_def configmap_body_def utf8_keys_def touched_def fmdom'I fold_null_lookup leaf_fits_def
      configmap_fields_def text_leaf_def binary_leaf_def base64_round_trip section_names
      simp del: valid_utf8.simps split: if_splits option.splits leaf.splits)

text \<open>C11: what is sent is what was meant: the text that \<open>json.Marshal\<close> makes of a patch, its base64 and its
  escapes included, is read by the server as exactly the document that was built; and a server that
  merges what it reads leaves the contents that \<open>Snapshot.With\<close> computes, for a Secret and for a
  ConfigMap.\<close>

theorem patch_text_refines_With:
  assumes "utf8_keys puts del" and "allocated puts"
  shows "read_patch secret_fields (Marshal_patch (secret_body puts del)) = Some (secret_body puts del) \<and>
    read_patch configmap_fields (Marshal_patch (configmap_body puts del)) = Some (configmap_body puts del) \<and>
    (\<forall>sec sec' p. read_patch secret_fields (Marshal_patch (secret_body puts del)) = Some p \<longrightarrow>
       secret_doc sec' = merge_doc p (secret_doc sec) \<longrightarrow> sec_Data sec' = with_data (sec_Data sec) puts del) \<and>
    (\<forall>cm cm' p. read_patch configmap_fields (Marshal_patch (configmap_body puts del)) = Some p \<longrightarrow>
       configmap_valid cm \<longrightarrow> configmap_doc cm' = merge_doc p (configmap_doc cm) \<longrightarrow>
       configmap_contents cm' = with_data (configmap_contents cm) puts del)"
  using patch_text [OF secret_body_fits [OF assms(1)]] patch_text [OF configmap_body_fits [OF assms(1)]]
    secret_store.patch_contents [OF TrueI assms(2)] configmap_store.patch_contents [OF _ assms(2)]
  by simp

theorem patch_text_refines_With_witness:
  "read_patch configmap_fields (Marshal_patch (configmap_body (fmupd ''k'' (Some [CHR 0xFF, CHR 0x00]) fmempty) [''old'']))
     = Some (configmap_body (fmupd ''k'' (Some [CHR 0xFF, CHR 0x00]) fmempty) [''old''])"
proof -
  have "valid_utf8 ''k''" "valid_utf8 ''old''" by (rule ascii_valid; simp)+
  then have "utf8_keys (fmupd ''k'' (Some [CHR 0xFF, CHR 0x00]) fmempty) [''old'']"
    by (simp add: utf8_keys_def touched_def del: valid_utf8.simps)
  from patch_text_refines_With [OF this] show ?thesis by simp
qed

text \<open>The text itself.\<close>

lemma demo_patch_text:
  "Marshal_patch (secret_body (fmupd ''k'' (Some ''hi!'') fmempty) []) =
     ''{'' @ quote_json ''data'' @ '':{'' @ quote_json ''k'' @ '':'' @ quote_json ''aGkh'' @ ''}}''"
proof -
  have "base64 ''hi!'' = ''aGkh''" by code_simp
  then show ?thesis
    by (simp add: Marshal_patch_def secret_body_def map_json_def leaf_json_def sorted_list_of_fset.rep_eq)
qed

end
