(* ===== verification/Strconv.thy ===== *)
theory Strconv
  imports Prelude
begin

text \<open>
  What the code uses of Go's \<open>strconv\<close>: \<open>ParseUint\<close> in bases up to ten, \<open>Atoi\<close>, and the decimal
  printing of \<open>fmt\<close>'s \<open>%d\<close>. A parse error is \<open>None\<close>.
\<close>

definition digit_value :: "nat \<Rightarrow> char \<Rightarrow> nat option" where
  "digit_value base c =
     (let n = of_char c :: nat in
      if 48 \<le> n \<and> n \<le> 57 \<and> n - 48 < base then Some (n - 48) else None)"

fun parse_digits :: "nat \<Rightarrow> nat \<Rightarrow> string \<Rightarrow> nat option" where
  "parse_digits base acc [] = Some acc"
| "parse_digits base acc (c # cs) =
     (case digit_value base c of None \<Rightarrow> None | Some d \<Rightarrow> parse_digits base (acc * base + d) cs)"

text \<open>An empty string is an error, and so is a value that does not fit.\<close>

definition ParseUint :: "string \<Rightarrow> nat \<Rightarrow> nat \<Rightarrow> nat option" where
  "ParseUint s base bits =
     (if s = [] then None
      else case parse_digits base 0 s of None \<Rightarrow> None | Some n \<Rightarrow> if n < 2 ^ bits then Some n else None)"

text \<open>An optional sign, then decimal digits; the result fits a 64-bit \<open>int\<close>.\<close>

definition Atoi :: "string \<Rightarrow> int option" where
  "Atoi s =
     (let neg = (s \<noteq> [] \<and> hd s = CHR ''-'');
          ds = (if s \<noteq> [] \<and> (hd s = CHR ''-'' \<or> hd s = CHR ''+'') then tl s else s)
      in if ds = [] then None
         else case parse_digits 10 0 ds of None \<Rightarrow> None
           | Some n \<Rightarrow> let v = (if neg then - int n else int n)
                       in if - (2 ^ 63) \<le> v \<and> v < 2 ^ 63 then Some v else None)"

fun decimal :: "nat \<Rightarrow> string" where
  "decimal n = (if n < 10 then [char_of (48 + n)] else decimal (n div 10) @ [char_of (48 + n mod 10)])"

declare decimal.simps [simp del]

lemma ParseUint_bound: "ParseUint s base bits = Some n \<Longrightarrow> n < 2 ^ bits"
  by (auto simp: ParseUint_def split: if_splits option.splits)

lemma Atoi_bound: "Atoi s = Some v \<Longrightarrow> - (2 ^ 63) \<le> v \<and> v < 2 ^ 63"
  by (auto simp: Atoi_def Let_def split: if_splits option.splits)

section \<open>Printing and parsing\<close>

lemma digit_value_digit: "d < 10 \<Longrightarrow> digit_value 10 (char_of (48 + d)) = Some d"
  by (simp add: digit_value_def Let_def)

lemma parse_digits_append:
  "parse_digits base acc (xs @ ys) =
     (case parse_digits base acc xs of None \<Rightarrow> None | Some n \<Rightarrow> parse_digits base n ys)"
  by (induction xs arbitrary: acc) (auto split: option.splits)

lemma decimal_nonempty: "decimal n \<noteq> []"
  by (subst decimal.simps) simp

lemma parse_decimal: "parse_digits 10 0 (decimal n) = Some n"
proof (induction n rule: decimal.induct)
  case (1 n)
  show ?case
  proof (cases "n < 10")
    case True
    then show ?thesis by (subst decimal.simps) (simp add: digit_value_digit)
  next
    case False
    with "1.IH" have "parse_digits 10 0 (decimal (n div 10)) = Some (n div 10)" by simp
    with False show ?thesis
      by (subst decimal.simps) (simp add: parse_digits_append digit_value_digit)
  qed
qed

lemma ParseUint_decimal: "n < 2 ^ bits \<Longrightarrow> ParseUint (decimal n) 10 bits = Some n"
  by (simp add: ParseUint_def decimal_nonempty parse_decimal)

lemma decimal_inject: "decimal m = decimal n \<longleftrightarrow> m = n"
  by (metis option.inject parse_decimal)

lemma decimal_chars: "c \<in> set (decimal n) \<Longrightarrow> 48 \<le> (of_char c :: nat) \<and> (of_char c :: nat) \<le> 57"
proof (induction n rule: decimal.induct)
  case (1 n)
  have d: "48 \<le> (of_char (char_of (48 + k) :: char) :: nat) \<and> (of_char (char_of (48 + k) :: char) :: nat) \<le> 57"
    if "k < 10" for k :: nat
    using that by simp
  show ?case
  proof (cases "n < 10")
    case True
    with "1.prems" show ?thesis using d [of n] by (subst (asm) decimal.simps) auto
  next
    case False
    have "n mod 10 < 10" by simp
    with False "1.prems" "1.IH" show ?thesis
      using d [of "n mod 10"] by (subst (asm) decimal.simps) auto
  qed
qed

end
