(* ===== verification/RefServer.thy ===== *)
theory RefServer
  imports Stores Strconv
begin

text \<open>
  One concrete instance of the parameters, used by the witnesses only: a single-threaded API server
  with one Secret, one ConfigMap and one Lease, a clock that moves with each sleep, a script of
  watch turns, and a context that is cancelled after a number of sleeps. It behaves as the API
  documents: a missing object is \<open>NotFound\<close>, creating an existing one is \<open>AlreadyExists\<close>, an update
  with an old resource version is a \<open>Conflict\<close>, and every write gets a new version.
\<close>

record world =
  w_clock :: time
  w_secret :: "secret option"
  w_configmap :: "configmap option"
  w_lease :: "lease option"
  w_version :: nat
  w_turns :: "watch_turn list"
  w_sleeps :: "nat option"
  w_slept :: "duration list"
  w_denied :: bool

definition world0 :: world where
  "world0 = \<lparr>w_clock = 1000, w_secret = None, w_configmap = None, w_lease = None, w_version = 7,
     w_turns = [], w_sleeps = None, w_slept = [], w_denied = False\<rparr>"

fun leaf_bytes :: "leaf \<Rightarrow> bytes" where
  "leaf_bytes (Text b) = b"
| "leaf_bytes (Base64 b) = b"

definition patched :: "patch \<Rightarrow> string \<Rightarrow> (bytes \<Rightarrow> leaf) \<Rightarrow> data \<Rightarrow> data" where
  "patched body sec mk d =
     (case fmlookup body sec of None \<Rightarrow> d
      | Some p \<Rightarrow> fmmap leaf_bytes (merge_section p (fmmap mk d)))"

definition bump :: "world \<Rightarrow> world" where
  "bump w = w\<lparr>w_version := Suc (w_version w)\<rparr>"

definition found :: "world \<Rightarrow> 'a option \<Rightarrow> 'a result" where
  "found w x = (if w_denied w then Inl Forbidden else case x of None \<Rightarrow> Inl NotFound | Some v \<Rightarrow> Inr v)"

text \<open>A patch is accepted if the object it leads to is well-formed and is the merged document.\<close>

definition secret_after :: "patch \<Rightarrow> world \<Rightarrow> secret \<Rightarrow> secret" where
  "secret_after body w s =
     \<lparr>sec_Data = patched body ''data'' Base64 (sec_Data s), sec_rv = decimal (w_version w)\<rparr>"

definition ref_patch_secret :: "patch \<Rightarrow> world \<Rightarrow> unit result \<times> world" where
  "ref_patch_secret body w =
     (case found w (w_secret w) of
        Inl e \<Rightarrow> (Inl e, w)
      | Inr s \<Rightarrow>
          if secret_doc (secret_after body w s) = merge_doc body (secret_doc s)
          then (Inr (), bump (w\<lparr>w_secret := Some (secret_after body w s)\<rparr>))
          else (Inl (OtherErr ''invalid''), w))"

definition configmap_after :: "patch \<Rightarrow> world \<Rightarrow> configmap \<Rightarrow> configmap" where
  "configmap_after body w c =
     \<lparr>cm_Data = patched body ''data'' Text (cm_Data c),
      cm_BinaryData = patched body ''binaryData'' Base64 (cm_BinaryData c), cm_rv = decimal (w_version w)\<rparr>"

definition ref_patch_configmap :: "patch \<Rightarrow> world \<Rightarrow> unit result \<times> world" where
  "ref_patch_configmap body w =
     (case found w (w_configmap w) of
        Inl e \<Rightarrow> (Inl e, w)
      | Inr c \<Rightarrow>
          if configmap_valid (configmap_after body w c) \<and>
             configmap_doc (configmap_after body w c) = merge_doc body (configmap_doc c)
          then (Inr (), bump (w\<lparr>w_configmap := Some (configmap_after body w c)\<rparr>))
          else (Inl (OtherErr ''invalid''), w))"

definition store_lease :: "lease \<Rightarrow> world \<Rightarrow> unit result \<times> world" where
  "store_lease l w = (Inr (), bump (w\<lparr>w_lease := Some (l\<lparr>lease_rv := decimal (w_version w)\<rparr>)\<rparr>))"

definition ref_create_lease :: "lease \<Rightarrow> world \<Rightarrow> unit result \<times> world" where
  "ref_create_lease l w =
     (if w_denied w then (Inl Forbidden, w)
      else if w_lease w \<noteq> None then (Inl AlreadyExists, w) else store_lease l w)"

definition ref_update_lease :: "lease \<Rightarrow> world \<Rightarrow> unit result \<times> world" where
  "ref_update_lease l w =
     (case found w (w_lease w) of
        Inl e \<Rightarrow> (Inl e, w)
      | Inr cur \<Rightarrow> if lease_rv cur \<noteq> lease_rv l then (Inl Conflict, w) else store_lease l w)"

definition ref_timer :: "duration \<Rightarrow> world \<Rightarrow> bool \<times> world" where
  "ref_timer d w =
     (case w_sleeps w of
        Some 0 \<Rightarrow> (False, w)
      | Some (Suc n) \<Rightarrow> (True, w\<lparr>w_sleeps := Some n, w_clock := w_clock w + d, w_slept := w_slept w @ [d]\<rparr>)
      | None \<Rightarrow> (True, w\<lparr>w_clock := w_clock w + d, w_slept := w_slept w @ [d]\<rparr>))"

definition ref_watch_next :: "world \<Rightarrow> watch_turn \<times> world" where
  "ref_watch_next w =
     (case w_turns w of [] \<Rightarrow> (CtxDone, w) | t # ts \<Rightarrow> (t, w\<lparr>w_turns := ts\<rparr>))"

definition ref_kube :: "world kube" where
  "ref_kube =
     \<lparr>api_now = w_clock,
      ctx_err = (\<lambda>w. w_sleeps w = Some 0),
      timer_or_done = ref_timer,
      get_secret = (\<lambda>ns name w. (found w (w_secret w), w)),
      patch_secret = (\<lambda>ns name. ref_patch_secret),
      watch_secret = (\<lambda>ns name rv w. (if w_denied w then Inl Forbidden else Inr (), w)),
      get_configmap = (\<lambda>ns name w. (found w (w_configmap w), w)),
      patch_configmap = (\<lambda>ns name. ref_patch_configmap),
      watch_configmap = (\<lambda>ns name rv w. (if w_denied w then Inl Forbidden else Inr (), w)),
      watch_next = ref_watch_next,
      get_lease = (\<lambda>ns name w. (found w (w_lease w), w)),
      create_lease = (\<lambda>ns name. ref_create_lease),
      update_lease = (\<lambda>ns name. ref_update_lease)\<rparr>"

lemma ref_kube_sel [simp]:
  "api_now ref_kube = w_clock"
  "ctx_err ref_kube = (\<lambda>w. w_sleeps w = Some 0)"
  "timer_or_done ref_kube = ref_timer"
  "get_secret ref_kube = (\<lambda>ns name w. (found w (w_secret w), w))"
  "patch_secret ref_kube = (\<lambda>ns name. ref_patch_secret)"
  "watch_secret ref_kube = (\<lambda>ns name rv w. (if w_denied w then Inl Forbidden else Inr (), w))"
  "get_configmap ref_kube = (\<lambda>ns name w. (found w (w_configmap w), w))"
  "patch_configmap ref_kube = (\<lambda>ns name. ref_patch_configmap)"
  "watch_configmap ref_kube = (\<lambda>ns name rv w. (if w_denied w then Inl Forbidden else Inr (), w))"
  "watch_next ref_kube = ref_watch_next"
  "get_lease ref_kube = (\<lambda>ns name w. (found w (w_lease w), w))"
  "create_lease ref_kube = (\<lambda>ns name. ref_create_lease)"
  "update_lease ref_kube = (\<lambda>ns name. ref_update_lease)"
  by (simp_all add: ref_kube_def)

text \<open>The server's definitions, for evaluating a witness.\<close>

lemmas ref_defs = found_def ref_patch_secret_def ref_patch_configmap_def store_lease_def
  ref_create_lease_def ref_update_lease_def ref_timer_def ref_watch_next_def bump_def world0_def
  patched_def

end
