(* ===== verification/Caches.thy ===== *)
theory Caches
  imports Stores Strconv RefServer
begin

text \<open>
  \<open>pkg/objectfs/cache.go\<close>: the current snapshot of one mounted object, fed by a watch, with the
  quorum read \<open>Fresh\<close>, the read path \<open>MaybeFresh\<close> and the reconnecting watch loop \<open>Run\<close>. The atomic
  pointer to an \<open>entry\<close> is the field \<open>c_cur\<close>; a nil pointer is \<open>None\<close>.
\<close>

definition DefaultStalenessBound :: duration where
  "DefaultStalenessBound = 30 * second"

record cache_entry =
  e_snap :: snapshot
  e_lastSync :: time

record cache =
  c_store :: store
  c_bound :: duration
  c_cur :: "cache_entry option"

definition NewCache :: "store \<Rightarrow> duration \<Rightarrow> cache" where
  "NewCache st bound =
     \<lparr>c_store = st, c_bound = (if bound \<le> 0 then DefaultStalenessBound else bound), c_cur = None\<rparr>"

definition cache_Current :: "cache \<Rightarrow> snapshot option" where
  "cache_Current c = (case c_cur c of None \<Rightarrow> None | Some e \<Rightarrow> Some (e_snap e))"

definition cache_Set :: "cache \<Rightarrow> time \<Rightarrow> snapshot option \<Rightarrow> cache" where
  "cache_Set c now snap =
     (case snap of None \<Rightarrow> c | Some s \<Rightarrow> c\<lparr>c_cur := Some \<lparr>e_snap = s, e_lastSync = now\<rparr>\<rparr>)"

text \<open>The event is dropped when both resource versions are numbers and it is not newer.\<close>

definition stale_event :: "snapshot \<Rightarrow> snapshot \<Rightarrow> bool" where
  "stale_event cur s =
     (case (ParseUint (ResourceVersion cur) 10 64, ParseUint (ResourceVersion s) 10 64) of
        (Some curRV, Some newRV) \<Rightarrow> newRV \<le> curRV
      | _ \<Rightarrow> False)"

definition cache_setFromWatch :: "cache \<Rightarrow> time \<Rightarrow> snapshot option \<Rightarrow> cache" where
  "cache_setFromWatch c now snap =
     (case snap of None \<Rightarrow> c
      | Some s \<Rightarrow>
          (case c_cur c of
             Some cur \<Rightarrow> if stale_event (e_snap cur) s then c else cache_Set c now (Some s)
           | None \<Rightarrow> cache_Set c now (Some s)))"

definition cache_Fresh :: "'w kube \<Rightarrow> cache \<Rightarrow> 'w \<Rightarrow> snapshot result \<times> cache \<times> 'w" where
  "cache_Fresh K c w =
     (case store_Get K (c_store c) w of
        (Inl e, w1) \<Rightarrow> (Inl e, c, w1)
      | (Inr snap, w1) \<Rightarrow> (Inr snap, cache_Set c (api_now K w1) (Some snap), w1))"

definition cache_MaybeFresh :: "'w kube \<Rightarrow> cache \<Rightarrow> 'w \<Rightarrow> snapshot option \<times> cache \<times> 'w" where
  "cache_MaybeFresh K c w =
     (if (case c_cur c of None \<Rightarrow> False | Some e \<Rightarrow> api_now K w - e_lastSync e < c_bound c)
      then (cache_Current c, c, w)
      else case cache_Fresh K c w of
          (Inr snap, c1, w1) \<Rightarrow> (Some snap, c1, w1)
        | (Inl _, c1, w1) \<Rightarrow> (cache_Current c, c1, w1))"

section \<open>The watch loop\<close>

datatype watch_outcome = watchStopped | watchClosed | watchFailed

definition minHealthyWatchDuration :: duration where
  "minHealthyWatchDuration = 1 * second"

definition minBackoff :: duration where
  "minBackoff = 100 * millisecond"

definition maxBackoff :: duration where
  "maxBackoff = 5 * second"

definition sleepCtx :: "'w kube \<Rightarrow> duration \<Rightarrow> 'w \<Rightarrow> bool \<times> 'w" where
  "sleepCtx K d w = timer_or_done K d w"

text \<open>The body of the \<open>Added\<close>/\<open>Modified\<close> case: an object that does not decode is skipped.\<close>

definition watch_event :: "cache \<Rightarrow> time \<Rightarrow> object \<Rightarrow> cache" where
  "watch_event c now obj =
     (case store_Decode (c_store c) now obj of
        Inr snap \<Rightarrow> cache_setFromWatch c now (Some snap)
      | Inl _ \<Rightarrow> c)"

partial_function (option) watch_loop ::
  "'w kube \<Rightarrow> time \<Rightarrow> bool \<Rightarrow> cache \<Rightarrow> 'w \<Rightarrow> (watch_outcome \<times> bool \<times> cache \<times> 'w) option" where
  "watch_loop K start delivered c w =
     (case watch_next K w of
        (turn, w1) \<Rightarrow>
          (case turn of
             CtxDone \<Rightarrow> Some (watchStopped, False, c, w1)
           | ChanClosed \<Rightarrow>
               Some (watchClosed, delivered \<or> api_now K w1 - start \<ge> minHealthyWatchDuration, c, w1)
           | Event ty obj \<Rightarrow>
               (if ty = Added \<or> ty = Modified
                then watch_loop K start True (watch_event c (api_now K w1) obj) w1
                else if ty = Deleted \<or> ty = Error then Some (watchFailed, False, c, w1)
                else watch_loop K start delivered c w1)))"

definition watchOnce ::
  "'w kube \<Rightarrow> cache \<Rightarrow> string \<Rightarrow> 'w \<Rightarrow> (watch_outcome \<times> bool \<times> cache \<times> 'w) option" where
  "watchOnce K c sinceRV w =
     (case store_Watch K (c_store c) sinceRV w of
        (Inl e, w1) \<Rightarrow>
          Some (if ctx_err K w1 then watchStopped else watchFailed, False, c, w1)
      | (Inr _, w1) \<Rightarrow> watch_loop K (api_now K w1) False c w1)"

definition next_backoff :: "duration \<Rightarrow> duration" where
  "next_backoff b = min (b * 2) maxBackoff"

partial_function (option) run_loop :: "'w kube \<Rightarrow> duration \<Rightarrow> cache \<Rightarrow> 'w \<Rightarrow> (cache \<times> 'w) option" where
  "run_loop K backoff c w =
     (if ctx_err K w then Some (c, w)
      else case cache_Fresh K c w of
        (fresh, c1, w1) \<Rightarrow>
          (case fresh of
             Inl e \<Rightarrow>
               (case sleepCtx K backoff w1 of
                  (fired, w2) \<Rightarrow>
                    if \<not> fired then Some (c1, w2) else run_loop K (next_backoff backoff) c1 w2)
           | Inr snap \<Rightarrow>
               Option.bind (watchOnce K c1 (ResourceVersion snap) w1) (\<lambda>(outcome, healthy, c2, w2).
                 if outcome = watchStopped then Some (c2, w2)
                 else if outcome = watchClosed \<and> healthy then run_loop K minBackoff c2 w2
                 else case sleepCtx K backoff w2 of
                   (fired, w3) \<Rightarrow>
                     if \<not> fired then Some (c2, w3) else run_loop K (next_backoff backoff) c2 w3)))"

definition cache_Run :: "'w kube \<Rightarrow> cache \<Rightarrow> 'w \<Rightarrow> (cache \<times> 'w) option" where
  "cache_Run K c w = run_loop K minBackoff c w"

section \<open>Ordering of watch events\<close>

definition rv_num :: "snapshot \<Rightarrow> nat option" where
  "rv_num s = ParseUint (ResourceVersion s) 10 64"

lemma stale_event_iff:
  "stale_event cur s \<longleftrightarrow> (\<exists>m n. rv_num cur = Some m \<and> rv_num s = Some n \<and> n \<le> m)"
  by (auto simp: stale_event_def rv_num_def split: option.splits)

lemma cache_Set_cur [simp]:
  "c_cur (cache_Set c t (Some s)) = Some \<lparr>e_snap = s, e_lastSync = t\<rparr>"
  "c_store (cache_Set c t x) = c_store c" "c_bound (cache_Set c t x) = c_bound c"
  "cache_Current (cache_Set c t (Some s)) = Some s"
  by (simp_all add: cache_Set_def cache_Current_def split: option.splits)

text \<open>Installing a list of events, each with the time it was received.\<close>

definition install_events :: "(time \<times> snapshot) list \<Rightarrow> cache \<Rightarrow> cache" where
  "install_events evs c = fold (\<lambda>(t, s) c. cache_setFromWatch c t (Some s)) evs c"

lemma setFromWatch_newest:
  assumes "c_cur c = Some e" "rv_num (e_snap e) = Some m" "rv_num s = Some n"
  shows "\<exists>e'. c_cur (cache_setFromWatch c t (Some s)) = Some e' \<and>
    rv_num (e_snap e') = Some (max m n) \<and> e_snap e' \<in> {e_snap e, s}"
  using assms by (auto simp: cache_setFromWatch_def stale_event_iff max_def)

lemma install_events_newest:
  assumes "c_cur c = Some e" "rv_num (e_snap e) = Some m"
    and "\<And>t s. (t, s) \<in> set evs \<Longrightarrow> \<exists>n. rv_num s = Some n"
  shows "\<exists>e'. c_cur (install_events evs c) = Some e' \<and>
    rv_num (e_snap e') = Some (fold (\<lambda>(t, s). max (the (rv_num s))) evs m)"
  using assms
proof (induction evs arbitrary: c e m)
  case Nil
  then show ?case by (simp add: install_events_def)
next
  case (Cons ev evs)
  obtain t s where ev: "ev = (t, s)" by (cases ev)
  with Cons.prems(3) obtain n where n: "rv_num s = Some n" by fastforce
  obtain e' where e': "c_cur (cache_setFromWatch c t (Some s)) = Some e'"
    "rv_num (e_snap e') = Some (max m n)"
    using setFromWatch_newest [OF Cons.prems(1,2) n, of t] by blast
  have "\<exists>e''. c_cur (install_events evs (cache_setFromWatch c t (Some s))) = Some e'' \<and>
    rv_num (e_snap e'') = Some (fold (\<lambda>(t, s). max (the (rv_num s))) evs (max m n))"
    by (rule Cons.IH [OF e']) (use Cons.prems(3) in auto)
  with ev n show ?case by (simp add: install_events_def max.commute [of m n])
qed

lemma fold_max_Max: "finite A \<Longrightarrow> A \<noteq> {} \<Longrightarrow> fold (\<lambda>x. max (f x)) xs (Max A) = Max (A \<union> f ` set xs)"
  for f :: "'a \<Rightarrow> nat"
  by (induction xs arbitrary: A) (simp_all flip: Max_insert)

text \<open>Whatever the order in which numbered watch events arrive, and whatever quorum reads came
  before, the cache ends with the newest version among what it held and what arrived.\<close>

theorem watch_events_newest_wins:
  assumes "c_cur c = Some e" and "rv_num (e_snap e) = Some m"
    and "\<And>t s. (t, s) \<in> set evs \<Longrightarrow> rv_num s \<noteq> None"
  shows "\<exists>e'. c_cur (install_events evs c) = Some e' \<and>
    rv_num (e_snap e') = Some (Max (insert m ((\<lambda>(t, s). the (rv_num s)) ` set evs)))"
proof -
  have "\<exists>e'. c_cur (install_events evs c) = Some e' \<and>
    rv_num (e_snap e') = Some (fold (\<lambda>x. max (case x of (t, s) \<Rightarrow> the (rv_num s))) evs m)"
    using install_events_newest [OF assms(1,2), of evs] assms(3) by (fastforce simp: case_prod_unfold)
  then show ?thesis
    using fold_max_Max [of "{m}" "\<lambda>(t, s). the (rv_num s)" evs] by simp
qed

text \<open>After a local commit the cached snapshot carries no version, so the next watch event is
  installed whatever its version: an event from before the commit hides the committed content.\<close>

theorem event_replaces_local_commit:
  assumes "c = cache_Set c0 t (Some (snap_With base puts del))"
  shows "cache_Current (cache_setFromWatch c t' (Some ev)) = Some ev"
  using assms by (simp add: cache_setFromWatch_def stale_event_def ParseUint_def)

theorem watch_events_newest_wins_witness:
  "\<exists>e'. c_cur (install_events
      [(5, \<lparr>Data = fmempty, ResourceVersion = ''12'', FetchedAt = 5\<rparr>),
       (6, \<lparr>Data = fmempty, ResourceVersion = ''9'', FetchedAt = 6\<rparr>)]
      (cache_Set (NewCache (SecretStore ''ns'' ''obj'') 0) 1
        (Some \<lparr>Data = fmempty, ResourceVersion = ''10'', FetchedAt = 1\<rparr>))) = Some e' \<and>
    rv_num (e_snap e') = Some 12"
proof -
  have n: "ParseUint ''12'' 10 64 = Some 12" "ParseUint ''9'' 10 64 = Some 9"
    "ParseUint ''10'' 10 64 = Some 10"
    by (simp_all add: ParseUint_def digit_value_def)
  let ?evs = "[(5 :: time, \<lparr>Data = fmempty, ResourceVersion = ''12'', FetchedAt = 5\<rparr>),
       (6, \<lparr>Data = fmempty, ResourceVersion = ''9'', FetchedAt = 6\<rparr>)]"
  let ?snap = "\<lparr>Data = fmempty, ResourceVersion = ''10'', FetchedAt = 1\<rparr>"
  have 1: "c_cur (cache_Set (NewCache (SecretStore ''ns'' ''obj'') 0) 1 (Some ?snap)) =
    Some \<lparr>e_snap = ?snap, e_lastSync = 1\<rparr>" by simp
  have 2: "rv_num (e_snap \<lparr>e_snap = ?snap, e_lastSync = 1\<rparr>) = Some 10" by (simp add: rv_num_def n)
  have 3: "rv_num s \<noteq> None" if "(t, s) \<in> set ?evs" for t s
    using that by (auto simp: rv_num_def n)
  have 4: "Max (insert 10 ((\<lambda>(t, s). the (rv_num s)) ` set ?evs)) = 12"
    by (simp add: rv_num_def n)
  show ?thesis using watch_events_newest_wins [OF 1 2, of ?evs, OF 3] unfolding 4 .
qed

theorem event_replaces_local_commit_witness:
  "cache_Current (cache_setFromWatch
     (cache_Set (NewCache (SecretStore ''ns'' ''obj'') 0) 1 (Some (snap_With
       \<lparr>Data = fmempty, ResourceVersion = ''10'', FetchedAt = 1\<rparr> (fmupd ''k'' (Some ''new'') fmempty) [])))
     2 (Some \<lparr>Data = fmempty, ResourceVersion = ''9'', FetchedAt = 0\<rparr>))
   = Some \<lparr>Data = fmempty, ResourceVersion = ''9'', FetchedAt = 0\<rparr>"
  by (rule event_replaces_local_commit [OF refl])

section \<open>The read path\<close>

lemma cache_MaybeFresh_cached:
  assumes "c_cur c = Some e" and "api_now K w - e_lastSync e < c_bound c"
  shows "cache_MaybeFresh K c w = (Some (e_snap e), c, w)"
  using assms by (simp add: cache_MaybeFresh_def cache_Current_def)

lemma cache_MaybeFresh_read:
  assumes "\<forall>e. c_cur c = Some e \<longrightarrow> c_bound c \<le> api_now K w - e_lastSync e"
    and "store_Get K (c_store c) w = (Inr snap, w1)"
  shows "cache_MaybeFresh K c w = (Some snap, cache_Set c (api_now K w1) (Some snap), w1)"
  using assms by (auto simp: cache_MaybeFresh_def cache_Fresh_def split: option.splits)

lemma cache_MaybeFresh_failed:
  assumes "\<forall>e. c_cur c = Some e \<longrightarrow> c_bound c \<le> api_now K w - e_lastSync e"
    and "store_Get K (c_store c) w = (Inl err, w1)"
  shows "cache_MaybeFresh K c w = (cache_Current c, c, w1)"
  using assms by (auto simp: cache_MaybeFresh_def cache_Fresh_def split: option.splits)

text \<open>\<open>MaybeFresh\<close> on a populated cache always has a snapshot to serve. Within the staleness
  bound it is the cached one, without any call; past the bound it is the quorum read's result if the
  read succeeds, and the stale cached snapshot, unchanged, if it fails.\<close>

theorem MaybeFresh_populated:
  assumes "c_cur c = Some e"
  shows "cache_MaybeFresh K c w =
    (if api_now K w - e_lastSync e < c_bound c then (Some (e_snap e), c, w)
     else case store_Get K (c_store c) w of
       (Inr snap, w1) \<Rightarrow> (Some snap, cache_Set c (api_now K w1) (Some snap), w1)
     | (Inl _, w1) \<Rightarrow> (Some (e_snap e), c, w1))"
  using assms by (auto simp: cache_MaybeFresh_def cache_Fresh_def cache_Current_def
      split: sum.splits prod.splits)

theorem MaybeFresh_populated_witness:
  "fst (cache_MaybeFresh ref_kube
      (cache_Set (NewCache (SecretStore ''ns'' ''obj'') 0) 1
        (Some \<lparr>Data = fmempty, ResourceVersion = ''10'', FetchedAt = 1\<rparr>))
      (world0\<lparr>w_clock := 60000000000, w_denied := True\<rparr>))
    = Some \<lparr>Data = fmempty, ResourceVersion = ''10'', FetchedAt = 1\<rparr>"
  by (subst MaybeFresh_populated [OF cache_Set_cur(1)])
    (simp add: NewCache_def DefaultStalenessBound_def second_def secret_Get_def found_def)

section \<open>Reconnecting\<close>

lemma next_backoff_range:
  "minBackoff \<le> b \<Longrightarrow> b \<le> maxBackoff \<Longrightarrow> minBackoff \<le> next_backoff b \<and> next_backoff b \<le> maxBackoff"
  by (simp add: next_backoff_def minBackoff_def maxBackoff_def second_def millisecond_def)

text \<open>The wait before the reconnect after \<open>n\<close> unhealthy rounds in a row is \<open>2 ^ n\<close> times 100 ms,
  capped at 5 s.\<close>

theorem backoff_closed_form:
  "(next_backoff ^^ n) minBackoff = min (2 ^ n * minBackoff) maxBackoff"
proof (induction n)
  case 0
  then show ?case by (simp add: minBackoff_def maxBackoff_def second_def millisecond_def)
next
  case (Suc n)
  have pos: "0 \<le> maxBackoff" by (simp add: maxBackoff_def second_def)
  have "min (min x m * 2) m = min (2 * x) m" if "0 \<le> m" for x m :: int
    using that by linarith
  with Suc pos show ?case by (simp add: next_backoff_def mult.assoc)
qed

text \<open>A watch that delivers the listed events one after the other, ending in world \<open>w'\<close>.\<close>

fun delivers :: "'w kube \<Rightarrow> 'w \<Rightarrow> (event_type \<times> object \<times> 'w) list \<Rightarrow> 'w \<Rightarrow> bool" where
  "delivers K w [] w' = (w' = w)"
| "delivers K w ((ty, ob, w1) # es) w' =
     (watch_next K w = (Event ty ob, w1) \<and> delivers K w1 es w')"

definition counts :: "event_type \<Rightarrow> bool" where
  "counts ty \<longleftrightarrow> ty = Added \<or> ty = Modified"

definition apply_events :: "'w kube \<Rightarrow> (event_type \<times> object \<times> 'w) list \<Rightarrow> cache \<Rightarrow> cache" where
  "apply_events K es c =
     fold (\<lambda>(ty, ob, w1) c. if counts ty then watch_event c (api_now K w1) ob else c) es c"

lemma watch_loop_events:
  assumes "delivers K w es w1" "list_all (\<lambda>(ty, _). ty \<in> {Added, Modified, Bookmark}) es"
  shows "watch_loop K start d c w =
    watch_loop K start (d \<or> list_ex (\<lambda>(ty, _). counts ty) es) (apply_events K es c) w1"
  using assms
proof (induction es arbitrary: d c w)
  case Nil
  then show ?case by (simp add: apply_events_def)
next
  case (Cons e es)
  obtain ty ob w' where e: "e = (ty, ob, w')" by (cases e)
  show ?case
    using Cons e by (subst watch_loop.simps) (auto simp: counts_def apply_events_def)
qed

text \<open>A watch that delivers any number of additions, modifications and bookmarks and then
  closes: the loop returns, every decodable addition and modification has been offered to the cache
  in order, and the close counts as healthy exactly if one of them was delivered or the watch lasted
  a second.\<close>

theorem watch_loop_drains:
  assumes "delivers K w es w1"
    and "list_all (\<lambda>(ty, _). ty \<in> {Added, Modified, Bookmark}) es"
    and "watch_next K w1 = (ChanClosed, w2)"
  shows "watch_loop K start False c w =
    Some (watchClosed,
      list_ex (\<lambda>(ty, _). counts ty) es \<or> api_now K w2 - start \<ge> minHealthyWatchDuration,
      apply_events K es c, w2)"
  unfolding watch_loop_events [OF assms(1,2)]
  by (subst watch_loop.simps) (simp add: assms(3))

theorem watch_loop_drains_witness:
  "watch_loop ref_kube 0 False (NewCache (SecretStore ''ns'' ''obj'') 0)
     (world0\<lparr>w_turns := [Event Bookmark (OtherObj ''x''), ChanClosed]\<rparr>) =
   Some (watchClosed, False, NewCache (SecretStore ''ns'' ''obj'') 0, world0)"
proof -
  have d: "delivers ref_kube (world0\<lparr>w_turns := [Event Bookmark (OtherObj ''x''), ChanClosed]\<rparr>)
    [(Bookmark, OtherObj ''x'', world0\<lparr>w_turns := [ChanClosed]\<rparr>)] (world0\<lparr>w_turns := [ChanClosed]\<rparr>)"
    by (simp add: ref_watch_next_def world0_def)
  show ?thesis
    using watch_loop_drains [OF d, of world0 0 "NewCache (SecretStore ''ns'' ''obj'') 0"]
    by (simp add: ref_watch_next_def world0_def apply_events_def counts_def
        minHealthyWatchDuration_def second_def)
qed

text \<open>The context is cancelled after finitely many watch turns and timers: \<open>rank\<close> counts those still
  to come. The other calls do not add any.\<close>

definition finitely_many_turns :: "'w kube \<Rightarrow> store \<Rightarrow> ('w \<Rightarrow> nat) \<Rightarrow> bool" where
  "finitely_many_turns K st rank \<longleftrightarrow>
     (\<forall>w d. fst (timer_or_done K d w) \<longrightarrow> rank (snd (timer_or_done K d w)) < rank w) \<and>
     (\<forall>w d. rank (snd (timer_or_done K d w)) \<le> rank w) \<and>
     (\<forall>w. fst (watch_next K w) \<noteq> CtxDone \<longrightarrow> rank (snd (watch_next K w)) < rank w) \<and>
     (\<forall>w. rank (snd (watch_next K w)) \<le> rank w) \<and>
     (\<forall>w. rank (snd (store_Get K st w)) \<le> rank w) \<and>
     (\<forall>w rv. rank (snd (store_Watch K st rv w)) \<le> rank w)"

lemma watch_loop_returns:
  assumes fin: "finitely_many_turns K st rank"
  shows "\<exists>out healthy c' w'. watch_loop K start d c w = Some (out, healthy, c', w') \<and>
    rank w' \<le> rank w \<and> (out = watchClosed \<longrightarrow> rank w' < rank w) \<and> c_store c' = c_store c"
proof (induction "rank w" arbitrary: d c w rule: less_induct)
  case less
  obtain turn w1 where n: "watch_next K w = (turn, w1)" by (cases "watch_next K w")
  have le: "rank w1 \<le> rank w" and lt: "turn \<noteq> CtxDone \<Longrightarrow> rank w1 < rank w"
    using fin n unfolding finitely_many_turns_def by (metis fst_conv snd_conv)+
  have ev: "c_store (watch_event c t ob) = c_store c" for t ob
    by (simp add: watch_event_def cache_setFromWatch_def split: sum.splits option.splits)
  show ?case
  proof (cases turn)
    case CtxDone
    with n le show ?thesis by (subst watch_loop.simps) auto
  next
    case ChanClosed
    with n lt show ?thesis by (subst watch_loop.simps) auto
  next
    case (Event ty ob)
    have lt1: "rank w1 < rank w" using lt Event by simp
    note IH = less.hyps [OF lt1]
    show ?thesis
      using IH [of True "watch_event c (api_now K w1) ob"] IH [of d c] lt1 ev n Event
      by (subst watch_loop.simps) (fastforce)
  qed
qed

lemma watchOnce_returns:
  assumes fin: "finitely_many_turns K (c_store c) rank"
  shows "\<exists>out healthy c' w'. watchOnce K c rv w = Some (out, healthy, c', w') \<and>
    rank w' \<le> rank w \<and> (out = watchClosed \<longrightarrow> rank w' < rank w) \<and> c_store c' = c_store c"
proof -
  obtain res w1 where wt: "store_Watch K (c_store c) rv w = (res, w1)"
    by (cases "store_Watch K (c_store c) rv w")
  have le: "rank w1 \<le> rank w" using fin wt unfolding finitely_many_turns_def by (metis snd_conv)
  show ?thesis
  proof (cases res)
    case (Inl e)
    with wt le show ?thesis by (auto simp: watchOnce_def)
  next
    case (Inr u)
    from watch_loop_returns [OF fin, of "api_now K w1" False c w1]
    obtain out healthy c' w' where "watch_loop K (api_now K w1) False c w1 = Some (out, healthy, c', w')"
      "rank w' \<le> rank w1" "out = watchClosed \<longrightarrow> rank w' < rank w1" "c_store c' = c_store c"
      by blast
    with wt Inr le show ?thesis by (simp add: watchOnce_def) linarith
  qed
qed

lemma cache_Fresh_returns:
  assumes "finitely_many_turns K (c_store c) rank" and "cache_Fresh K c w = (r, c1, w1)"
  shows "rank w1 \<le> rank w \<and> c_store c1 = c_store c"
proof -
  have "rank (snd (store_Get K (c_store c) w)) \<le> rank w"
    using assms(1) by (simp add: finitely_many_turns_def)
  with assms(2) show ?thesis
    by (auto simp: cache_Fresh_def split: prod.splits sum.splits)
qed

lemma run_loop_returns:
  assumes "finitely_many_turns K (c_store c) rank"
  shows "\<exists>r. run_loop K b c w = Some r"
  using assms
proof (induction "rank w" arbitrary: b c w rule: less_induct)
  case less
  note fin = less.prems
  obtain fr c1 w1 where f: "cache_Fresh K c w = (fr, c1, w1)" by (cases "cache_Fresh K c w")
  have w1: "rank w1 \<le> rank w" "c_store c1 = c_store c"
    using cache_Fresh_returns [OF fin f] by auto
  have sleep: "\<exists>r. (case sleepCtx K b v of (fired, v2) \<Rightarrow>
      if \<not> fired then Some (d, v2) else run_loop K (next_backoff b) d v2) = Some r"
    if "rank v \<le> rank w" "c_store d = c_store c" for v d
  proof (cases "sleepCtx K b v")
    case (Pair fired v2)
    have "rank v2 < rank v" if fired
      using that Pair fin unfolding sleepCtx_def finitely_many_turns_def by (metis fst_conv snd_conv)
    with Pair that less.hyps [of v2 d "next_backoff b"] fin show ?thesis by auto
  qed
  show ?case
  proof (cases "ctx_err K w")
    case True
    then show ?thesis by (subst run_loop.simps) simp
  next
    case False
    show ?thesis
    proof (cases fr)
      case (Inl e)
      with f False sleep [OF w1] show ?thesis by (subst run_loop.simps) simp
    next
      case (Inr snap)
      have "finitely_many_turns K (c_store c1) rank" using fin w1(2) by simp
      from watchOnce_returns [OF this, of "ResourceVersion snap" w1]
      obtain out healthy c2 w2 where o: "watchOnce K c1 (ResourceVersion snap) w1 = Some (out, healthy, c2, w2)"
        "rank w2 \<le> rank w1" "out = watchClosed \<longrightarrow> rank w2 < rank w1" "c_store c2 = c_store c1"
        by blast
      have st: "rank w2 \<le> rank w" "c_store c2 = c_store c" using o w1 by simp_all
      have again: "\<exists>r. run_loop K minBackoff c2 w2 = Some r" if "out = watchClosed"
        using less.hyps [of w2 c2 minBackoff] that o w1 fin by simp
      show ?thesis
        using f False Inr o(1) sleep [OF st] again by (subst run_loop.simps) auto
    qed
  qed
qed

text \<open>C35: the watch loop stops: if the context is cancelled after finitely many watch turns and
  timers, \<open>Run\<close> returns, however the calls in between answer.\<close>

theorem Run_returns:
  assumes "finitely_many_turns K (c_store c) rank"
  shows "\<exists>r. cache_Run K c w = Some r"
  unfolding cache_Run_def by (rule run_loop_returns [OF assms])

text \<open>The witness stops the timer once no sleeps are left, so every world has finitely many turns.\<close>

definition stopping_timer :: "duration \<Rightarrow> world \<Rightarrow> bool \<times> world" where
  "stopping_timer d w = (if w_sleeps w = None then (False, w) else ref_timer d w)"

definition turns_left :: "world \<Rightarrow> nat" where
  "turns_left w = length (w_turns w) + (case w_sleeps w of None \<Rightarrow> 0 | Some n \<Rightarrow> n)"

lemma stopping_world:
  "finitely_many_turns (ref_kube\<lparr>timer_or_done := stopping_timer\<rparr>) (SecretStore ns name) turns_left"
  unfolding finitely_many_turns_def
  by (auto simp: stopping_timer_def ref_timer_def ref_watch_next_def turns_left_def secret_Get_def
      secret_Watch_def split: option.splits nat.splits list.splits sum.splits)

theorem Run_returns_witness:
  "\<exists>r. cache_Run (ref_kube\<lparr>timer_or_done := stopping_timer\<rparr>) (NewCache (SecretStore ''ns'' ''obj'') 0)
     (world0\<lparr>w_sleeps := Some 3\<rparr>) = Some r"
  by (rule Run_returns [where rank = turns_left]) (simp add: NewCache_def stopping_world)

end
