(* ===== verification/Leases.thy ===== *)
theory Leases
  imports Caches
begin

text \<open>
  \<open>pkg/objectfs/lease.go\<close>: one \<open>LeaseManager\<close> owns one Lease for one open handle. The mutable
  fields are the record \<open>manager\<close>; \<open>m_renewing\<close> says that a renewal loop runs (the code's \<open>cancel\<close>
  is set). The shared mutex \<open>local\<close> is an argument of \<open>TryAcquire\<close>: \<open>None\<close> when the pointer is nil,
  \<open>Some l\<close> when it is set and \<open>l\<close> says that another attempt of the volume holds it.
\<close>

definition DefaultLeaseDuration :: duration where
  "DefaultLeaseDuration = 15 * second"

record observation =
  o_holder :: string
  o_renewTime :: time
  o_at :: time
  o_valid :: bool

record manager =
  m_ns :: string
  m_name :: string
  m_holder :: string
  m_duration :: duration
  m_held :: bool
  m_healthy :: bool
  m_renewing :: bool
  m_obs :: observation

definition NewLeaseManager :: "string \<Rightarrow> string \<Rightarrow> string \<Rightarrow> duration \<Rightarrow> manager" where
  "NewLeaseManager ns name holder d =
     \<lparr>m_ns = ns, m_name = name, m_holder = holder,
      m_duration = (if d \<le> 0 then DefaultLeaseDuration else d),
      m_held = False, m_healthy = False, m_renewing = False,
      m_obs = \<lparr>o_holder = '''', o_renewTime = 0, o_at = 0, o_valid = False\<rparr>\<rparr>"

definition Healthy :: "manager \<Rightarrow> bool" where
  "Healthy m \<longleftrightarrow> m_held m \<and> m_healthy m"

section \<open>Who may claim the lease\<close>

definition lease_dur :: "manager \<Rightarrow> lease \<Rightarrow> duration" where
  "lease_dur m l = (case LeaseDurationSeconds l of None \<Rightarrow> m_duration m | Some s \<Rightarrow> s * second)"

definition claimable :: "manager \<Rightarrow> time \<Rightarrow> lease \<Rightarrow> bool \<times> manager" where
  "claimable m now l =
     (case HolderIdentity l of
        None \<Rightarrow> (True, m)
      | Some holder \<Rightarrow>
          if holder = '''' then (True, m)
          else if holder = m_holder m then (True, m)
          else (case RenewTime l of
              None \<Rightarrow> (True, m)
            | Some renewTime \<Rightarrow>
                if \<not> o_valid (m_obs m) \<or> o_holder (m_obs m) \<noteq> holder \<or> o_renewTime (m_obs m) \<noteq> renewTime
                then (False, m\<lparr>m_obs := \<lparr>o_holder = holder, o_renewTime = renewTime, o_at = now,
                  o_valid = True\<rparr>\<rparr>)
                else (now - o_at (m_obs m) > lease_dur m l, m)))"

section \<open>Acquiring\<close>

text \<open>\<open>int32(m.duration / time.Second)\<close>: Go's conversion keeps the low 32 bits.\<close>

definition duration_secs :: "manager \<Rightarrow> int" where
  "duration_secs m = wrap32 (m_duration m div second)"

text \<open>A \<open>metav1.MicroTime\<close> is written to the wire with six digits of fraction: the API server gets the time
  stamp without its nanoseconds.\<close>

definition MicroTime :: "time \<Rightarrow> time" where
  "MicroTime t = t div 1000 * 1000"

lemma MicroTime_le: "MicroTime t \<le> t" "t < MicroTime t + 1000"
  by (simp_all add: MicroTime_def)

lemma MicroTime_whole [simp]: "MicroTime 0 = 0" "MicroTime (n * second) = n * second"
proof -
  have "n * 1000000000 div 1000 * 1000 = n * (1000000000 :: int)" for n
    using nonzero_mult_div_cancel_right [of 1000 "n * 1000000"] by (simp add: mult.assoc)
  then show "MicroTime (n * second) = n * second" by (simp add: MicroTime_def second_def)
qed (simp add: MicroTime_def)

definition create_req :: "manager \<Rightarrow> time \<Rightarrow> lease" where
  "create_req m now =
     \<lparr>lease_rv = '''', HolderIdentity = Some (m_holder m), LeaseDurationSeconds = Some (duration_secs m),
      AcquireTime = Some (MicroTime now), RenewTime = Some (MicroTime now)\<rparr>"

definition lease_create :: "'w kube \<Rightarrow> manager \<Rightarrow> 'w \<Rightarrow> unit result \<times> 'w" where
  "lease_create K m w = create_lease K (m_ns m) (m_name m) (create_req m (api_now K w)) w"

text \<open>The update carries the resource version of the lease that was read.\<close>

definition takeOver_req :: "manager \<Rightarrow> time \<Rightarrow> lease \<Rightarrow> lease" where
  "takeOver_req m now cur =
     cur\<lparr>HolderIdentity := Some (m_holder m), LeaseDurationSeconds := Some (duration_secs m),
       AcquireTime := Some (MicroTime now), RenewTime := Some (MicroTime now)\<rparr>"

definition takeOver :: "'w kube \<Rightarrow> manager \<Rightarrow> lease \<Rightarrow> 'w \<Rightarrow> unit result \<times> 'w" where
  "takeOver K m cur w = update_lease K (m_ns m) (m_name m) (takeOver_req m (api_now K w) cur) w"

definition startRenewal :: "manager \<Rightarrow> manager" where
  "startRenewal m =
     (if m_held m then m else m\<lparr>m_held := True, m_healthy := True, m_renewing := True\<rparr>)"

definition TryAcquire ::
  "'w kube \<Rightarrow> bool option \<Rightarrow> manager \<Rightarrow> 'w \<Rightarrow> bool result \<times> manager \<times> 'w" where
  "TryAcquire K mu m w =
     (if m_held m then (Inr True, m, w)
      else if mu = Some True then (Inr False, m, w)
      else case get_lease K (m_ns m) (m_name m) w of
        (Inl err, w1) \<Rightarrow>
          if err = NotFound
          then (case lease_create K m w1 of
              (Inl err2, w2) \<Rightarrow>
                if err2 = AlreadyExists then (Inr False, m, w2) else (Inl err2, m, w2)
            | (Inr _, w2) \<Rightarrow> (Inr True, startRenewal m, w2))
          else (Inl err, m, w1)
      | (Inr cur, w1) \<Rightarrow>
          (case claimable m (api_now K w1) cur of
             (claim, m1) \<Rightarrow>
               if \<not> claim then (Inr False, m1, w1)
               else (case takeOver K m1 cur w1 of
                   (Inl err2, w2) \<Rightarrow>
                     if err2 = Conflict then (Inr False, m1, w2) else (Inl err2, m1, w2)
                 | (Inr _, w2) \<Rightarrow> (Inr True, startRenewal m1, w2))))"

partial_function (option) Acquire ::
  "'w kube \<Rightarrow> bool option \<Rightarrow> manager \<Rightarrow> 'w \<Rightarrow> (unit result \<times> manager \<times> 'w) option" where
  "Acquire K mu m w =
     (case TryAcquire K mu m w of
        (res, m1, w1) \<Rightarrow>
          (case res of
             Inl err \<Rightarrow> Some (Inl err, m1, w1)
           | Inr ok \<Rightarrow>
               if ok then Some (Inr (), m1, w1)
               else (case sleepCtx K (m_duration m div 3) w1 of
                   (fired, w2) \<Rightarrow>
                     if \<not> fired then Some (Inl CtxErr, m1, w2) else Acquire K mu m1 w2)))"

section \<open>Releasing and renewing\<close>

definition clear_holder :: "lease \<Rightarrow> lease" where
  "clear_holder cur = cur\<lparr>HolderIdentity := None, RenewTime := None\<rparr>"

definition lease_Release :: "'w kube \<Rightarrow> manager \<Rightarrow> 'w \<Rightarrow> unit result \<times> manager \<times> 'w" where
  "lease_Release K m w =
     (if \<not> m_held m then (Inr (), m, w)
      else let m1 = m\<lparr>m_held := False, m_healthy := False, m_renewing := False\<rparr> in
        case get_lease K (m_ns m) (m_name m) w of
          (Inl err, w1) \<Rightarrow> (if err = NotFound then Inr () else Inl err, m1, w1)
        | (Inr cur, w1) \<Rightarrow>
            if HolderIdentity cur \<noteq> Some (m_holder m) then (Inr (), m1, w1)
            else (case update_lease K (m_ns m) (m_name m) (clear_holder cur) w1 of
                (Inl err, w2) \<Rightarrow>
                  (if err = Conflict \<or> err = NotFound then Inr () else Inl err, m1, w2)
              | (Inr _, w2) \<Rightarrow> (Inr (), m1, w2)))"

definition renewOnce :: "'w kube \<Rightarrow> manager \<Rightarrow> 'w \<Rightarrow> unit result \<times> 'w" where
  "renewOnce K m w =
     (case get_lease K (m_ns m) (m_name m) w of
        (Inl err, w1) \<Rightarrow> (Inl err, w1)
      | (Inr cur, w1) \<Rightarrow>
          if HolderIdentity cur \<noteq> Some (m_holder m) then (Inl ErrLeaseLost, w1)
          else update_lease K (m_ns m) (m_name m) (cur\<lparr>RenewTime := Some (MicroTime (api_now K w1))\<rparr>) w1)"

definition renew_tick :: "'w kube \<Rightarrow> manager \<Rightarrow> 'w \<Rightarrow> manager \<times> 'w" where
  "renew_tick K m w =
     (case renewOnce K m w of (res, w1) \<Rightarrow> (m\<lparr>m_healthy := (res = Inr ())\<rparr>, w1))"

partial_function (option) renewLoop :: "'w kube \<Rightarrow> manager \<Rightarrow> 'w \<Rightarrow> (manager \<times> 'w) option" where
  "renewLoop K m w =
     (case sleepCtx K (m_duration m div 3) w of
        (fired, w1) \<Rightarrow>
          if \<not> fired then Some (m, w1)
          else (case renew_tick K m w1 of (m1, w2) \<Rightarrow> renewLoop K m1 w2))"

section \<open>The claim rule\<close>

text \<open>A lease that someone else holds and has stamped: only the clock can make it claimable.\<close>

definition foreign :: "manager \<Rightarrow> lease \<Rightarrow> bool" where
  "foreign m l \<longleftrightarrow> (\<exists>h r. HolderIdentity l = Some h \<and> h \<noteq> '''' \<and> h \<noteq> m_holder m \<and> RenewTime l = Some r)"

definition observed :: "manager \<Rightarrow> lease \<Rightarrow> bool" where
  "observed m l \<longleftrightarrow> o_valid (m_obs m) \<and> HolderIdentity l = Some (o_holder (m_obs m)) \<and>
     RenewTime l = Some (o_renewTime (m_obs m))"

lemma claimable_not_foreign: "\<not> foreign m l \<Longrightarrow> claimable m now l = (True, m)"
  by (auto simp: claimable_def foreign_def split: option.splits)

lemma claimable_foreign:
  assumes "foreign m l"
  shows "claimable m now l =
    (if observed m l then (now - o_at (m_obs m) > lease_dur m l, m)
     else (False, m\<lparr>m_obs := \<lparr>o_holder = the (HolderIdentity l), o_renewTime = the (RenewTime l),
       o_at = now, o_valid = True\<rparr>\<rparr>))"
  using assms by (auto simp: claimable_def foreign_def observed_def)

lemma claimable_fields [simp]:
  "m_holder (snd (claimable m now l)) = m_holder m" "m_held (snd (claimable m now l)) = m_held m"
  "m_duration (snd (claimable m now l)) = m_duration m" "m_ns (snd (claimable m now l)) = m_ns m"
  "m_name (snd (claimable m now l)) = m_name m" "m_healthy (snd (claimable m now l)) = m_healthy m"
  by (auto simp: claimable_def split: option.splits)

text \<open>A manager's history: the leases it has read, each at the time of its own clock.\<close>

definition sightings :: "(time \<times> lease) list \<Rightarrow> manager \<Rightarrow> manager" where
  "sightings xs m = fold (\<lambda>(t, l) m. snd (claimable m t l)) xs m"

definition same_record :: "lease \<Rightarrow> lease \<Rightarrow> bool" where
  "same_record l l' \<longleftrightarrow> HolderIdentity l = HolderIdentity l' \<and> RenewTime l = RenewTime l'"

lemma sightings_holder [simp]: "m_holder (sightings xs m) = m_holder m"
  by (induction xs arbitrary: m) (auto simp: sightings_def)

lemma sightings_duration [simp]: "m_duration (sightings xs m) = m_duration m"
  by (induction xs arbitrary: m) (auto simp: sightings_def)

lemma foreign_sightings [simp]: "foreign (sightings xs m) l = foreign m l"
  by (simp add: foreign_def)

lemma lease_dur_sightings [simp]: "lease_dur (sightings xs m) l = lease_dur m l"
  by (simp add: lease_dur_def split: option.splits)

lemma sightings_snoc: "sightings (xs @ [(t, l)]) m = snd (claimable (sightings xs m) t l)"
  by (simp add: sightings_def)

text \<open>What a valid observation means: the record was first seen at \<open>o_at\<close>, and every stamped foreign
  lease read since is the same record.\<close>

lemma observation_history:
  assumes "\<not> o_valid (m_obs m0)" and "observed (sightings xs m0) l" and "foreign m0 l"
  shows "\<exists>ys t0 l0 zs. xs = ys @ (t0, l0) # zs \<and> same_record l0 l \<and> t0 = o_at (m_obs (sightings xs m0)) \<and>
    (\<forall>(t, l') \<in> set zs. foreign m0 l' \<longrightarrow> same_record l' l)"
  using assms(2,3)
proof (induction xs arbitrary: l rule: rev_induct)
  case Nil
  with assms(1) show ?case by (simp add: observed_def sightings_def)
next
  case (snoc x xs)
  obtain t l' where x: "x = (t, l')" by (cases x)
  let ?m = "sightings xs m0"
  show ?case
  proof (cases "foreign m0 l' \<and> \<not> observed ?m l'")
    case True
    then have "claimable ?m t l' = (False, ?m\<lparr>m_obs := \<lparr>o_holder = the (HolderIdentity l'),
        o_renewTime = the (RenewTime l'), o_at = t, o_valid = True\<rparr>\<rparr>)"
      by (simp add: claimable_foreign)
    with snoc.prems True x have "same_record l' l" "t = o_at (m_obs (sightings (xs @ [x]) m0))"
      by (auto simp: sightings_snoc observed_def same_record_def foreign_def)
    with x show ?thesis by (intro exI [of _ xs] exI [of _ t] exI [of _ l'] exI [of _ "[]"]) simp
  next
    case False
    then have same: "sightings (xs @ [x]) m0 = ?m"
      using x by (cases "foreign m0 l'") (simp_all add: sightings_snoc claimable_not_foreign claimable_foreign)
    with snoc.prems snoc.IH [of l] obtain ys t0 l0 zs where h: "xs = ys @ (t0, l0) # zs"
      "same_record l0 l" "t0 = o_at (m_obs ?m)"
      "\<forall>(t, l') \<in> set zs. foreign m0 l' \<longrightarrow> same_record l' l" by auto
    have "foreign m0 l' \<longrightarrow> same_record l' l"
      using False snoc.prems(1) unfolding same by (auto simp: observed_def same_record_def)
    with h x same show ?thesis
      by (intro exI [of _ ys] exI [of _ t0] exI [of _ l0] exI [of _ "zs @ [(t, l')]"]) auto
  qed
qed

text \<open>C14: a lease that another holder has stamped is claimed only after this manager has seen the
  very same (holder, renew time) record before, every stamped foreign record it read in between was
  that one too, and more than the lease's duration has passed between the two sightings on its own
  clock. No comparison with the remote clock is involved, so a holder whose renewals are seen is
  never stolen from, whatever the skew.\<close>

theorem claim_needs_silence:
  assumes "\<not> o_valid (m_obs m0)" and "foreign m0 l"
    and "fst (claimable (sightings xs m0) now l)"
  shows "\<exists>ys t0 l0 zs. xs = ys @ (t0, l0) # zs \<and> same_record l0 l \<and>
    now - t0 > lease_dur m0 l \<and>
    (\<forall>(t, l') \<in> set zs. foreign m0 l' \<longrightarrow> same_record l' l)"
proof -
  have o: "observed (sightings xs m0) l"
    and d: "now - o_at (m_obs (sightings xs m0)) > lease_dur m0 l"
    using assms(2,3) by (simp_all add: claimable_foreign split: if_splits)
  from observation_history [OF assms(1) o assms(2)] d show ?thesis by blast
qed

definition stamped :: "string \<Rightarrow> time \<Rightarrow> lease" where
  "stamped h t =
     \<lparr>lease_rv = ''3'', HolderIdentity = Some h, LeaseDurationSeconds = Some 15,
      AcquireTime = Some t, RenewTime = Some t\<rparr>"

definition manager_A :: manager where
  "manager_A = NewLeaseManager ''ns'' ''lease'' ''podA:1'' (15 * second)"

theorem claim_needs_silence_witness:
  "\<exists>ys t0 l0 zs. [(0, stamped ''podB:1'' 77)] = ys @ (t0, l0) # zs \<and>
    same_record l0 (stamped ''podB:1'' 77) \<and>
    16000000000 - t0 > lease_dur manager_A (stamped ''podB:1'' 77) \<and>
    (\<forall>(t, l') \<in> set zs. foreign manager_A l' \<longrightarrow> same_record l' (stamped ''podB:1'' 77))"
  by (rule claim_needs_silence)
    (simp_all add: manager_A_def NewLeaseManager_def foreign_def stamped_def sightings_def
      claimable_def lease_dur_def second_def)

text \<open>A single non-blocking attempt by a fresh manager, which is what every \<open>flock(LOCK_NB)\<close>
  makes, never takes over a lease that another holder has stamped, however long ago: the attempt
  reports failure, writes nothing and leaves only the observation behind.\<close>

theorem fresh_attempt_never_takes_over:
  assumes "m = NewLeaseManager ns name holder d" and "foreign m l"
    and "get_lease K ns name w = (Inr l, w1)" and "mu \<noteq> Some True"
  shows "\<exists>m1. TryAcquire K mu m w = (Inr False, m1, w1) \<and> \<not> m_held m1"
  using assms by (simp add: TryAcquire_def NewLeaseManager_def claimable_foreign observed_def)

theorem fresh_attempt_never_takes_over_witness:
  "\<exists>m1. TryAcquire ref_kube None manager_A
      (world0\<lparr>w_clock := 10 ^ 30, w_lease := Some (stamped ''podB:1'' 77)\<rparr>)
    = (Inr False, m1, world0\<lparr>w_clock := 10 ^ 30, w_lease := Some (stamped ''podB:1'' 77)\<rparr>) \<and> \<not> m_held m1"
  by (rule fresh_attempt_never_takes_over [OF manager_A_def])
    (simp_all add: manager_A_def NewLeaseManager_def foreign_def stamped_def found_def world0_def)

section \<open>Against a server nobody else writes to\<close>

text \<open>
  What the API documents for a Lease while no other client writes it: \<open>view\<close> is the stored Lease,
  \<open>up\<close> the worlds in which the calls are authorised and answered. A get returns what is stored; a
  create stores a Lease if there is none; an update stores it if it carries the stored resource
  version, and every write gives the Lease a new version.
\<close>

definition lease_server :: "'w kube \<Rightarrow> string \<Rightarrow> string \<Rightarrow> ('w \<Rightarrow> bool) \<Rightarrow> ('w \<Rightarrow> lease option) \<Rightarrow> bool" where
  "lease_server K ns name up view \<longleftrightarrow>
     (\<forall>w. up w \<longrightarrow>
        fst (get_lease K ns name w) = (case view w of None \<Rightarrow> Inl NotFound | Some l \<Rightarrow> Inr l) \<and>
        up (snd (get_lease K ns name w)) \<and> view (snd (get_lease K ns name w)) = view w) \<and>
     (\<forall>w l. up w \<longrightarrow> view w = None \<longrightarrow> (\<exists>v w1. create_lease K ns name l w = (Inr (), w1) \<and> up w1 \<and>
        view w1 = Some (l\<lparr>lease_rv := v\<rparr>))) \<and>
     (\<forall>w l cur. up w \<longrightarrow> view w = Some cur \<longrightarrow> lease_rv cur = lease_rv l \<longrightarrow>
        (\<exists>v w1. update_lease K ns name l w = (Inr (), w1) \<and> up w1 \<and> view w1 = Some (l\<lparr>lease_rv := v\<rparr>)))"

lemma lease_server_get:
  assumes "lease_server K ns name up view" "up w"
  obtains w1 where "get_lease K ns name w = (case view w of None \<Rightarrow> Inl NotFound | Some l \<Rightarrow> Inr l, w1)"
    "up w1" "view w1 = view w"
  using assms unfolding lease_server_def by (metis prod.collapse)

lemma lease_server_create:
  assumes "lease_server K ns name up view" "up w" "view w = None"
  obtains v w1 where "create_lease K ns name l w = (Inr (), w1)" "up w1" "view w1 = Some (l\<lparr>lease_rv := v\<rparr>)"
  using assms unfolding lease_server_def by metis

lemma lease_server_update:
  assumes "lease_server K ns name up view" "up w" "view w = Some cur" "lease_rv l = lease_rv cur"
  obtains v w1 where "update_lease K ns name l w = (Inr (), w1)" "up w1" "view w1 = Some (l\<lparr>lease_rv := v\<rparr>)"
  using assms unfolding lease_server_def by metis

lemma ref_lease_server:
  "lease_server ref_kube ns name (\<lambda>w. \<not> w_denied w) w_lease"
  unfolding lease_server_def
  by (auto simp: found_def ref_create_lease_def ref_update_lease_def store_lease_def bump_def
      split: option.splits)

text \<open>The lease is ours: the stored holder is this manager's, with a renewal time on it.\<close>

definition owns :: "manager \<Rightarrow> lease option \<Rightarrow> bool" where
  "owns m l \<longleftrightarrow> (\<exists>r. l \<noteq> None \<and> HolderIdentity (the l) = Some (m_holder m) \<and> RenewTime (the l) = Some r)"

lemma TryAcquire_free:
  assumes srv: "lease_server K (m_ns m) (m_name m) up view" and "up w"
    and "\<not> m_held m" "mu \<noteq> Some True"
    and "view w = None \<or> (\<exists>l. view w = Some l \<and> \<not> foreign m l)"
  shows "\<exists>w'. TryAcquire K mu m w = (Inr True, startRenewal m, w') \<and> up w' \<and> owns m (view w')"
proof -
  obtain w1 where g: "get_lease K (m_ns m) (m_name m) w =
      (case view w of None \<Rightarrow> Inl NotFound | Some l \<Rightarrow> Inr l, w1)" "up w1" "view w1 = view w"
    by (rule lease_server_get [OF srv \<open>up w\<close>])
  show ?thesis
  proof (cases "view w")
    case None
    obtain v w2 where c: "create_lease K (m_ns m) (m_name m) (create_req m (api_now K w1)) w1 = (Inr (), w2)"
      "up w2" "view w2 = Some ((create_req m (api_now K w1))\<lparr>lease_rv := v\<rparr>)"
      using lease_server_create [OF srv g(2)] g(3) None by metis
    with g None assms(3,4) show ?thesis
      by (simp add: TryAcquire_def lease_create_def owns_def create_req_def)
  next
    case (Some l)
    let ?req = "takeOver_req m (api_now K w1) l"
    obtain v w2 where c: "update_lease K (m_ns m) (m_name m) ?req w1 = (Inr (), w2)"
      "up w2" "view w2 = Some (?req\<lparr>lease_rv := v\<rparr>)"
      by (rule lease_server_update [OF srv g(2), of l ?req])
        (use g(3) Some in \<open>simp_all add: takeOver_req_def\<close>)
    have "\<not> foreign m l" using assms(5) Some by simp
    with g Some c assms(3,4) show ?thesis
      by (simp add: TryAcquire_def takeOver_def claimable_not_foreign owns_def takeOver_req_def)
  qed
qed

lemma TryAcquire_taken:
  assumes srv: "lease_server K (m_ns m) (m_name m) up view" and "up w"
    and "\<not> m_held m" "view w = Some l" "foreign m l" "\<not> observed m l"
  shows "\<exists>m' w'. TryAcquire K mu m w = (Inr False, m', w') \<and> \<not> m_held m' \<and> up w' \<and> view w' = view w"
proof -
  obtain w1 where g: "get_lease K (m_ns m) (m_name m) w =
      (case view w of None \<Rightarrow> Inl NotFound | Some l \<Rightarrow> Inr l, w1)" "up w1" "view w1 = view w"
    by (rule lease_server_get [OF srv \<open>up w\<close>])
  with assms show ?thesis by (cases "mu = Some True") (simp_all add: TryAcquire_def claimable_foreign)
qed

lemma Release_frees:
  assumes srv: "lease_server K (m_ns m) (m_name m) up view" and "up w"
    and "m_held m" "owns m (view w)"
  shows "\<exists>m' w' l. lease_Release K m w = (Inr (), m', w') \<and> up w' \<and> \<not> Healthy m' \<and> \<not> m_held m' \<and>
    view w' = Some l \<and> HolderIdentity l = None"
proof -
  obtain w1 where g: "get_lease K (m_ns m) (m_name m) w =
      (case view w of None \<Rightarrow> Inl NotFound | Some l \<Rightarrow> Inr l, w1)" "up w1" "view w1 = view w"
    by (rule lease_server_get [OF srv \<open>up w\<close>])
  from assms(4) obtain l where l: "view w = Some l" "HolderIdentity l = Some (m_holder m)"
    by (auto simp: owns_def)
  obtain v w2 where u: "update_lease K (m_ns m) (m_name m) (clear_holder l) w1 = (Inr (), w2)"
    "up w2" "view w2 = Some ((clear_holder l)\<lparr>lease_rv := v\<rparr>)"
    by (rule lease_server_update [OF srv g(2), of l "clear_holder l"])
      (use g(3) l in \<open>simp_all add: clear_holder_def\<close>)
  with g l assms(3) show ?thesis by (simp add: lease_Release_def Healthy_def clear_holder_def)
qed

text \<open>One manager holds at a time. From a free Lease an attempt succeeds and stamps it; while
  it is held a fresh attempt by another identity is refused and changes nothing; and once it is
  released the next attempt succeeds at once, without waiting out the duration.\<close>

theorem acquire_exclude_release:
  assumes srv: "lease_server K ns name up view" and "up w" and "view w = None"
    and A: "A = NewLeaseManager ns name ha da" and B: "B = NewLeaseManager ns name hb db"
    and "ha \<noteq> hb" and "ha \<noteq> ''''"
  shows "\<exists>A1 w1 B1 w2 A2 w3 w4.
    TryAcquire K (Some False) A w = (Inr True, A1, w1) \<and> Healthy A1 \<and> owns A (view w1) \<and>
    TryAcquire K (Some False) B w1 = (Inr False, B1, w2) \<and> \<not> m_held B1 \<and> view w2 = view w1 \<and>
    lease_Release K A1 w2 = (Inr (), A2, w3) \<and> \<not> Healthy A2 \<and>
    TryAcquire K (Some False) B w3 = (Inr True, startRenewal B, w4) \<and> owns B (view w4)"
proof -
  have srvA: "lease_server K (m_ns A) (m_name A) up view" and srvB: "lease_server K (m_ns B) (m_name B) up view"
    and nh: "\<not> m_held A" "\<not> m_held B" and nv: "\<not> o_valid (m_obs B)"
    and h: "m_holder A = ha" "m_holder B = hb"
    using srv by (simp_all add: A B NewLeaseManager_def)
  have mu: "Some False \<noteq> Some True" by simp
  let ?A1 = "startRenewal A"
  have A1: "m_ns ?A1 = m_ns A" "m_name ?A1 = m_name A" "m_held ?A1" "m_holder ?A1 = ha" "Healthy ?A1"
    using nh h by (simp_all add: startRenewal_def Healthy_def)
  obtain w1 where 1: "TryAcquire K (Some False) A w = (Inr True, ?A1, w1)" "up w1" "owns A (view w1)"
    using TryAcquire_free [OF srvA \<open>up w\<close> nh(1) mu] \<open>view w = None\<close> by auto
  then obtain l where l: "view w1 = Some l" "foreign B l"
    using assms(6,7) h by (auto simp: owns_def foreign_def)
  have "\<not> observed B l" using nv by (simp add: observed_def)
  from TryAcquire_taken [OF srvB 1(2) nh(2) l this]
  obtain B1 w2 where 2: "TryAcquire K (Some False) B w1 = (Inr False, B1, w2)" "\<not> m_held B1" "up w2"
    "view w2 = view w1" by blast
  have "owns ?A1 (view w2)" using 1 2 A1 h by (simp add: owns_def)
  with Release_frees [of K ?A1 up view w2] srvA A1 2(3)
  obtain A2 w3 l3 where 3: "lease_Release K ?A1 w2 = (Inr (), A2, w3)" "up w3" "\<not> Healthy A2"
    "view w3 = Some l3" "HolderIdentity l3 = None" by auto
  have "\<exists>l. view w3 = Some l \<and> \<not> foreign B l" using 3(4,5) by (simp add: foreign_def)
  with TryAcquire_free [OF srvB 3(2) nh(2) mu] obtain w4 where
    4: "TryAcquire K (Some False) B w3 = (Inr True, startRenewal B, w4)" "owns B (view w4)" by blast
  from 1 2 3 4 A1 show ?thesis by blast
qed

theorem acquire_exclude_release_witness:
  "\<exists>A1 w1 B1 w2 A2 w3 w4.
    TryAcquire ref_kube (Some False) (NewLeaseManager ''ns'' ''l'' ''p:1'' 0) world0 = (Inr True, A1, w1) \<and>
    Healthy A1 \<and> owns (NewLeaseManager ''ns'' ''l'' ''p:1'' 0) (w_lease w1) \<and>
    TryAcquire ref_kube (Some False) (NewLeaseManager ''ns'' ''l'' ''p:2'' 0) w1 = (Inr False, B1, w2) \<and>
    \<not> m_held B1 \<and> w_lease w2 = w_lease w1 \<and>
    lease_Release ref_kube A1 w2 = (Inr (), A2, w3) \<and> \<not> Healthy A2 \<and>
    TryAcquire ref_kube (Some False) (NewLeaseManager ''ns'' ''l'' ''p:2'' 0) w3
      = (Inr True, startRenewal (NewLeaseManager ''ns'' ''l'' ''p:2'' 0), w4) \<and>
    owns (NewLeaseManager ''ns'' ''l'' ''p:2'' 0) (w_lease w4)"
  by (rule acquire_exclude_release [OF ref_lease_server _ _ refl refl]) (simp_all add: world0_def)

section \<open>Fencing and release\<close>

text \<open>The fence. One renewal leaves the manager healthy exactly if it was held and the stored
  Lease still names it; then the Lease carries the renewed time, and otherwise nothing is written.
  A later renewal that finds the Lease ours again restores it.\<close>

theorem renewal_fences:
  assumes srv: "lease_server K (m_ns m) (m_name m) up view" and "up w"
    and "renew_tick K m w = (m', w')"
  shows "(Healthy m' \<longleftrightarrow> m_held m \<and> (\<exists>l. view w = Some l \<and> HolderIdentity l = Some (m_holder m))) \<and>
    (\<not> m_healthy m' \<longrightarrow> view w' = view w) \<and> (m_healthy m' \<longrightarrow> owns m (view w'))"
proof -
  obtain w1 where g: "get_lease K (m_ns m) (m_name m) w =
      (case view w of None \<Rightarrow> Inl NotFound | Some l \<Rightarrow> Inr l, w1)" "up w1" "view w1 = view w"
    by (rule lease_server_get [OF srv \<open>up w\<close>])
  show ?thesis
  proof (cases "\<exists>l. view w = Some l \<and> HolderIdentity l = Some (m_holder m)")
    case True
    then obtain l where l: "view w = Some l" "HolderIdentity l = Some (m_holder m)" by blast
    let ?req = "l\<lparr>RenewTime := Some (MicroTime (api_now K w1))\<rparr>"
    obtain v w2 where u: "update_lease K (m_ns m) (m_name m) ?req w1 = (Inr (), w2)"
      "up w2" "view w2 = Some (?req\<lparr>lease_rv := v\<rparr>)"
      by (rule lease_server_update [OF srv g(2), of l ?req]) (use g(3) l in simp_all)
    with g l assms(3) show ?thesis
      by (auto simp: renew_tick_def renewOnce_def Healthy_def owns_def)
  next
    case False
    with g assms(3) show ?thesis
      by (auto simp: renew_tick_def renewOnce_def Healthy_def split: option.splits if_splits)
  qed
qed

theorem renewal_fences_witness:
  "\<not> Healthy (fst (renew_tick ref_kube (startRenewal manager_A)
     (world0\<lparr>w_lease := Some (stamped ''podB:1'' 77)\<rparr>)))"
proof -
  let ?w = "world0\<lparr>w_lease := Some (stamped ''podB:1'' 77)\<rparr>"
  obtain m' w' where r: "renew_tick ref_kube (startRenewal manager_A) ?w = (m', w')"
    by (cases "renew_tick ref_kube (startRenewal manager_A) ?w")
  have up: "\<not> w_denied ?w" by (simp add: world0_def)
  have "m_holder (startRenewal manager_A) = ''podA:1''"
    by (simp add: startRenewal_def manager_A_def NewLeaseManager_def)
  with renewal_fences [OF ref_lease_server, of _ "startRenewal manager_A", OF up r]
  show ?thesis unfolding r by (simp add: stamped_def)
qed

text \<open>Releasing never takes the Lease from someone else: when the stored Lease names another
  holder, or none, \<open>Release\<close> reports success, drops the local hold and leaves the Lease as it is.\<close>

theorem release_spares_others:
  assumes srv: "lease_server K (m_ns m) (m_name m) up view" and "up w"
    and "\<forall>l. view w = Some l \<longrightarrow> HolderIdentity l \<noteq> Some (m_holder m)"
  shows "\<exists>m' w'. lease_Release K m w = (Inr (), m', w') \<and> \<not> m_held m' \<and> view w' = view w"
proof -
  obtain w1 where g: "get_lease K (m_ns m) (m_name m) w =
      (case view w of None \<Rightarrow> Inl NotFound | Some l \<Rightarrow> Inr l, w1)" "up w1" "view w1 = view w"
    by (rule lease_server_get [OF srv \<open>up w\<close>])
  with assms(3) show ?thesis by (auto simp: lease_Release_def split: option.splits)
qed

theorem release_spares_others_witness:
  "\<exists>m' w'. lease_Release ref_kube (startRenewal manager_A) (world0\<lparr>w_lease := Some (stamped ''podB:1'' 77)\<rparr>)
     = (Inr (), m', w') \<and> \<not> m_held m' \<and> w_lease w' = Some (stamped ''podB:1'' 77)"
  using release_spares_others [OF ref_lease_server,
      of "world0\<lparr>w_lease := Some (stamped ''podB:1'' 77)\<rparr>" "startRenewal manager_A"]
  by (simp add: world0_def stamped_def startRenewal_def manager_A_def NewLeaseManager_def)

section \<open>A crashed holder\<close>

text \<open>
  The Lease \<open>l\<close> stays as a crashed holder left it: the calls are answered, no time goes backwards,
  each timer waits at least its duration and fires, and an update that carries \<open>l\<close>'s resource
  version is accepted. \<open>up\<close> are the worlds in which this goes on.
\<close>

definition abandoned :: "'w kube \<Rightarrow> string \<Rightarrow> string \<Rightarrow> lease \<Rightarrow> ('w \<Rightarrow> bool) \<Rightarrow> bool" where
  "abandoned K ns name l up \<longleftrightarrow>
     (\<forall>w. up w \<longrightarrow> (\<exists>w1. get_lease K ns name w = (Inr l, w1) \<and> up w1 \<and> api_now K w \<le> api_now K w1)) \<and>
     (\<forall>w d. up w \<longrightarrow> (\<exists>w1. timer_or_done K d w = (True, w1) \<and> up w1 \<and> api_now K w + d \<le> api_now K w1)) \<and>
     (\<forall>w l'. up w \<longrightarrow> lease_rv l' = lease_rv l \<longrightarrow> (\<exists>w1. update_lease K ns name l' w = (Inr (), w1)))"

lemma TryAcquire_abandoned:
  assumes ab: "abandoned K (m_ns m) (m_name m) l up" and "up w" "\<not> m_held m" "mu \<noteq> Some True"
    and fo: "foreign m l" and seen: "observed m l"
  shows "\<exists>w1. up w1 \<and> api_now K w \<le> api_now K w1 \<and>
    (if api_now K w1 - o_at (m_obs m) > lease_dur m l
     then \<exists>w2. TryAcquire K mu m w = (Inr True, startRenewal m, w2)
     else TryAcquire K mu m w = (Inr False, m, w1))"
proof -
  obtain w1 where g: "get_lease K (m_ns m) (m_name m) w = (Inr l, w1)" "up w1"
    "api_now K w \<le> api_now K w1" using ab \<open>up w\<close> unfolding abandoned_def by blast
  have "lease_rv (takeOver_req m (api_now K w1) l) = lease_rv l" by (simp add: takeOver_req_def)
  with ab g(2) obtain w2 where
    "update_lease K (m_ns m) (m_name m) (takeOver_req m (api_now K w1) l) w1 = (Inr (), w2)"
    unfolding abandoned_def by blast
  with g assms(3-) show ?thesis
    by (intro exI [of _ w1]) (simp add: TryAcquire_def claimable_foreign takeOver_def)
qed

lemma Acquire_observed:
  assumes ab: "abandoned K (m_ns m) (m_name m) l up" and "up w" "\<not> m_held m" "mu \<noteq> Some True"
    and fo: "foreign m l" and seen: "observed m l" and dur: "1 \<le> m_duration m div 3"
  shows "\<exists>w'. Acquire K mu m w = Some (Inr (), startRenewal m, w')"
  using \<open>up w\<close>
proof (induction "nat (lease_dur m l + 1 - (api_now K w - o_at (m_obs m)))" arbitrary: w rule: less_induct)
  case less
  obtain w1 where t: "up w1" "api_now K w \<le> api_now K w1"
    "if api_now K w1 - o_at (m_obs m) > lease_dur m l
     then \<exists>w2. TryAcquire K mu m w = (Inr True, startRenewal m, w2)
     else TryAcquire K mu m w = (Inr False, m, w1)"
    using TryAcquire_abandoned [OF ab less.prems assms(3-6)] by blast
  show ?case
  proof (cases "api_now K w1 - o_at (m_obs m) > lease_dur m l")
    case True
    with t(3) show ?thesis by (subst Acquire.simps) auto
  next
    case False
    obtain w2 where s: "timer_or_done K (m_duration m div 3) w1 = (True, w2)" "up w2"
      "api_now K w1 + m_duration m div 3 \<le> api_now K w2"
      using ab t(1) unfolding abandoned_def by blast
    have "nat (lease_dur m l + 1 - (api_now K w2 - o_at (m_obs m)))
        < nat (lease_dur m l + 1 - (api_now K w - o_at (m_obs m)))"
      using False t(2) s(3) dur by linarith
    from less.hyps [OF this s(2)] False t(3) s(1) show ?thesis
      by (subst Acquire.simps) (simp add: sleepCtx_def)
  qed
qed

text \<open>C27: a crashed holder does not block a blocking \<open>flock\<close> forever: while its Lease stays as it
  left it and the timers fire, \<open>Acquire\<close> returns successfully, holding the lease. (A second attempt
  of the same volume must not sit on the shared mutex.)\<close>

theorem Acquire_outlives_crashed_holder:
  assumes ab: "abandoned K (m_ns m) (m_name m) l up" and "up w" and "\<not> m_held m" and "mu \<noteq> Some True"
    and "foreign m l" and "3 \<le> m_duration m"
  shows "\<exists>m' w'. Acquire K mu m w = Some (Inr (), m', w') \<and> Healthy m'"
proof (cases "observed m l")
  case True
  have "1 \<le> m_duration m div 3" using assms(6) by linarith
  from Acquire_observed [OF assms(1-5) True this] assms(3) show ?thesis
    by (auto simp: startRenewal_def Healthy_def)
next
  case False
  obtain w1 where g: "get_lease K (m_ns m) (m_name m) w = (Inr l, w1)" "up w1"
    using ab \<open>up w\<close> unfolding abandoned_def by blast
  define m1 where "m1 = m\<lparr>m_obs := \<lparr>o_holder = the (HolderIdentity l), o_renewTime = the (RenewTime l),
       o_at = api_now K w1, o_valid = True\<rparr>\<rparr>"
  have t: "TryAcquire K mu m w = (Inr False, m1, w1)"
    using g(1) assms(3,4,5) False by (simp add: TryAcquire_def claimable_foreign m1_def)
  have m1: "m_ns m1 = m_ns m" "m_name m1 = m_name m" "\<not> m_held m1" "foreign m1 l"
    "observed m1 l" "m_duration m1 = m_duration m"
    using assms(3,5) by (auto simp: m1_def foreign_def observed_def)
  obtain w2 where s: "timer_or_done K (m_duration m div 3) w1 = (True, w2)" "up w2"
    using ab g(2) unfolding abandoned_def by blast
  have "1 \<le> m_duration m1 div 3" using assms(6) m1 by linarith
  then obtain w' where "Acquire K mu m1 w2 = Some (Inr (), startRenewal m1, w')"
    using Acquire_observed [of K m1 l up w2 mu] ab s(2) m1 assms(4) by auto
  with t s(1) m1 show ?thesis
    by (subst Acquire.simps) (simp add: sleepCtx_def startRenewal_def Healthy_def)
qed

lemma ref_abandoned:
  "abandoned ref_kube ns name l (\<lambda>w. \<not> w_denied w \<and> w_lease w = Some l \<and> w_sleeps w = None)"
  unfolding abandoned_def
  by (auto simp: found_def ref_timer_def ref_update_lease_def store_lease_def)

theorem Acquire_outlives_crashed_holder_witness:
  "\<exists>m' w'. Acquire ref_kube (Some False) manager_A (world0\<lparr>w_lease := Some (stamped ''podB:1'' 77)\<rparr>)
     = Some (Inr (), m', w') \<and> Healthy m'"
  by (rule Acquire_outlives_crashed_holder [OF ref_abandoned [where l = "stamped ''podB:1'' 77"]])
    (simp_all add: world0_def manager_A_def NewLeaseManager_def foreign_def stamped_def second_def)

end
