(* ===== verification/Commits.thy ===== *)
theory Commits
  imports Leases
begin

text \<open>
  \<open>pkg/objectfs/commit.go\<close>: turning buffered writes into one merge patch, fenced by the lease and
  checked against the size ceiling. The \<open>Committer\<close> only holds the store and the cache, so \<open>Commit\<close>
  takes the cache (which knows its store) and returns it; the lease is the manager as it is when the
  fence is checked, \<open>None\<close> for a nil lease.
\<close>

definition checkSize :: "cache \<Rightarrow> (string, slice) fmap \<Rightarrow> string list \<Rightarrow> unit result" where
  "checkSize c puts del =
     (case cache_Current c of
        None \<Rightarrow>
          if fBex (fmran puts) (\<lambda>v. length (slice_bytes v) > MaxObjectBytes) then Inl ErrTooLarge
          else Inr ()
      | Some cur \<Rightarrow>
          if snap_Size (snap_With cur puts del) > MaxObjectBytes then Inl ErrTooLarge else Inr ())"

definition Commit ::
  "'w kube \<Rightarrow> cache \<Rightarrow> manager option \<Rightarrow> (string, slice) fmap \<Rightarrow> string list \<Rightarrow> 'w
    \<Rightarrow> unit result \<times> cache \<times> 'w" where
  "Commit K c lease puts del w =
     (if fmdom puts = {||} \<and> del = [] then (Inr (), c, w)
      else if (case lease of None \<Rightarrow> False | Some m \<Rightarrow> \<not> Healthy m) then (Inl ErrLeaseLost, c, w)
      else case checkSize c puts del of
        Inl e \<Rightarrow> (Inl e, c, w)
      | Inr _ \<Rightarrow>
          (case store_Patch K (c_store c) puts del w of
             (Inl e, w1) \<Rightarrow> (Inl e, c, w1)
           | (Inr _, w1) \<Rightarrow>
               (case cache_Current c of
                  Some cur \<Rightarrow> (Inr (), cache_Set c (api_now K w1) (Some (snap_With cur puts del)), w1)
                | None \<Rightarrow> (Inr (), c, w1))))"

section \<open>Each branch\<close>

definition writes :: "(string, slice) fmap \<Rightarrow> string list \<Rightarrow> bool" where
  "writes puts del \<longleftrightarrow> fmdom puts \<noteq> {||} \<or> del \<noteq> []"

definition fenced :: "manager option \<Rightarrow> bool" where
  "fenced lease \<longleftrightarrow> (\<exists>m. lease = Some m \<and> \<not> Healthy m)"

lemma Commit_nothing [simp]: "\<not> writes puts del \<Longrightarrow> Commit K c lease puts del w = (Inr (), c, w)"
  by (simp add: Commit_def writes_def)

lemma Commit_fenced: "writes puts del \<Longrightarrow> fenced lease \<Longrightarrow> Commit K c lease puts del w = (Inl ErrLeaseLost, c, w)"
  by (auto simp: Commit_def writes_def fenced_def)

lemma Commit_oversize:
  "writes puts del \<Longrightarrow> \<not> fenced lease \<Longrightarrow> checkSize c puts del = Inl e \<Longrightarrow>
   Commit K c lease puts del w = (Inl e, c, w)"
  by (auto simp: Commit_def writes_def fenced_def split: option.splits)

lemma Commit_patch:
  "writes puts del \<Longrightarrow> \<not> fenced lease \<Longrightarrow> checkSize c puts del = Inr u \<Longrightarrow>
   store_Patch K (c_store c) puts del w = (r, w1) \<Longrightarrow>
   Commit K c lease puts del w =
     (r, case (r, cache_Current c) of
           (Inr _, Some cur) \<Rightarrow> cache_Set c (api_now K w1) (Some (snap_With cur puts del))
         | _ \<Rightarrow> c, w1)"
  by (auto simp: Commit_def writes_def fenced_def split: option.splits sum.splits)

lemma checkSize_cases:
  obtains "checkSize c puts del = Inl ErrTooLarge" | "checkSize c puts del = Inr ()"
proof (cases "checkSize c puts del")
  case (Inl e)
  then have "e = ErrTooLarge" by (auto simp: checkSize_def split: option.splits if_splits)
  with Inl that show ?thesis by simp
qed (simp add: that)

text \<open>A commit that is refused before the request is sent (the fence, or the size ceiling)
  changes neither the object nor the cache, and says why; a commit the server refuses passes its
  error on and leaves the cache alone.\<close>

theorem Commit_refused:
  assumes "writes puts del" and "Commit K c lease puts del w = (Inl e, c', w')"
  shows "c' = c \<and>
    (fenced lease \<longrightarrow> e = ErrLeaseLost \<and> w' = w) \<and>
    (\<not> fenced lease \<longrightarrow> checkSize c puts del = Inl ErrTooLarge \<longrightarrow> e = ErrTooLarge \<and> w' = w) \<and>
    (\<not> fenced lease \<longrightarrow> checkSize c puts del = Inr () \<longrightarrow> store_Patch K (c_store c) puts del w = (Inl e, w'))"
proof (cases "fenced lease")
  case True
  with assms show ?thesis by (simp add: Commit_fenced)
next
  case False
  obtain r w1 where p: "store_Patch K (c_store c) puts del w = (r, w1)"
    by (cases "store_Patch K (c_store c) puts del w")
  show ?thesis
    by (rule checkSize_cases [of c puts del])
      (use assms False p in \<open>auto simp: Commit_oversize Commit_patch split: option.splits sum.splits\<close>)
qed

theorem Commit_refused_witness:
  "NewCache (SecretStore ''app'' ''o'') 0 = NewCache (SecretStore ''app'' ''o'') 0 \<and>
   Commit ref_kube (NewCache (SecretStore ''app'' ''o'') 0) (Some manager_A) fmempty [''k''] world0
     = (Inl ErrLeaseLost, NewCache (SecretStore ''app'' ''o'') 0, world0)"
proof -
  have w: "writes fmempty [''k'']" by (simp add: writes_def)
  have f: "fenced (Some manager_A)"
    by (simp add: fenced_def Healthy_def manager_A_def NewLeaseManager_def)
  have c: "Commit ref_kube (NewCache (SecretStore ''app'' ''o'') 0) (Some manager_A) fmempty [''k''] world0
     = (Inl ErrLeaseLost, NewCache (SecretStore ''app'' ''o'') 0, world0)"
    by (rule Commit_fenced [OF w f])
  show ?thesis using Commit_refused [OF w c] f c by blast
qed

lemma Commit_success:
  assumes "writes puts del" and "cache_Current c = Some cur"
    and "Commit K c lease puts del w = (Inr (), c', w')"
  shows "cache_Current c' = Some (snap_With cur puts del) \<and>
    snap_Size (snap_With cur puts del) \<le> MaxObjectBytes"
proof -
  have nf: "\<not> fenced lease" using assms(1,3) by (auto simp: Commit_fenced)
  obtain r w1 where p: "store_Patch K (c_store c) puts del w = (r, w1)"
    by (cases "store_Patch K (c_store c) puts del w")
  show ?thesis
  proof (rule checkSize_cases [of c puts del])
    assume "checkSize c puts del = Inl ErrTooLarge"
    with assms(1,3) nf show ?thesis by (simp add: Commit_oversize)
  next
    assume s: "checkSize c puts del = Inr ()"
    with assms nf p have "r = Inr ()" and "c' = cache_Set c (api_now K w1) (Some (snap_With cur puts del))"
      by (auto simp: Commit_patch [OF assms(1) nf s p] split: sum.splits)
    with s assms(2) show ?thesis by (simp add: checkSize_def split: if_splits)
  qed
qed

text \<open>The object never grows past the ceiling by a commit that the cache can judge: after a
  successful write over a cached snapshot, the cached snapshot is \<open>With\<close> of it and its values take
  at most 1 MiB.\<close>

theorem Commit_size_bound:
  assumes "writes puts del" and "cache_Current c = Some cur"
    and "Commit K c lease puts del w = (Inr (), c', w')"
  shows "cache_Current c' = Some (snap_With cur puts del) \<and>
    snap_Size (snap_With cur puts del) \<le> MaxObjectBytes"
  using assms by (rule Commit_success)

section \<open>Against a server nobody else writes to\<close>

text \<open>
  What the API documents for the object while no other client writes it: a get returns what is
  stored, and a merge patch either is refused and changes nothing or leaves the merged document.
\<close>

definition secret_server :: "'w kube \<Rightarrow> string \<Rightarrow> string \<Rightarrow> ('w \<Rightarrow> bool) \<Rightarrow> ('w \<Rightarrow> secret) \<Rightarrow> bool" where
  "secret_server K ns name up view \<longleftrightarrow>
     (\<forall>w. up w \<longrightarrow> fst (get_secret K ns name w) = Inr (view w) \<and> up (snd (get_secret K ns name w)) \<and>
        view (snd (get_secret K ns name w)) = view w) \<and>
     (\<forall>w body r w1. up w \<longrightarrow> patch_secret K ns name body w = (r, w1) \<longrightarrow> up w1 \<and>
        (case r of Inl _ \<Rightarrow> view w1 = view w
         | Inr _ \<Rightarrow> secret_doc (view w1) = merge_doc body (secret_doc (view w))))"

definition configmap_server :: "'w kube \<Rightarrow> string \<Rightarrow> string \<Rightarrow> ('w \<Rightarrow> bool) \<Rightarrow> ('w \<Rightarrow> configmap) \<Rightarrow> bool" where
  "configmap_server K ns name up view \<longleftrightarrow>
     (\<forall>w. up w \<longrightarrow> configmap_valid (view w) \<and>
        fst (get_configmap K ns name w) = Inr (view w) \<and> up (snd (get_configmap K ns name w)) \<and>
        view (snd (get_configmap K ns name w)) = view w) \<and>
     (\<forall>w body r w1. up w \<longrightarrow> patch_configmap K ns name body w = (r, w1) \<longrightarrow> up w1 \<and>
        (case r of Inl _ \<Rightarrow> view w1 = view w
         | Inr _ \<Rightarrow> configmap_doc (view w1) = merge_doc body (configmap_doc (view w))))"

text \<open>The store's object is on such a server; \<open>contents\<close> are the files it presents.\<close>

fun backed_by :: "'w kube \<Rightarrow> store \<Rightarrow> ('w \<Rightarrow> bool) \<Rightarrow> ('w \<Rightarrow> data) \<Rightarrow> bool" where
  "backed_by K (SecretStore ns name) up contents \<longleftrightarrow>
     (\<exists>view. secret_server K ns name up view \<and> (\<forall>w. contents w = sec_Data (view w)))"
| "backed_by K (ConfigMapStore ns name) up contents \<longleftrightarrow>
     (\<exists>view. configmap_server K ns name up view \<and> (\<forall>w. contents w = configmap_contents (view w)))"

lemma backed_by_Get:
  assumes "backed_by K st up contents" "up w"
  obtains snap w1 where "store_Get K st w = (Inr snap, w1)" "Data snap = contents w" "up w1"
    "contents w1 = contents w"
proof (cases st)
  case (SecretStore ns name)
  with assms obtain view where s: "secret_server K ns name up view" "\<forall>w. contents w = sec_Data (view w)"
    by auto
  obtain w1 where g: "get_secret K ns name w = (Inr (view w), w1)" "up w1" "view w1 = view w"
    using s(1) assms(2) unfolding secret_server_def by (metis prod.collapse)
  show ?thesis
    using that SecretStore s g by (simp add: secret_Get_def secret_Decode_def)
next
  case (ConfigMapStore ns name)
  with assms obtain view where s: "configmap_server K ns name up view"
    "\<forall>w. contents w = configmap_contents (view w)" by auto
  obtain w1 where g: "get_configmap K ns name w = (Inr (view w), w1)" "up w1" "view w1 = view w"
    using s(1) assms(2) unfolding configmap_server_def by (metis prod.collapse)
  show ?thesis
    using that ConfigMapStore s g
    by (simp add: configmap_Get_def configmap_Decode_def configmap_contents_def)
qed

lemma backed_by_Patch:
  assumes "backed_by K st up contents" "up w" "store_Patch K st puts del w = (r, w1)" "allocated puts"
  shows "up w1 \<and> (case r of Inl _ \<Rightarrow> contents w1 = contents w
    | Inr _ \<Rightarrow> contents w1 = with_data (contents w) puts del)"
proof (cases st)
  case (SecretStore ns name)
  with assms obtain view where s: "secret_server K ns name up view" "\<forall>w. contents w = sec_Data (view w)"
    and p: "patch_secret K ns name (secret_body puts del) w = (r, w1)"
    by (auto simp: secret_Patch_def)
  with assms(2) have "up w1 \<and> (case r of Inl _ \<Rightarrow> view w1 = view w
     | Inr _ \<Rightarrow> secret_doc (view w1) = merge_doc (secret_body puts del) (secret_doc (view w)))"
    unfolding secret_server_def by blast
  with s(2) assms(4) show ?thesis
    by (cases r) (auto intro: secret_store.patch_contents)
next
  case (ConfigMapStore ns name)
  with assms obtain view where s: "configmap_server K ns name up view"
    "\<forall>w. contents w = configmap_contents (view w)"
    and p: "patch_configmap K ns name (configmap_body puts del) w = (r, w1)"
    by (auto simp: configmap_Patch_def)
  with assms(2) have "up w1 \<and> configmap_valid (view w) \<and> (case r of Inl _ \<Rightarrow> view w1 = view w
     | Inr _ \<Rightarrow> configmap_doc (view w1) = merge_doc (configmap_body puts del) (configmap_doc (view w)))"
    unfolding configmap_server_def by blast
  with s(2) assms(4) show ?thesis
    by (cases r) (auto intro: configmap_store.patch_contents)
qed

lemma with_data_nothing: "\<not> writes puts del \<Longrightarrow> with_data d puts del = d"
  by (rule fmap_ext) (auto simp: writes_def fmlookup_with_data fmdom_notD split: option.splits)

lemma Commit_contents:
  assumes srv: "backed_by K (c_store c) up contents" and "up w" and "allocated puts"
    and "Commit K c lease puts del w = (r, c1, w1)"
  shows "up w1 \<and> c_store c1 = c_store c \<and>
    contents w1 = (if r = Inr () then with_data (contents w) puts del else contents w)"
proof (cases "writes puts del \<and> \<not> fenced lease \<and> checkSize c puts del = Inr ()")
  case True
  obtain r' w' where p: "store_Patch K (c_store c) puts del w = (r', w')"
    by (cases "store_Patch K (c_store c) puts del w")
  with True assms(4) have "r' = r" "w' = w1" "c_store c1 = c_store c"
    by (auto simp: Commit_patch [where lease = lease, OF _ _ _ p] split: option.splits sum.splits)
  with backed_by_Patch [OF srv \<open>up w\<close> p \<open>allocated puts\<close>] show ?thesis by (cases r) auto
next
  case False
  show ?thesis
  proof (cases "writes puts del")
    case wr: True
    have "w1 = w \<and> c1 = c \<and> r \<noteq> Inr ()"
    proof (cases "fenced lease")
      case True
      with wr assms(4) show ?thesis by (auto simp: Commit_fenced)
    next
      case nf: False
      with False wr have "checkSize c puts del = Inl ErrTooLarge"
        by (cases rule: checkSize_cases [of c puts del]) simp_all
      with wr nf assms(4) show ?thesis by (auto simp: Commit_oversize)
    qed
    with assms(2) show ?thesis by simp
  next
    case nw: False
    with assms(4) have "r = Inr ()" "c1 = c" "w1 = w" by auto
    with assms(2) show ?thesis by (simp add: with_data_nothing [OF nw])
  qed
qed

text \<open>C12: read-your-writes against the server: if the cache agreed with the object before, then
  after a successful commit of allocated values a quorum read returns exactly the contents that the
  cache already shows, for a Secret and for a ConfigMap.\<close>

theorem Commit_cache_coherent:
  assumes srv: "backed_by K (c_store c) up contents" and "up w" and "allocated puts"
    and "cache_Current c = Some cur" and "Data cur = contents w"
    and "Commit K c lease puts del w = (Inr (), c1, w1)"
  shows "\<exists>cur1 snap c2 w2. cache_Current c1 = Some cur1 \<and> cache_Fresh K c1 w1 = (Inr snap, c2, w2) \<and>
    Data snap = Data cur1 \<and> Data cur1 = with_data (contents w) puts del"
proof -
  have c1: "up w1" "c_store c1 = c_store c" "contents w1 = with_data (contents w) puts del"
    using Commit_contents [OF srv assms(2,3,6)] by simp_all
  obtain snap w2 where g: "store_Get K (c_store c1) w1 = (Inr snap, w2)" "Data snap = contents w1"
    by (rule backed_by_Get [of K "c_store c1" up contents w1]) (use srv c1(1,2) in simp_all)
  have "\<exists>cur1. cache_Current c1 = Some cur1 \<and> Data cur1 = with_data (contents w) puts del"
  proof (cases "writes puts del")
    case True
    from Commit_success [OF True assms(4,6)] assms(5) show ?thesis by simp
  next
    case False
    with assms(4-6) have "c1 = c" and "with_data (contents w) puts del = contents w"
      by (simp_all add: with_data_nothing)
    with assms(4,5) show ?thesis by simp
  qed
  with g c1 show ?thesis by (auto simp: cache_Fresh_def)
qed

section \<open>The reference server meets the contract\<close>

lemma ref_secret_server:
  "secret_server ref_kube ns name (\<lambda>w. \<not> w_denied w \<and> w_secret w \<noteq> None) (\<lambda>w. the (w_secret w))"
  unfolding secret_server_def
  by (auto simp: found_def ref_patch_secret_def bump_def split: if_splits)

lemma ref_configmap_server:
  "configmap_server ref_kube ns name
     (\<lambda>w. \<not> w_denied w \<and> (\<exists>c. w_configmap w = Some c \<and> configmap_valid c)) (\<lambda>w. the (w_configmap w))"
  unfolding configmap_server_def
  by (auto simp: found_def ref_patch_configmap_def bump_def split: if_splits)

lemma ref_backed_by_secret:
  "backed_by ref_kube (SecretStore ns name) (\<lambda>w. \<not> w_denied w \<and> w_secret w \<noteq> None)
     (\<lambda>w. sec_Data (the (w_secret w)))"
  using ref_secret_server by auto

lemma ref_secret_patch_ok:
  "secret_doc (secret_after (secret_body puts del) w s) = merge_doc (secret_body puts del) (secret_doc s)"
proof -
  have "fmmap Base64 (fmmap leaf_bytes (merge_section
      (fold (\<lambda>k. fmupd k None) del (fmmap (map_option Base64) puts)) (fmmap Base64 d))) =
    merge_section (fold (\<lambda>k. fmupd k None) del (fmmap (map_option Base64) puts)) (fmmap Base64 d)"
    for d :: data
    by (intro fmap_ext)
      (auto simp: fmlookup_merge_section fmlookup_fold_null map_option_case split: option.splits)
  then show ?thesis
    unfolding secret_doc_merge_iff by (simp add: secret_after_def patched_def secret_body_def)
qed

text \<open>A small Secret, cached, with nothing else around it.\<close>

definition demo_secret :: secret where
  "demo_secret = \<lparr>sec_Data = fmupd ''k'' ''old'' fmempty, sec_rv = ''5''\<rparr>"

definition demo_world :: world where
  "demo_world = world0\<lparr>w_secret := Some demo_secret\<rparr>"

definition demo_snap :: snapshot where
  "demo_snap = \<lparr>Data = sec_Data demo_secret, ResourceVersion = ''5'', FetchedAt = 1\<rparr>"

definition demo_cache :: cache where
  "demo_cache = cache_Set (NewCache (SecretStore ''app'' ''o'') 0) 1 (Some demo_snap)"

lemma demo_simps [simp]:
  "c_store demo_cache = SecretStore ''app'' ''o''" "cache_Current demo_cache = Some demo_snap"
  "w_secret demo_world = Some demo_secret" "\<not> w_denied demo_world" "w_lease demo_world = None"
  "w_sleeps demo_world = None" "w_clock demo_world = 1000"
  "Data demo_snap = sec_Data demo_secret" "sec_Data demo_secret = fmupd ''k'' ''old'' fmempty"
  by (simp_all add: demo_cache_def NewCache_def demo_world_def world0_def demo_snap_def demo_secret_def)

lemma demo_commit_at:
  assumes "writes puts del" "snap_Size (snap_With demo_snap puts del) \<le> MaxObjectBytes" "\<not> fenced lease"
    and "w_secret w = Some demo_secret" "\<not> w_denied w"
  obtains c1 w1 where "Commit ref_kube demo_cache lease puts del w = (Inr (), c1, w1)"
proof -
  have cs: "checkSize demo_cache puts del = Inr ()" using assms(2) by (simp add: checkSize_def)
  obtain w1 where p: "store_Patch ref_kube (c_store demo_cache) puts del w = (Inr (), w1)"
    using assms(4,5) by (simp add: secret_Patch_def ref_patch_secret_def found_def ref_secret_patch_ok)
  show ?thesis using that Commit_patch [OF assms(1,3) cs p] by simp
qed

lemma demo_commit:
  assumes "writes puts del" "snap_Size (snap_With demo_snap puts del) \<le> MaxObjectBytes" "\<not> fenced lease"
  obtains c1 w1 where "Commit ref_kube demo_cache lease puts del demo_world = (Inr (), c1, w1)"
  by (rule demo_commit_at [OF assms, of demo_world]) (use that in simp_all)

lemma demo_put_size: "snap_Size (snap_With demo_snap (fmupd ''k'' (Some v) fmempty) []) = length v"
proof -
  have "with_data (fmupd ''k'' ''old'' fmempty) (fmupd ''k'' (Some v) fmempty) [] = fmupd ''k'' v fmempty"
    by (rule fmap_ext) (simp add: fmlookup_with_data)
  then show ?thesis by (simp add: snap_Size_sum)
qed

lemma demo_write:
  assumes "length v \<le> MaxObjectBytes" "\<not> fenced lease"
  obtains c1 w1 where "Commit ref_kube demo_cache lease (fmupd ''k'' (Some v) fmempty) [] demo_world = (Inr (), c1, w1)"
proof -
  let ?puts = "fmupd ''k'' (Some v) fmempty :: (string, slice) fmap"
  have "with_data (fmupd ''k'' ''old'' fmempty) ?puts [] = fmupd ''k'' v fmempty"
    by (rule fmap_ext) (simp add: fmlookup_with_data)
  then have "snap_Size (snap_With demo_snap ?puts []) \<le> MaxObjectBytes"
    using assms(1) by (simp add: snap_Size_sum)
  moreover have "writes ?puts []" by (simp add: writes_def)
  ultimately show ?thesis using that assms(2) demo_commit by blast
qed

theorem Commit_size_bound_witness:
  "\<exists>c1 w1. Commit ref_kube demo_cache None (fmupd ''k'' (Some ''new'') fmempty) [] demo_world = (Inr (), c1, w1) \<and>
    cache_Current c1 = Some (snap_With demo_snap (fmupd ''k'' (Some ''new'') fmempty) [])"
proof -
  obtain c1 w1 where c: "Commit ref_kube demo_cache None (fmupd ''k'' (Some ''new'') fmempty) [] demo_world
      = (Inr (), c1, w1)"
    by (rule demo_write [of "''new''" None]) (simp_all add: MaxObjectBytes_def fenced_def)
  have wr: "writes (fmupd ''k'' (Some ''new'') fmempty) []" by (simp add: writes_def)
  from Commit_size_bound [OF wr demo_simps(2) c] c show ?thesis by blast
qed

theorem Commit_cache_coherent_witness:
  "\<exists>c1 w1 snap c2 w2.
    Commit ref_kube demo_cache None (fmupd ''k'' (Some ''new'') fmempty) [] demo_world = (Inr (), c1, w1) \<and>
    cache_Fresh ref_kube c1 w1 = (Inr snap, c2, w2) \<and> snap_Get snap ''k'' = Some ''new''"
proof -
  obtain c1 w1 where c: "Commit ref_kube demo_cache None (fmupd ''k'' (Some ''new'') fmempty) [] demo_world
      = (Inr (), c1, w1)"
    by (rule demo_write [of "''new''" None]) (simp_all add: MaxObjectBytes_def fenced_def)
  have b: "backed_by ref_kube (c_store demo_cache) (\<lambda>w. \<not> w_denied w \<and> w_secret w \<noteq> None)
     (\<lambda>w. sec_Data (the (w_secret w)))"
    using ref_backed_by_secret by simp
  from Commit_cache_coherent [OF b _ _ demo_simps(2) _ c] c show ?thesis
    by (fastforce simp: snap_Get_def fmlookup_with_data)
qed

end
