(* ===== verification/Volumes.thy ===== *)
theory Volumes
  imports Commits
begin

text \<open>
  \<open>pkg/objectfs/volume.go\<close>: parsing an inline volume's attributes, assembling a volume, and the
  factory of the per-handle lease managers. The validation of object names is
  \<open>k8s.io/apimachinery\<close>'s \<open>IsDNS1123Subdomain\<close>, a parameter \<open>dns\<close> that gives the list of complaints
  about a name. An error is an \<open>OtherErr\<close> with the fixed part of its message.
\<close>

definition KindSecret :: string where
  "KindSecret = ''Secret''"

definition KindConfigMap :: string where
  "KindConfigMap = ''ConfigMap''"

record config =
  ObjectKind :: string
  ObjectName :: string
  LeaseName :: string
  Namespace :: string
  FileMode :: "32 word"
  DirMode :: "32 word"
  UID :: "32 word"
  GID :: "32 word"
  StalenessBound :: duration
  LeaseDuration :: duration

section \<open>Attributes\<close>

type_synonym attrs = "(string, string) fmap"

text \<open>Reading a missing key of a Go map of strings gives the empty string.\<close>

definition attr_get :: "attrs \<Rightarrow> string \<Rightarrow> string" where
  "attr_get attr k = (case fmlookup attr k of None \<Rightarrow> '''' | Some v \<Rightarrow> v)"

lemma attr_get_upd [simp]: "attr_get (fmupd k v m) k' = (if k' = k then v else attr_get m k')"
  by (simp add: attr_get_def)

lemma attr_get_empty [simp]: "attr_get fmempty k = ''''"
  by (simp add: attr_get_def)

definition parseMode :: "attrs \<Rightarrow> string \<Rightarrow> 32 word \<Rightarrow> 32 word result" where
  "parseMode attr key def =
     (case fmlookup attr key of
        None \<Rightarrow> Inr def
      | Some raw \<Rightarrow>
          if raw = '''' then Inr def
          else (case ParseUint raw 8 32 of
              None \<Rightarrow> Inl (OtherErr (key @ '' is not an octal mode''))
            | Some n \<Rightarrow> Inr (of_nat n)))"

definition parseUint32 :: "attrs \<Rightarrow> string \<Rightarrow> 32 word \<Rightarrow> 32 word result" where
  "parseUint32 attr key def =
     (case fmlookup attr key of
        None \<Rightarrow> Inr def
      | Some raw \<Rightarrow>
          if raw = '''' then Inr def
          else (case ParseUint raw 10 32 of
              None \<Rightarrow> Inl (OtherErr (key @ '' is not a number''))
            | Some n \<Rightarrow> Inr (of_nat n)))"

text \<open>\<open>time.Duration(n) * time.Second\<close> multiplies at 64 bits.\<close>

definition parseSeconds :: "attrs \<Rightarrow> string \<Rightarrow> duration \<Rightarrow> duration result" where
  "parseSeconds attr key def =
     (case fmlookup attr key of
        None \<Rightarrow> Inr def
      | Some raw \<Rightarrow>
          if raw = '''' then Inr def
          else (case Atoi raw of
              None \<Rightarrow> Inl (OtherErr (key @ '' is not a positive number of seconds''))
            | Some n \<Rightarrow>
                if n \<le> 0 then Inl (OtherErr (key @ '' is not a positive number of seconds''))
                else Inr (wrap64 (n * second))))"

definition leaseNameOf :: "(string \<Rightarrow> string list) \<Rightarrow> attrs \<Rightarrow> string \<Rightarrow> string result" where
  "leaseNameOf dns attr objectName =
     (let ln = attr_get attr ''leaseName'' in
      if ln = '''' then Inr (''roommate-'' @ objectName)
      else if dns ln \<noteq> [] then Inl (OtherErr ''leaseName is not a valid object name'')
      else Inr ln)"

text \<open>The default modes \<open>0x180\<close> and \<open>0x1C0\<close> are the octal 600 and 700.\<close>

definition ParseConfig :: "(string \<Rightarrow> string list) \<Rightarrow> attrs \<Rightarrow> string \<Rightarrow> config result" where
  "ParseConfig dns attr namespace =
     (if namespace = '''' then Inl (OtherErr ''pod namespace is required'')
      else let kind = attr_get attr ''objectKind''; name = attr_get attr ''objectName'' in
      if kind \<noteq> KindSecret \<and> kind \<noteq> KindConfigMap then Inl (OtherErr ''objectKind must be Secret or ConfigMap'')
      else if dns name \<noteq> [] then Inl (OtherErr ''objectName is not a valid object name'')
      else
        try_bind (leaseNameOf dns attr name) (\<lambda>lease.
        try_bind (parseMode attr ''fileMode'' 0x180) (\<lambda>fmode.
        try_bind (parseMode attr ''dirMode'' 0x1C0) (\<lambda>dmode.
        try_bind (parseUint32 attr ''uid'' 0) (\<lambda>uid.
        try_bind (parseUint32 attr ''gid'' 0) (\<lambda>gid.
        try_bind (parseSeconds attr ''stalenessBoundSeconds'' DefaultStalenessBound) (\<lambda>stale.
        try_bind (parseSeconds attr ''leaseDurationSeconds'' DefaultLeaseDuration) (\<lambda>ldur.
          Inr \<lparr>ObjectKind = kind, ObjectName = name, LeaseName = lease, Namespace = namespace,
            FileMode = fmode, DirMode = dmode, UID = uid, GID = gid,
            StalenessBound = stale, LeaseDuration = ldur\<rparr>))))))))"

section \<open>The volume\<close>

text \<open>The committer is the volume's cache; \<open>v_acquiring\<close> says that \<open>acquireMu\<close> is held.\<close>

record volume =
  v_cfg :: config
  v_cache :: cache
  v_holderSeq :: "64 word"
  v_podUID :: string
  v_acquiring :: bool

definition NewVolume :: "config \<Rightarrow> string \<Rightarrow> volume result" where
  "NewVolume cfg podUID =
     try_bind
       (if ObjectKind cfg = KindSecret then Inr (SecretStore (Namespace cfg) (ObjectName cfg))
        else if ObjectKind cfg = KindConfigMap then Inr (ConfigMapStore (Namespace cfg) (ObjectName cfg))
        else Inl (OtherErr ''unsupported objectKind''))
       (\<lambda>st. Inr \<lparr>v_cfg = cfg, v_cache = NewCache st (StalenessBound cfg), v_holderSeq = 0,
          v_podUID = podUID, v_acquiring = False\<rparr>)"

text \<open>\<open>fmt.Sprintf("%s:%d", podUID, seq)\<close>.\<close>

definition holder_of :: "string \<Rightarrow> 64 word \<Rightarrow> string" where
  "holder_of podUID seq = podUID @ '':'' @ decimal (unat seq)"

definition NewLease :: "volume \<Rightarrow> manager \<times> volume" where
  "NewLease v =
     (let seq = v_holderSeq v + 1 in
      (NewLeaseManager (Namespace (v_cfg v)) (LeaseName (v_cfg v)) (holder_of (v_podUID v) seq)
         (LeaseDuration (v_cfg v)),
       v\<lparr>v_holderSeq := seq\<rparr>))"

definition volume_Run :: "'w kube \<Rightarrow> volume \<Rightarrow> 'w \<Rightarrow> (cache \<times> 'w) option" where
  "volume_Run K v w = cache_Run K (v_cache v) w"

section \<open>What a parsed configuration promises\<close>

lemma ParseConfig_Inr:
  assumes "ParseConfig dns attr namespace = Inr cfg"
  shows "namespace \<noteq> '''' \<and> Namespace cfg = namespace \<and>
    ObjectKind cfg = attr_get attr ''objectKind'' \<and> ObjectKind cfg \<in> {KindSecret, KindConfigMap} \<and>
    ObjectName cfg = attr_get attr ''objectName'' \<and> dns (ObjectName cfg) = [] \<and>
    leaseNameOf dns attr (ObjectName cfg) = Inr (LeaseName cfg) \<and>
    parseMode attr ''fileMode'' 0x180 = Inr (FileMode cfg) \<and>
    parseMode attr ''dirMode'' 0x1C0 = Inr (DirMode cfg) \<and>
    parseUint32 attr ''uid'' 0 = Inr (UID cfg) \<and> parseUint32 attr ''gid'' 0 = Inr (GID cfg) \<and>
    parseSeconds attr ''stalenessBoundSeconds'' DefaultStalenessBound = Inr (StalenessBound cfg) \<and>
    parseSeconds attr ''leaseDurationSeconds'' DefaultLeaseDuration = Inr (LeaseDuration cfg)"
  using assms by (auto simp: ParseConfig_def Let_def try_bind_Inr split: if_splits)

text \<open>A configuration that parses names a Secret or ConfigMap with a valid name, in the
  consuming pod's namespace whatever the attributes say, and it can always be turned into a volume
  on exactly that object.\<close>

theorem ParseConfig_sound:
  assumes "ParseConfig dns attr namespace = Inr cfg"
  shows "Namespace cfg = namespace \<and> namespace \<noteq> '''' \<and> dns (ObjectName cfg) = [] \<and>
    (attr_get attr ''leaseName'' \<noteq> '''' \<longrightarrow> LeaseName cfg = attr_get attr ''leaseName'' \<and> dns (LeaseName cfg) = []) \<and>
    (attr_get attr ''leaseName'' = '''' \<longrightarrow> LeaseName cfg = ''roommate-'' @ ObjectName cfg) \<and>
    (\<exists>v. NewVolume cfg uid = Inr v \<and> c_store (v_cache v) =
      (if ObjectKind cfg = KindSecret then SecretStore else ConfigMapStore) namespace (ObjectName cfg))"
  using ParseConfig_Inr [OF assms]
  by (auto simp: leaseNameOf_def NewVolume_def NewCache_def Let_def split: if_splits)

text \<open>The shortest attributes: kind and name.\<close>

definition attrs_min :: "string \<Rightarrow> attrs" where
  "attrs_min name = fmupd ''objectKind'' ''Secret'' (fmupd ''objectName'' name fmempty)"

definition config_min :: "string \<Rightarrow> string \<Rightarrow> config" where
  "config_min name ns =
     \<lparr>ObjectKind = ''Secret'', ObjectName = name, LeaseName = ''roommate-'' @ name, Namespace = ns,
      FileMode = 0x180, DirMode = 0x1C0, UID = 0, GID = 0,
      StalenessBound = DefaultStalenessBound, LeaseDuration = DefaultLeaseDuration\<rparr>"

lemma ParseConfig_min:
  "namespace \<noteq> '''' \<Longrightarrow> dns name = [] \<Longrightarrow>
   ParseConfig dns (attrs_min name) namespace = Inr (config_min name namespace)"
  by (simp add: ParseConfig_def attrs_min_def KindSecret_def leaseNameOf_def parseMode_def
      parseUint32_def parseSeconds_def config_min_def)

theorem ParseConfig_sound_witness:
  "Namespace (config_min ''creds'' ''app'') = ''app'' \<and> LeaseName (config_min ''creds'' ''app'') = ''roommate-creds''"
proof -
  have p: "ParseConfig (\<lambda>_. []) (attrs_min ''creds'') ''app'' = Inr (config_min ''creds'' ''app'')"
    by (rule ParseConfig_min) simp_all
  have "attr_get (attrs_min ''creds'') ''leaseName'' = ''''" by (simp add: attrs_min_def)
  with ParseConfig_sound [OF p] show ?thesis by (simp add: config_min_def)
qed

text \<open>The default lease name is not checked, and it can be invalid: a valid object name within
  nine octets of the length limit parses, with a lease name that the same check refuses. (The limit
  is what the validation documents: a name of more than 253 octets is refused.)\<close>

theorem default_lease_name_can_be_invalid:
  assumes "dns name = []" and "length name > 244" and "namespace \<noteq> ''''"
    and "\<And>n. length n > 253 \<Longrightarrow> dns n \<noteq> []"
  shows "\<exists>cfg. ParseConfig dns (attrs_min name) namespace = Inr cfg \<and> dns (LeaseName cfg) \<noteq> []"
proof -
  have "LeaseName (config_min name namespace) = ''roommate-'' @ name" by (simp add: config_min_def)
  then have "length (LeaseName (config_min name namespace)) > 253" using assms(2) by simp
  with ParseConfig_min [of namespace dns name] assms(1,3,4) show ?thesis by blast
qed

theorem default_lease_name_can_be_invalid_witness:
  "\<exists>cfg. ParseConfig (\<lambda>n. if length n > 253 then [''too long''] else [])
      (attrs_min (replicate 250 (CHR ''a''))) ''app'' = Inr cfg \<and>
    (if length (LeaseName cfg) > 253 then [''too long''] else []) \<noteq> []"
  by (rule default_lease_name_can_be_invalid [of "\<lambda>n. if length n > 253 then [''too long''] else []"])
    (simp_all add: length_replicate)

section \<open>Durations\<close>

text \<open>A number of seconds is converted exactly as long as it fits, that is up to 9223372036;
  the result is then a positive duration.\<close>

theorem parseSeconds_exact:
  assumes "fmlookup attr key = Some raw" and "Atoi raw = Some n" and "0 < n" and "n \<le> 9223372036"
  shows "parseSeconds attr key d = Inr (n * second) \<and> 0 < n * second"
proof -
  have "raw \<noteq> ''''" using assms(2) by (auto simp: Atoi_def Let_def)
  moreover have "wrap64 (n * second) = n * second"
    by (rule wrap64_id) (use assms(3,4) in \<open>simp_all add: second_def\<close>)
  ultimately show ?thesis using assms by (simp add: parseSeconds_def second_def)
qed

lemma Atoi_20: "Atoi ''20'' = Some 20"
  by (simp add: Atoi_def Let_def digit_value_def)

theorem parseSeconds_exact_witness:
  "parseSeconds (fmupd ''leaseDurationSeconds'' ''20'' fmempty) ''leaseDurationSeconds'' 0 = Inr (20 * second)"
  using parseSeconds_exact [of "fmupd ''leaseDurationSeconds'' ''20'' fmempty" "''leaseDurationSeconds''" "''20''" 20 0]
    Atoi_20 by simp

text \<open>C23: what a positive number of seconds becomes: the one 64-bit value that is congruent to its product
  with \<open>time.Second\<close>. That is the duration that was asked for exactly up to 9223372036; above that the
  check for a positive number has passed and the product wraps, first to a negative duration.\<close>

theorem parseSeconds_bound:
  assumes "fmlookup attr key = Some raw" and "Atoi raw = Some n" and "0 < n"
  shows "\<exists>v. parseSeconds attr key d = Inr v \<and> - (2 ^ 63) \<le> v \<and> v < 2 ^ 63 \<and> 2 ^ 64 dvd n * second - v \<and>
    (v = n * second \<longleftrightarrow> n \<le> 9223372036) \<and> (9223372036 < n \<and> n \<le> 18446744073 \<longrightarrow> v < 0)"
proof -
  let ?v = "wrap64 (n * second)"
  have "raw \<noteq> ''''" using assms(2) by (auto simp: Atoi_def Let_def)
  with assms have p: "parseSeconds attr key d = Inr ?v" by (simp add: parseSeconds_def second_def)
  have b: "- (2 ^ 63) \<le> wrap64 x" "wrap64 x < 2 ^ 63" for x by (simp_all add: wrap64_def algebra_simps)
  have c: "2 ^ 64 dvd x - wrap64 x" for x
    by (simp add: wrap64_def minus_mod_eq_div_mult [symmetric] algebra_simps)
  have exact: "?v = n * second \<longleftrightarrow> n \<le> 9223372036"
  proof
    assume "?v = n * second"
    with b(2) [of "n * second"] show "n \<le> 9223372036" by (simp add: second_def)
  next
    assume "n \<le> 9223372036"
    with assms(3) show "?v = n * second" by (intro wrap64_id) (simp_all add: second_def)
  qed
  have "?v < 0" if "9223372036 < n \<and> n \<le> 18446744073"
  proof -
    have "2 ^ 64 \<le> n * second + 2 ^ 63" "n * second + 2 ^ 63 < 2 * 2 ^ 64" "n * second < 2 ^ 64"
      using that by (auto simp: second_def)
    then show ?thesis by (simp add: wrap64_def mod_pos_geq)
  qed
  with p b c exact show ?thesis by blast
qed

text \<open>A week more than 292 years: accepted, and negative.\<close>

theorem parseSeconds_bound_witness:
  "\<exists>v. parseSeconds (fmupd ''leaseDurationSeconds'' ''9223976836'' fmempty) ''leaseDurationSeconds'' 0 = Inr v \<and>
    v < 0 \<and> 2 ^ 64 dvd 9223976836 * second - v"
proof -
  have "Atoi ''9223976836'' = Some 9223976836" by (simp add: Atoi_def Let_def digit_value_def)
  from parseSeconds_bound [OF _ this, of "fmupd ''leaseDurationSeconds'' ''9223976836'' fmempty" "''leaseDurationSeconds''" 0]
  show ?thesis by auto
qed

text \<open>Beyond that the multiplication wraps: 18446744074 seconds, some 585 years, are accepted
  as less than a third of a second, and the lease stamps 0 seconds.\<close>

theorem parseSeconds_wraps:
  "parseSeconds (fmupd ''leaseDurationSeconds'' ''18446744074'' fmempty) ''leaseDurationSeconds'' d
     = Inr 290448384 \<and>
   duration_secs (NewLeaseManager ns name holder 290448384) = 0"
proof -
  have "Atoi ''18446744074'' = Some 18446744074"
    by (simp add: Atoi_def Let_def digit_value_def)
  then show ?thesis
    by (simp add: parseSeconds_def wrap64_def second_def duration_secs_def NewLeaseManager_def wrap32_def)
qed

section \<open>Holder identities\<close>

lemma decimal_no_colon: "CHR '':'' \<notin> set (decimal n)"
proof
  assume "CHR '':'' \<in> set (decimal n)"
  from decimal_chars [OF this] show False by simp
qed

lemma append_sep_inject:
  assumes "x \<notin> set bs" "x \<notin> set ds" "as @ x # bs = cs @ x # ds"
  shows "as = cs \<and> bs = ds"
proof -
  have tw: "takeWhile (\<lambda>y. y \<noteq> x) (rev (us @ x # vs)) = rev vs" if "x \<notin> set vs" for us vs
    unfolding rev_append rev.simps append_assoc by (subst takeWhile_append2) (use that in auto)
  have "bs = ds" using tw [OF assms(1), of as] tw [OF assms(2), of cs] assms(3) by simp
  with assms(3) show ?thesis by simp
qed

lemma holder_of_inject: "holder_of u s = holder_of u' s' \<longleftrightarrow> u = u' \<and> s = s'"
proof
  assume "holder_of u s = holder_of u' s'"
  then have "u @ CHR '':'' # decimal (unat s) = u' @ CHR '':'' # decimal (unat s')"
    by (simp add: holder_of_def)
  from append_sep_inject [OF decimal_no_colon decimal_no_colon this]
  show "u = u' \<and> s = s'" by (simp add: decimal_inject word_unat_eq_iff)
qed simp

text \<open>The managers of the next \<open>n\<close> handles of a volume.\<close>

fun take_leases :: "nat \<Rightarrow> volume \<Rightarrow> manager list" where
  "take_leases 0 v = []"
| "take_leases (Suc n) v = (case NewLease v of (m, v') \<Rightarrow> m # take_leases n v')"

lemma take_leases_holders:
  "map m_holder (take_leases n v) = map (\<lambda>i. holder_of (v_podUID v) (v_holderSeq v + of_nat (Suc i))) [0..<n]"
proof (induction n arbitrary: v)
  case 0
  then show ?case by simp
next
  case (Suc n)
  have up: "[0..<Suc n] = 0 # map Suc [0..<n]" by (simp add: map_Suc_upt upt_conv_Cons)
  show ?case unfolding up by (simp add: NewLease_def Let_def Suc NewLeaseManager_def o_def ac_simps)
qed

text \<open>The handles of one volume never share a holder identity, until the 64-bit counter comes
  round; and identities of different pods are different whatever the counters are.\<close>

theorem holders_distinct:
  assumes "n < 2 ^ 64"
  shows "distinct (map m_holder (take_leases n v)) \<and>
    (v_podUID v \<noteq> v_podUID v' \<longrightarrow>
      set (map m_holder (take_leases n v)) \<inter> set (map m_holder (take_leases k v')) = {})"
proof
  have "inj_on (\<lambda>i. of_nat (Suc i) :: 64 word) {..<n}"
  proof (rule inj_onI)
    fix i j
    assume "i \<in> {..<n}" "j \<in> {..<n}" and eq: "(of_nat (Suc i) :: 64 word) = of_nat (Suc j)"
    then have "(of_nat i :: 64 word) = of_nat j" by simp
    then have "unat (of_nat i :: 64 word) = unat (of_nat j :: 64 word)" by simp
    moreover have "i < 2 ^ 64" "j < 2 ^ 64"
      using \<open>i \<in> {..<n}\<close> \<open>j \<in> {..<n}\<close> assms by simp_all
    ultimately show "i = j" by (simp add: unat_of_nat take_bit_eq_mod)
  qed
  then show "distinct (map m_holder (take_leases n v))"
    unfolding take_leases_holders distinct_map by (auto simp: inj_on_def holder_of_inject)
  show "v_podUID v \<noteq> v_podUID v' \<longrightarrow>
      set (map m_holder (take_leases n v)) \<inter> set (map m_holder (take_leases k v')) = {}"
    unfolding take_leases_holders by (auto simp: holder_of_inject)
qed

definition volume_min :: "string \<Rightarrow> string \<Rightarrow> volume" where
  "volume_min name podUID =
     \<lparr>v_cfg = config_min name ''app'', v_cache = NewCache (SecretStore ''app'' name) DefaultStalenessBound,
      v_holderSeq = 0, v_podUID = podUID, v_acquiring = False\<rparr>"

theorem holders_distinct_witness:
  "distinct (map m_holder (take_leases 3 (volume_min ''creds'' ''uid-1'')))"
proof -
  have "(3 :: nat) < 2 ^ 64" by simp
  from holders_distinct [OF this] show ?thesis by blast
qed

text \<open>The identity does not tell two volumes of one pod apart: the first handles of two volumes
  with the same lease (the same Secret mounted twice, say) have the same identity, so the second one
  claims the lease while the first holds it, and both managers are healthy at once.\<close>

theorem two_volumes_share_the_lock:
  assumes "lease_server K (Namespace (v_cfg v1)) (LeaseName (v_cfg v1)) up view" and "up w" and "view w = None"
    and "v_podUID v2 = v_podUID v1" and "v_holderSeq v2 = v_holderSeq v1"
    and "Namespace (v_cfg v2) = Namespace (v_cfg v1)" and "LeaseName (v_cfg v2) = LeaseName (v_cfg v1)"
    and "NewLease v1 = (A, v1')" and "NewLease v2 = (B, v2')"
  shows "\<exists>A1 w1 B1 w2. TryAcquire K (Some False) A w = (Inr True, A1, w1) \<and> Healthy A1 \<and>
    TryAcquire K (Some False) B w1 = (Inr True, B1, w2) \<and> Healthy B1 \<and> m_holder B1 = m_holder A1"
proof -
  have A: "m_ns A = Namespace (v_cfg v1)" "m_name A = LeaseName (v_cfg v1)" "\<not> m_held A"
    and B: "m_ns B = Namespace (v_cfg v1)" "m_name B = LeaseName (v_cfg v1)" "\<not> m_held B"
    and h: "m_holder B = m_holder A"
    using assms(4-9) by (auto simp: NewLease_def Let_def NewLeaseManager_def)
  obtain w1 where 1: "TryAcquire K (Some False) A w = (Inr True, startRenewal A, w1)" "up w1" "owns A (view w1)"
    using TryAcquire_free [of K A up view w "Some False"] assms(1-3) A by auto
  have "\<exists>l. view w1 = Some l \<and> \<not> foreign B l"
    using 1(3) h by (auto simp: owns_def foreign_def)
  then obtain w2 where 2: "TryAcquire K (Some False) B w1 = (Inr True, startRenewal B, w2)"
    using TryAcquire_free [of K B up view w1 "Some False"] assms(1) B 1(2) by auto
  have "Healthy (startRenewal A)" "Healthy (startRenewal B)" "m_holder (startRenewal B) = m_holder (startRenewal A)"
    using A B h by (simp_all add: startRenewal_def Healthy_def)
  with 1 2 show ?thesis by blast
qed

theorem two_volumes_share_the_lock_witness:
  "\<exists>A1 w1 B1 w2.
    TryAcquire ref_kube (Some False) (fst (NewLease (volume_min ''creds'' ''uid''))) world0 = (Inr True, A1, w1) \<and>
    Healthy A1 \<and>
    TryAcquire ref_kube (Some False) (fst (NewLease (volume_min ''creds'' ''uid''))) w1 = (Inr True, B1, w2) \<and>
    Healthy B1 \<and> m_holder B1 = m_holder A1"
  by (rule two_volumes_share_the_lock [where ?v1.0 = "volume_min ''creds'' ''uid''" and ?v2.0 = "volume_min ''creds'' ''uid''",
      OF ref_lease_server _ _ _ _ _ _ prod.collapse [symmetric] prod.collapse [symmetric]])
    (simp_all add: world0_def)

end
