(* ===== verification/Handles.thy ===== *)
theory Handles
  imports Volumes
begin

text \<open>
  \<open>pkg/objectfs/handle.go\<close>: one open file description, with the content pinned at open, the
  uncommitted write buffer and the lease. The volume a handle points to is passed along and returned.
  A Go panic is \<open>None\<close>, and so is a blocking lock that never returns.
\<close>

unbundle bit_operations_syntax

record handle =
  h_key :: string
  h_snap :: "snapshot option"
  h_buf :: bytes
  h_dirty :: bool
  h_lease :: "manager option"

definition newHandle :: "string \<Rightarrow> snapshot option \<Rightarrow> bytes \<Rightarrow> handle" where
  "newHandle key snap value =
     \<lparr>h_key = key, h_snap = snap, h_buf = value, h_dirty = False, h_lease = None\<rparr>"

definition errnoFor :: "err \<Rightarrow> errno" where
  "errnoFor e =
     (if e = ErrTooLarge then ENOSPC
      else if e = ErrLeaseLost then EIO
      else if e = Forbidden \<or> e = Unauthorized then EACCES
      else if e = NotFound then ENOENT
      else if e = EntityTooLarge then ENOSPC
      else EIO)"

section \<open>Reading and writing the buffer\<close>

text \<open>\<open>n\<close> is \<open>len(dest)\<close>. An offset inside the buffer plus the length of a request is far from the
  64-bit limit, so the sum does not wrap.\<close>

definition handle_Read :: "handle \<Rightarrow> nat \<Rightarrow> int \<Rightarrow> bytes" where
  "handle_Read h n off =
     (if off < 0 \<or> off \<ge> int (length (h_buf h)) then []
      else let e = off + int n;
               e' = (if e > int (length (h_buf h)) then int (length (h_buf h)) else e)
           in take (nat e' - nat off) (drop (nat off) (h_buf h)))"

text \<open>\<open>make\<close> panics on a length that cannot be allocated, and slicing \<open>next[off:]\<close> panics when the
  sum has wrapped and the offset is past the end.\<close>

definition handle_Write :: "handle \<Rightarrow> bytes \<Rightarrow> int \<Rightarrow> (handle \<times> 32 word \<times> errno) option" where
  "handle_Write h data off =
     (if off < 0 then Some (h, 0, EINVAL)
      else let e = wrap64 (off + int (length data));
               sz = (if e > int (length (h_buf h)) then e else int (length (h_buf h)))
           in case make_bytes sz of
             None \<Rightarrow> None
           | Some next \<Rightarrow>
               if off > sz then None
               else Some (h\<lparr>h_buf := copy_at (copy_bytes next (h_buf h)) (nat off) data, h_dirty := True\<rparr>,
                 of_nat (length data), OK))"

definition handle_truncate :: "handle \<Rightarrow> 64 word \<Rightarrow> handle option" where
  "handle_truncate h sz =
     (if wrap64 (uint sz) = int (length (h_buf h)) then Some h
      else case make_bytes (uint sz) of
        None \<Rightarrow> None
      | Some next \<Rightarrow> Some (h\<lparr>h_buf := copy_bytes next (h_buf h), h_dirty := True\<rparr>))"

section \<open>Committing\<close>

text \<open>\<open>commit\<close> takes the value and the lease under the mutex, commits without it, and takes it again
  to clear \<open>dirty\<close>: the two critical sections are \<open>commit_begin\<close> and \<open>commit_end\<close>.\<close>

definition commit_begin :: "handle \<Rightarrow> (bytes \<times> manager option) option" where
  "commit_begin h = (if \<not> h_dirty h then None else Some (h_buf h, h_lease h))"

definition commit_end :: "handle \<Rightarrow> handle" where
  "commit_end h = h\<lparr>h_dirty := False\<rparr>"

definition handle_commit :: "'w kube \<Rightarrow> volume \<Rightarrow> handle \<Rightarrow> 'w \<Rightarrow> errno \<times> volume \<times> handle \<times> 'w" where
  "handle_commit K v h w =
     (case commit_begin h of
        None \<Rightarrow> (OK, v, h, w)
      | Some (value, lease) \<Rightarrow>
          (case Commit K (v_cache v) lease (fmupd (h_key h) (Some value) fmempty) [] w of
             (res, c1, w1) \<Rightarrow>
               (case res of
                  Inl e \<Rightarrow> (errnoFor e, v\<lparr>v_cache := c1\<rparr>, h, w1)
                | Inr _ \<Rightarrow> (OK, v\<lparr>v_cache := c1\<rparr>, commit_end h, w1))))"

definition handle_Flush :: "'w kube \<Rightarrow> volume \<Rightarrow> handle \<Rightarrow> 'w \<Rightarrow> errno \<times> volume \<times> handle \<times> 'w" where
  "handle_Flush K v h w = handle_commit K v h w"

definition handle_Fsync :: "'w kube \<Rightarrow> volume \<Rightarrow> handle \<Rightarrow> 'w \<Rightarrow> errno \<times> volume \<times> handle \<times> 'w" where
  "handle_Fsync K v h w = handle_commit K v h w"

text \<open>Taking the lease out of the handle and releasing it; the release's error is dropped.\<close>

definition drop_lease :: "'w kube \<Rightarrow> handle \<Rightarrow> 'w \<Rightarrow> handle \<times> 'w" where
  "drop_lease K h w =
     (h\<lparr>h_lease := None\<rparr>,
      case h_lease h of None \<Rightarrow> w | Some m \<Rightarrow> snd (snd (lease_Release K m w)))"

definition handle_Release :: "'w kube \<Rightarrow> volume \<Rightarrow> handle \<Rightarrow> 'w \<Rightarrow> errno \<times> volume \<times> handle \<times> 'w" where
  "handle_Release K v h w =
     (case handle_commit K v h w of (errno, v1, h1, w1) \<Rightarrow>
        case drop_lease K h1 w1 of (h2, w2) \<Rightarrow> (errno, v1, h2, w2))"

definition handle_unlock :: "'w kube \<Rightarrow> volume \<Rightarrow> handle \<Rightarrow> 'w \<Rightarrow> errno \<times> volume \<times> handle \<times> 'w" where
  "handle_unlock K v h w =
     (case handle_commit K v h w of (errno, v1, h1, w1) \<Rightarrow>
        case drop_lease K h1 w1 of (h2, w2) \<Rightarrow> (errno, v1, h2, w2))"

section \<open>Locking\<close>

datatype lock_type = F_RDLCK | F_WRLCK | F_UNLCK

text \<open>The FUSE protocol's flag for a whole-file \<open>flock(2)\<close>.\<close>

definition FUSE_LK_FLOCK :: "32 word" where
  "FUSE_LK_FLOCK = 1"

text \<open>The last part of \<open>setlk\<close>: the lease is installed; a clean handle is pinned again to the
  snapshot of the quorum read, a vanished key becoming an empty buffer.\<close>

definition pin_fresh :: "handle \<Rightarrow> manager \<Rightarrow> snapshot \<Rightarrow> handle" where
  "pin_fresh h lease snap =
     (let h1 = h\<lparr>h_lease := Some lease\<rparr> in
      if h_dirty h then h1
      else h1\<lparr>h_snap := Some snap,
             h_buf := (case snap_Get snap (h_key h) of Some value \<Rightarrow> value | None \<Rightarrow> [])\<rparr>)"

definition setlk_fresh :: "'w kube \<Rightarrow> volume \<Rightarrow> handle \<Rightarrow> manager \<Rightarrow> 'w \<Rightarrow> errno \<times> volume \<times> handle \<times> 'w" where
  "setlk_fresh K v h lease w =
     (case cache_Fresh K (v_cache v) w of
        (res, c1, w1) \<Rightarrow>
          (case res of
             Inl e \<Rightarrow> (errnoFor e, v\<lparr>v_cache := c1\<rparr>, h, snd (snd (lease_Release K lease w1)))
           | Inr snap \<Rightarrow> (OK, v\<lparr>v_cache := c1\<rparr>, pin_fresh h lease snap, w1)))"

definition setlk ::
  "'w kube \<Rightarrow> lock_type \<Rightarrow> 32 word \<Rightarrow> bool \<Rightarrow> volume \<Rightarrow> handle \<Rightarrow> 'w
    \<Rightarrow> (errno \<times> volume \<times> handle \<times> 'w) option" where
  "setlk K typ flags blocking v h w =
     (if flags AND FUSE_LK_FLOCK = 0 then Some (ENOTSUP, v, h, w)
      else if typ = F_UNLCK then Some (handle_unlock K v h w)
      else if h_lease h \<noteq> None then Some (OK, v, h, w)
      else case NewLease v of (lease, v1) \<Rightarrow>
        if blocking
        then Option.bind (Acquire K (Some (v_acquiring v1)) lease w) (\<lambda>(res, lease1, w1).
          case res of
            Inl e \<Rightarrow> Some (if ctx_err K w1 then EINTR else errnoFor e, v1, h, w1)
          | Inr _ \<Rightarrow> Some (setlk_fresh K v1 h lease1 w1))
        else
          (case TryAcquire K (Some (v_acquiring v1)) lease w of (res, lease1, w1) \<Rightarrow>
            case res of
              Inl e \<Rightarrow> Some (errnoFor e, v1, h, w1)
            | Inr ok \<Rightarrow>
                if \<not> ok then Some (EWOULDBLOCK, v1, h, w1)
                else Some (setlk_fresh K v1 h lease1 w1)))"

definition Setlk ::
  "'w kube \<Rightarrow> lock_type \<Rightarrow> 32 word \<Rightarrow> volume \<Rightarrow> handle \<Rightarrow> 'w \<Rightarrow> (errno \<times> volume \<times> handle \<times> 'w) option" where
  "Setlk K typ flags v h w = setlk K typ flags False v h w"

definition Setlkw ::
  "'w kube \<Rightarrow> lock_type \<Rightarrow> 32 word \<Rightarrow> volume \<Rightarrow> handle \<Rightarrow> 'w \<Rightarrow> (errno \<times> volume \<times> handle \<times> 'w) option" where
  "Setlkw K typ flags v h w = setlk K typ flags True v h w"

section \<open>The buffer\<close>

lemma handle_Write_ok:
  assumes "0 \<le> off" "off + int (length data) \<le> max_alloc" "int (length (h_buf h)) \<le> max_alloc"
  shows "handle_Write h data off =
    Some (h\<lparr>h_buf := copy_at (copy_bytes (replicate (max (nat off + length data) (length (h_buf h))) (CHR 0x00))
        (h_buf h)) (nat off) data, h_dirty := True\<rparr>, of_nat (length data), OK)"
proof -
  obtain k where k: "off = int k" using zero_le_imp_eq_int [OF assms(1)] by blast
  let ?e = "off + int (length data)" and ?n = "int (length (h_buf h))"
  have w: "wrap64 ?e = ?e"
    by (rule wrap64_id) (use assms in \<open>simp_all add: max_alloc_def\<close>)
  have sz: "(if ?e > ?n then ?e else ?n) = int (max (nat off + length data) (length (h_buf h)))"
    by (simp add: max_def k)
  have "off \<le> int (max (nat off + length data) (length (h_buf h)))"
    by (simp add: max_def k)
  with assms show ?thesis
    by (simp add: handle_Write_def w sz make_bytes_def Let_def)
qed

lemma handle_Write_result:
  assumes "0 \<le> off" and "off + int (length data) \<le> max_alloc" and "int (length (h_buf h)) \<le> max_alloc"
  shows "\<exists>h'. handle_Write h data off = Some (h', of_nat (length data), OK) \<and> h_dirty h' \<and>
    length (h_buf h') = max (nat off + length data) (length (h_buf h)) \<and>
    (\<forall>i < length (h_buf h'). h_buf h' ! i =
      (if nat off \<le> i \<and> i < nat off + length data then data ! (i - nat off)
       else if i < length (h_buf h) then h_buf h ! i else CHR 0x00))"
proof -
  define n where "n = max (nat off + length data) (length (h_buf h))"
  have "nat off \<le> n" "length (h_buf h) \<le> n" by (simp_all add: n_def)
  then show ?thesis
    unfolding handle_Write_ok [OF assms] n_def [symmetric]
    by (auto simp: nth_copy_at nth_copy_bytes)
qed

text \<open>What a write does to the buffer, at any offset that can be allocated: it succeeds and
  reports all octets; the buffer is as long as it needs to be; the written range holds the data, old
  octets outside it are kept, and a gap between the old end and the offset is zero.\<close>

theorem Write_buffer:
  assumes "0 \<le> off" and "off + int (length data) \<le> max_alloc" and "int (length (h_buf h)) \<le> max_alloc"
  shows "\<exists>h'. handle_Write h data off = Some (h', of_nat (length data), OK) \<and> h_dirty h' \<and>
    length (h_buf h') = max (nat off + length data) (length (h_buf h)) \<and>
    (\<forall>i < length (h_buf h'). h_buf h' ! i =
      (if nat off \<le> i \<and> i < nat off + length data then data ! (i - nat off)
       else if i < length (h_buf h) then h_buf h ! i else CHR 0x00))"
  using assms by (rule handle_Write_result)

lemma Read_back:
  assumes "0 \<le> off" and "off + int (length data) \<le> max_alloc" and "int (length (h_buf h)) \<le> max_alloc"
    and "handle_Write h data off = Some (h', n, OK)"
  shows "handle_Read h' (length data) off = data"
proof -
  from handle_Write_result [OF assms(1-3)] assms(4)
  have len: "length (h_buf h') = max (nat off + length data) (length (h_buf h))"
    and nth: "\<And>i. i < length data \<Longrightarrow> h_buf h' ! (nat off + i) = data ! i" by auto
  have eq: "take (length data) (drop (nat off) (h_buf h')) = data"
    by (rule nth_equalityI) (simp_all add: len nth)
  show ?thesis
  proof (cases "data = []")
    case True
    then show ?thesis by (simp add: handle_Read_def)
  next
    case False
    obtain k where k: "off = int k" using zero_le_imp_eq_int [OF assms(1)] by blast
    have "nat (int k + int (length data)) = k + length data" by (simp add: nat_add_distrib)
    moreover have "k < length (h_buf h')" "k + length data \<le> length (h_buf h')"
      using False by (cases data; simp add: len k max_def; fail)+
    ultimately show ?thesis using eq by (simp add: handle_Read_def Let_def k)
  qed
qed

text \<open>Reading back what was written gives the data.\<close>

theorem Read_after_Write:
  assumes "0 \<le> off" and "off + int (length data) \<le> max_alloc" and "int (length (h_buf h)) \<le> max_alloc"
    and "handle_Write h data off = Some (h', n, OK)"
  shows "handle_Read h' (length data) off = data"
  using assms by (rule Read_back)

definition demo_handle :: handle where
  "demo_handle = newHandle ''k'' (Some demo_snap) ''old''"

theorem Write_buffer_witness:
  "\<exists>h'. handle_Write demo_handle ''XY'' 5 = Some (h', 2, OK) \<and> length (h_buf h') = 7"
  using Write_buffer [of 5 "''XY''" demo_handle]
  by (auto simp: demo_handle_def newHandle_def max_alloc_def)

theorem Read_after_Write_witness:
  "\<exists>h' n. handle_Write demo_handle ''XY'' 1 = Some (h', n, OK) \<and> handle_Read h' 2 1 = ''XY''"
proof -
  obtain h' where w: "handle_Write demo_handle ''XY'' 1 = Some (h', of_nat (length ''XY''), OK)"
    using handle_Write_result [of 1 "''XY''" demo_handle] by (auto simp: demo_handle_def newHandle_def max_alloc_def)
  have "handle_Read h' (length ''XY'') 1 = ''XY''"
    by (rule Read_after_Write [OF _ _ _ w]) (simp_all add: demo_handle_def newHandle_def max_alloc_def)
  with w show ?thesis by (auto simp: numeral_2_eq_2)
qed

text \<open>A write beyond what can be allocated does not fail with an error number: it panics. The
  size ceiling is only checked at commit.\<close>

theorem Write_far_panics:
  assumes "max_alloc < off" and "off < 2 ^ 63" and "0 < length data" and "length data < 2 ^ 62"
    and "int (length (h_buf h)) \<le> max_alloc"
  shows "handle_Write h data off = None"
proof (cases "off + int (length data) < 2 ^ 63")
  case True
  then have w: "wrap64 (off + int (length data)) = off + int (length data)"
    using assms(1) by (intro wrap64_id) (simp_all add: max_alloc_def)
  then show ?thesis using assms(1,5)
    by (simp add: handle_Write_def Let_def make_bytes_def max_alloc_def)
next
  case False
  let ?e = "off + int (length data)"
  have "?e + 2 ^ 63 < 2 * 2 ^ 64" "2 ^ 64 \<le> ?e + 2 ^ 63" using False assms(2,4) by auto
  then have "(?e + 2 ^ 63) mod 2 ^ 64 = ?e + 2 ^ 63 - 2 ^ 64"
    by (simp add: mod_pos_geq)
  with assms(2,4) have "wrap64 ?e < 0" by (simp add: wrap64_def)
  then have "\<not> wrap64 ?e > int (length (h_buf h))" by linarith
  with assms(1,5) show ?thesis
    by (simp add: handle_Write_def Let_def make_bytes_def max_alloc_def)
qed

theorem Write_far_panics_witness: "handle_Write demo_handle ''X'' (2 ^ 50) = None"
  by (rule Write_far_panics) (simp_all add: demo_handle_def newHandle_def max_alloc_def)

lemma handle_truncate_result:
  assumes "uint sz \<le> max_alloc"
  shows "\<exists>h'. handle_truncate h sz = Some h' \<and> length (h_buf h') = unat sz \<and>
    (h_dirty h' \<longleftrightarrow> h_dirty h \<or> unat sz \<noteq> length (h_buf h)) \<and>
    (\<forall>i < unat sz. h_buf h' ! i = (if i < length (h_buf h) then h_buf h ! i else CHR 0x00))"
proof -
  define k where "k = unat sz"
  have u: "uint sz = int k" by (simp add: k_def)
  have "int k \<le> max_alloc" using assms by (simp only: u)
  then have "wrap64 (int k) = int k"
    by (intro wrap64_id) (simp_all add: max_alloc_def)
  with \<open>int k \<le> max_alloc\<close> have eq: "handle_truncate h sz =
     (if k = length (h_buf h) then Some h
      else Some (h\<lparr>h_buf := copy_bytes (replicate k (CHR 0x00)) (h_buf h), h_dirty := True\<rparr>))"
    by (simp add: handle_truncate_def u make_bytes_def)
  show ?thesis unfolding eq k_def [symmetric] by (auto simp: nth_copy_bytes)
qed

text \<open>Resizing keeps the common prefix, zero-fills the rest, and marks the handle dirty exactly
  if the length changes.\<close>

theorem truncate_buffer:
  assumes "uint sz \<le> max_alloc"
  shows "\<exists>h'. handle_truncate h sz = Some h' \<and> length (h_buf h') = unat sz \<and>
    (h_dirty h' \<longleftrightarrow> h_dirty h \<or> unat sz \<noteq> length (h_buf h)) \<and>
    (\<forall>i < unat sz. h_buf h' ! i = (if i < length (h_buf h) then h_buf h ! i else CHR 0x00))"
  using assms by (rule handle_truncate_result)

theorem truncate_buffer_witness:
  "\<exists>h'. handle_truncate demo_handle 5 = Some h' \<and> length (h_buf h') = 5 \<and> h_dirty h'"
  using truncate_buffer [of "5 :: 64 word" demo_handle]
  by (auto simp: demo_handle_def newHandle_def max_alloc_def)

section \<open>The cluster around a volume\<close>

text \<open>
  What the lock protocol needs of the cluster while nobody else writes: the object and the Lease are
  each served as documented, and they are different resources, so the calls on one do not change
  what is stored of the other.
\<close>

definition lease_calls_keep :: "'w kube \<Rightarrow> string \<Rightarrow> string \<Rightarrow> ('w \<Rightarrow> bool) \<Rightarrow> ('w \<Rightarrow> 'a) \<Rightarrow> bool" where
  "lease_calls_keep K ns name up obs \<longleftrightarrow>
     (\<forall>w. up w \<longrightarrow> obs (snd (get_lease K ns name w)) = obs w) \<and>
     (\<forall>w l. up w \<longrightarrow> obs (snd (create_lease K ns name l w)) = obs w) \<and>
     (\<forall>w l. up w \<longrightarrow> obs (snd (update_lease K ns name l w)) = obs w)"

definition object_calls_keep :: "'w kube \<Rightarrow> store \<Rightarrow> ('w \<Rightarrow> bool) \<Rightarrow> ('w \<Rightarrow> 'a) \<Rightarrow> bool" where
  "object_calls_keep K st up obs \<longleftrightarrow>
     (\<forall>w. up w \<longrightarrow> obs (snd (store_Get K st w)) = obs w) \<and>
     (\<forall>w puts del. up w \<longrightarrow> obs (snd (store_Patch K st puts del w)) = obs w)"

definition cluster ::
  "'w kube \<Rightarrow> store \<Rightarrow> string \<Rightarrow> string \<Rightarrow> ('w \<Rightarrow> bool) \<Rightarrow> ('w \<Rightarrow> data) \<Rightarrow> ('w \<Rightarrow> lease option) \<Rightarrow> bool" where
  "cluster K st ns name up contents lview \<longleftrightarrow>
     backed_by K st up contents \<and> lease_server K ns name up lview \<and>
     lease_calls_keep K ns name up contents \<and> object_calls_keep K st up lview"

text \<open>A volume on that object and that Lease.\<close>

definition volume_on :: "volume \<Rightarrow> store \<Rightarrow> string \<Rightarrow> string \<Rightarrow> bool" where
  "volume_on v st ns name \<longleftrightarrow>
     c_store (v_cache v) = st \<and> Namespace (v_cfg v) = ns \<and> LeaseName (v_cfg v) = name"

definition lock_free :: "manager \<Rightarrow> lease option \<Rightarrow> bool" where
  "lock_free m l \<longleftrightarrow> (\<forall>cur. l = Some cur \<longrightarrow> \<not> foreign m cur)"

lemma NewLease_fields:
  assumes "NewLease v = (m, v1)"
  shows "m_ns m = Namespace (v_cfg v)" "m_name m = LeaseName (v_cfg v)" "\<not> m_held m"
    "v_cache v1 = v_cache v" "v_cfg v1 = v_cfg v" "v_acquiring v1 = v_acquiring v"
  using assms by (auto simp: NewLease_def NewLeaseManager_def Let_def)

lemma TryAcquire_keeps:
  assumes srv: "lease_server K (m_ns m) (m_name m) up lview"
    and k: "lease_calls_keep K (m_ns m) (m_name m) up obs" and "up w"
  shows "obs (snd (snd (TryAcquire K mu m w))) = obs w"
proof -
  obtain w1 where g: "get_lease K (m_ns m) (m_name m) w =
      (case lview w of None \<Rightarrow> Inl NotFound | Some l \<Rightarrow> Inr l, w1)" "up w1"
    by (rule lease_server_get [OF srv \<open>up w\<close>])
  have o: "obs w1 = obs w" using k \<open>up w\<close> g(1) unfolding lease_calls_keep_def by (metis snd_conv)
  obtain r2 w2 where c: "lease_create K m w1 = (r2, w2)" by (cases "lease_create K m w1")
  have o2: "obs w2 = obs w1" using k g(2) c unfolding lease_calls_keep_def lease_create_def by (metis snd_conv)
  show ?thesis
  proof (cases "lview w")
    case None
    then show ?thesis using g(1) c o o2 by (cases r2) (simp_all add: TryAcquire_def)
  next
    case (Some l)
    obtain b m1 where cl: "claimable m (api_now K w1) l = (b, m1)" by (cases "claimable m (api_now K w1) l")
    then have m1: "m_ns m1 = m_ns m" "m_name m1 = m_name m"
      using claimable_fields(4,5) [of m "api_now K w1" l] by simp_all
    obtain r3 w3 where t: "takeOver K m1 l w1 = (r3, w3)" by (cases "takeOver K m1 l w1")
    have "obs w3 = obs w1"
      using k g(2) t unfolding lease_calls_keep_def takeOver_def m1 by (metis snd_conv)
    with g(1) Some cl t o show ?thesis by (cases r3) (simp_all add: TryAcquire_def)
  qed
qed

lemma lease_Release_keeps:
  assumes srv: "lease_server K (m_ns m) (m_name m) up lview"
    and k: "lease_calls_keep K (m_ns m) (m_name m) up obs" and "up w"
  shows "obs (snd (snd (lease_Release K m w))) = obs w"
proof -
  obtain w1 where g: "get_lease K (m_ns m) (m_name m) w =
      (case lview w of None \<Rightarrow> Inl NotFound | Some l \<Rightarrow> Inr l, w1)" "up w1"
    by (rule lease_server_get [OF srv \<open>up w\<close>])
  have o: "obs w1 = obs w" using k \<open>up w\<close> g(1) unfolding lease_calls_keep_def by (metis snd_conv)
  obtain r2 w2 where u: "update_lease K (m_ns m) (m_name m) (clear_holder (the (lview w))) w1 = (r2, w2)"
    by (cases "update_lease K (m_ns m) (m_name m) (clear_holder (the (lview w))) w1")
  have "obs w2 = obs w1" using k g(2) u unfolding lease_calls_keep_def by (metis snd_conv)
  with g(1) o u show ?thesis
    by (cases "lview w"; cases r2) (simp_all add: lease_Release_def Let_def)
qed

lemma Commit_keeps:
  assumes "object_calls_keep K (c_store c) up obs" "up w"
  shows "obs (snd (snd (Commit K c lease puts del w))) = obs w"
proof -
  obtain r w1 where p: "store_Patch K (c_store c) puts del w = (r, w1)"
    by (cases "store_Patch K (c_store c) puts del w")
  with assms have "obs w1 = obs w" unfolding object_calls_keep_def by (metis snd_conv)
  with p show ?thesis
    by (cases r) (auto simp: Commit_def split: option.splits sum.splits)
qed

section \<open>Locking\<close>

text \<open>The lock is free for a volume's next manager.\<close>

lemma lock_free_TryAcquire:
  assumes "lease_server K (m_ns m) (m_name m) up lview" "lease_calls_keep K (m_ns m) (m_name m) up obs"
    and "up w" "\<not> m_held m" "lock_free m (lview w)"
  obtains w1 where "TryAcquire K (Some False) m w = (Inr True, startRenewal m, w1)" "up w1"
    "owns m (lview w1)" "obs w1 = obs w"
proof -
  have "lview w = None \<or> (\<exists>l. lview w = Some l \<and> \<not> foreign m l)"
    using assms(5) by (cases "lview w") (simp_all add: lock_free_def)
  with TryAcquire_free [OF assms(1,3,4), of "Some False"] obtain w1 where
    t: "TryAcquire K (Some False) m w = (Inr True, startRenewal m, w1)" "up w1" "owns m (lview w1)" by auto
  with TryAcquire_keeps [OF assms(1-3), of "Some False"] that show ?thesis by simp
qed

lemma Acquire_at_once:
  "TryAcquire K mu m w = (Inr True, m1, w1) \<Longrightarrow> Acquire K mu m w = Some (Inr (), m1, w1)"
  by (subst Acquire.simps) simp

lemma setlk_acquired:
  assumes "flags AND FUSE_LK_FLOCK \<noteq> 0" "typ \<noteq> F_UNLCK" "h_lease h = None" "NewLease v = (m, v1)"
    and "TryAcquire K (Some (v_acquiring v1)) m w = (Inr True, m1, w1)"
  shows "setlk K typ flags blocking v h w = Some (setlk_fresh K v1 h m1 w1)"
  using assms by (simp add: setlk_def Acquire_at_once)

text \<open>The contents of a file, an absent key being the empty file.\<close>

definition file_of :: "data \<Rightarrow> string \<Rightarrow> bytes" where
  "file_of d k = (case fmlookup d k of Some b \<Rightarrow> b | None \<Rightarrow> [])"

lemma pin_fresh_clean:
  "\<not> h_dirty h \<Longrightarrow> h_buf (pin_fresh h m snap) = file_of (Data snap) (h_key h)"
  by (simp add: pin_fresh_def Let_def snap_Get_def file_of_def)

lemma pin_fresh_simps [simp]:
  "h_lease (pin_fresh h m snap) = Some m" "h_key (pin_fresh h m snap) = h_key h"
  "h_dirty (pin_fresh h m snap) = h_dirty h"
  "h_dirty h \<Longrightarrow> h_buf (pin_fresh h m snap) = h_buf h"
  by (simp_all add: pin_fresh_def Let_def)

lemma lock_result:
  assumes cl: "cluster K st ns name up contents lview" and "volume_on v st ns name" and "up w"
    and "flags AND FUSE_LK_FLOCK \<noteq> 0" and "typ \<noteq> F_UNLCK" and "h_lease h = None"
    and "\<not> v_acquiring v" and "lock_free (fst (NewLease v)) (lview w)"
  shows "\<exists>v' h' m w' snap. setlk K typ flags blocking v h w = Some (OK, v', h', w') \<and> up w' \<and>
    h_lease h' = Some m \<and> Healthy m \<and> m_ns m = ns \<and> m_name m = name \<and> c_store (v_cache v') = st \<and> h_key h' = h_key h \<and> owns m (lview w') \<and> contents w' = contents w \<and>
    cache_Current (v_cache v') = Some snap \<and> Data snap = contents w \<and>
    h_buf h' = (if h_dirty h then h_buf h else file_of (contents w) (h_key h))"
proof -
  obtain m v1 where n: "NewLease v = (m, v1)" by (cases "NewLease v")
  note nf = NewLease_fields [OF n]
  have on: "m_ns m = ns" "m_name m = name" "c_store (v_cache v) = st"
    using assms(2) nf by (simp_all add: volume_on_def)
  have srv: "lease_server K (m_ns m) (m_name m) up lview" "lease_calls_keep K (m_ns m) (m_name m) up contents"
    and obj: "backed_by K st up contents" "object_calls_keep K st up lview"
    using cl on by (simp_all add: cluster_def)
  obtain w1 where t: "TryAcquire K (Some False) m w = (Inr True, startRenewal m, w1)" "up w1"
    "owns m (lview w1)" "contents w1 = contents w"
    by (rule lock_free_TryAcquire [OF srv \<open>up w\<close> nf(3)]) (use assms(8) n in simp_all)
  obtain snap w2 where g: "store_Get K st w1 = (Inr snap, w2)" "Data snap = contents w1" "up w2"
    "contents w2 = contents w1" by (rule backed_by_Get [OF obj(1) t(2)])
  have l2: "lview w2 = lview w1"
    using obj(2) t(2) g(1) unfolding object_calls_keep_def by (metis snd_conv)
  have "setlk K typ flags blocking v h w = Some (setlk_fresh K v1 h (startRenewal m) w1)"
    by (rule setlk_acquired [OF assms(4-6) n]) (use t(1) assms(7) nf in simp)
  also have "setlk_fresh K v1 h (startRenewal m) w1 =
     (OK, v1\<lparr>v_cache := cache_Set (v_cache v1) (api_now K w2) (Some snap)\<rparr>, pin_fresh h (startRenewal m) snap, w2)"
    using g(1) on nf by (simp add: setlk_fresh_def cache_Fresh_def)
  finally have s: "setlk K typ flags blocking v h w =
     Some (OK, v1\<lparr>v_cache := cache_Set (v_cache v1) (api_now K w2) (Some snap)\<rparr>,
       pin_fresh h (startRenewal m) snap, w2)" .
  have "Healthy (startRenewal m)" "owns (startRenewal m) (lview w2)"
    "m_ns (startRenewal m) = ns" "m_name (startRenewal m) = name" "c_store (v_cache v1) = st"
    using nf(3) t(3) l2 on nf by (simp_all add: startRenewal_def Healthy_def owns_def)
  with s g t pin_fresh_clean [of h "startRenewal m" snap] show ?thesis by auto
qed

text \<open>C10: a lock taken on a free Lease, blocking or not, shared or exclusive, comes with the present
  contents: it succeeds, the handle holds a healthy lease that the API names as the holder, the cache
  and a clean handle show what a quorum read returns, whatever stale content they had before, and a
  dirty handle keeps its own uncommitted octets.\<close>

theorem lock_pins_present_contents:
  assumes cl: "cluster K st ns name up contents lview" and "volume_on v st ns name" and "up w"
    and "flags AND FUSE_LK_FLOCK \<noteq> 0" and "typ \<noteq> F_UNLCK" and "h_lease h = None"
    and "\<not> v_acquiring v" and "lock_free (fst (NewLease v)) (lview w)"
  shows "\<exists>v' h' m w' snap. setlk K typ flags blocking v h w = Some (OK, v', h', w') \<and> up w' \<and>
    h_lease h' = Some m \<and> Healthy m \<and> owns m (lview w') \<and> contents w' = contents w \<and>
    cache_Current (v_cache v') = Some snap \<and> Data snap = contents w \<and>
    h_buf h' = (if h_dirty h then h_buf h else file_of (contents w) (h_key h))"
  using lock_result [OF assms] by blast

section \<open>Unlocking\<close>

lemma handle_commit_clean: "\<not> h_dirty h \<Longrightarrow> handle_commit K v h w = (OK, v, h, w)"
  by (simp add: handle_commit_def commit_begin_def)

lemma handle_commit_dirty:
  assumes "h_dirty h"
    and "Commit K (v_cache v) (h_lease h) (fmupd (h_key h) (Some (h_buf h)) fmempty) [] w = (res, c1, w1)"
  shows "handle_commit K v h w =
    (case res of Inl e \<Rightarrow> (errnoFor e, v\<lparr>v_cache := c1\<rparr>, h, w1)
     | Inr _ \<Rightarrow> (OK, v\<lparr>v_cache := c1\<rparr>, h\<lparr>h_dirty := False\<rparr>, w1))"
  using assms by (simp add: handle_commit_def commit_begin_def commit_end_def split: sum.split)

lemma errnoFor_not_OK [simp]: "errnoFor e \<noteq> OK" "OK \<noteq> errnoFor e"
  by (auto simp: errnoFor_def)

lemma with_data_one: "with_data d (fmupd k (Some v) fmempty) [] = fmupd k v d"
  by (rule fmap_ext) (simp add: fmlookup_with_data)

text \<open>What \<open>commit\<close> does to the stored object: nothing for a clean handle and when it fails, which
  keeps the handle dirty; the buffer under the key when it succeeds.\<close>

lemma handle_commit_contents:
  assumes "backed_by K (c_store (v_cache v)) up contents" "up w"
    and "handle_commit K v h w = (errno, v1, h1, w1)"
  shows "up w1 \<and> c_store (v_cache v1) = c_store (v_cache v) \<and> v_cfg v1 = v_cfg v \<and>
    h_lease h1 = h_lease h \<and> h_buf h1 = h_buf h \<and> h_key h1 = h_key h \<and>
    h_dirty h1 = (h_dirty h \<and> errno \<noteq> OK) \<and>
    contents w1 = (if h_dirty h \<and> errno = OK then fmupd (h_key h) (h_buf h) (contents w) else contents w)"
proof (cases "h_dirty h")
  case False
  with assms show ?thesis by (auto simp: handle_commit_clean)
next
  case True
  let ?puts = "fmupd (h_key h) (Some (h_buf h)) fmempty"
  obtain res c1 w' where c: "Commit K (v_cache v) (h_lease h) ?puts [] w = (res, c1, w')"
    by (cases "Commit K (v_cache v) (h_lease h) ?puts [] w")
  from Commit_contents [OF assms(1,2) allocated_upd c] True assms(3)
    handle_commit_dirty [OF True c]
  show ?thesis by (auto simp: with_data_one split: sum.splits)
qed

lemma handle_commit_keeps:
  assumes "object_calls_keep K (c_store (v_cache v)) up obs" "up w"
    and "handle_commit K v h w = (errno, v1, h1, w1)"
  shows "obs w1 = obs w"
proof (cases "h_dirty h")
  case False
  with assms show ?thesis by (auto simp: handle_commit_clean)
next
  case True
  let ?puts = "fmupd (h_key h) (Some (h_buf h)) fmempty"
  obtain res c1 w' where c: "Commit K (v_cache v) (h_lease h) ?puts [] w = (res, c1, w')"
    by (cases "Commit K (v_cache v) (h_lease h) ?puts [] w")
  from Commit_keeps [OF assms(1,2), of "h_lease h" ?puts "[]"] c
  have "obs w' = obs w" by simp
  with handle_commit_dirty [OF True c] assms(3) show ?thesis by (auto split: sum.splits)
qed

lemma unlock_result:
  assumes cl: "cluster K st ns name up contents lview" and "c_store (v_cache v) = st" and "up w"
    and "h_lease h = Some m" and "m_ns m = ns" and "m_name m = name" and "m_held m" and "owns m (lview w)"
    and "handle_unlock K v h w = (errno, v', h', w')"
  shows "h_lease h' = None \<and> (\<exists>l. lview w' = Some l \<and> HolderIdentity l = None) \<and> up w' \<and>
    h_buf h' = h_buf h \<and> h_dirty h' = (h_dirty h \<and> errno \<noteq> OK) \<and>
    contents w' = (if h_dirty h \<and> errno = OK then fmupd (h_key h) (h_buf h) (contents w) else contents w)"
proof -
  have srv: "lease_server K (m_ns m) (m_name m) up lview" "lease_calls_keep K (m_ns m) (m_name m) up contents"
    and obj: "backed_by K (c_store (v_cache v)) up contents" "object_calls_keep K (c_store (v_cache v)) up lview"
    using cl assms(2,5,6) by (simp_all add: cluster_def)
  obtain e v1 h1 w1 where c: "handle_commit K v h w = (e, v1, h1, w1)" by (cases "handle_commit K v h w")
  note cc = handle_commit_contents [OF obj(1) \<open>up w\<close> c]
  have "lview w1 = lview w" by (rule handle_commit_keeps [OF obj(2) \<open>up w\<close> c])
  with assms(8) cc obtain m2 w2 l where r: "lease_Release K m w1 = (Inr (), m2, w2)" "up w2"
    "lview w2 = Some l" "HolderIdentity l = None"
    using Release_frees [OF srv(1) _ assms(7), of w1] by auto
  have "contents w2 = contents w1" using lease_Release_keeps [OF srv, of w1] cc r(1) by simp
  with c cc r assms(4,9) show ?thesis by (auto simp: handle_unlock_def drop_lease_def)
qed

text \<open>Unlocking a handle whose lease the API still names: in every case the Lease is free
  afterwards and the handle has none; if it reports success, the object holds the buffer under the
  handle's key and the other files are untouched; if it fails, nothing was stored and the handle is
  still dirty.\<close>

theorem unlock_publishes:
  assumes cl: "cluster K st ns name up contents lview" and "c_store (v_cache v) = st" and "up w"
    and "h_lease h = Some m" and "m_ns m = ns" and "m_name m = name" and "m_held m" and "owns m (lview w)"
    and "handle_unlock K v h w = (errno, v', h', w')"
  shows "h_lease h' = None \<and> (\<exists>l. lview w' = Some l \<and> HolderIdentity l = None) \<and> up w' \<and>
    h_buf h' = h_buf h \<and> h_dirty h' = (h_dirty h \<and> errno \<noteq> OK) \<and>
    contents w' = (if h_dirty h \<and> errno = OK then fmupd (h_key h) (h_buf h) (contents w) else contents w)"
  using assms by (rule unlock_result)

section \<open>The order of the calls\<close>

text \<open>The same server, with the writing calls on the object and the Lease written down.\<close>

datatype call = PatchObject | CreateLease | UpdateLease

definition noted :: "call \<Rightarrow> ('a \<times> 'w) \<Rightarrow> call list \<Rightarrow> 'a \<times> 'w \<times> call list" where
  "noted c r log = (fst r, snd r, log @ [c])"

definition logged :: "'w kube \<Rightarrow> ('w \<times> call list) kube" where
  "logged K =
     \<lparr>api_now = (\<lambda>(w, log). api_now K w),
      ctx_err = (\<lambda>(w, log). ctx_err K w),
      timer_or_done = (\<lambda>d (w, log). case timer_or_done K d w of (r, w1) \<Rightarrow> (r, w1, log)),
      get_secret = (\<lambda>ns n (w, log). case get_secret K ns n w of (r, w1) \<Rightarrow> (r, w1, log)),
      patch_secret = (\<lambda>ns n p (w, log). noted PatchObject (patch_secret K ns n p w) log),
      watch_secret = (\<lambda>ns n rv (w, log). case watch_secret K ns n rv w of (r, w1) \<Rightarrow> (r, w1, log)),
      get_configmap = (\<lambda>ns n (w, log). case get_configmap K ns n w of (r, w1) \<Rightarrow> (r, w1, log)),
      patch_configmap = (\<lambda>ns n p (w, log). noted PatchObject (patch_configmap K ns n p w) log),
      watch_configmap = (\<lambda>ns n rv (w, log). case watch_configmap K ns n rv w of (r, w1) \<Rightarrow> (r, w1, log)),
      watch_next = (\<lambda>(w, log). case watch_next K w of (r, w1) \<Rightarrow> (r, w1, log)),
      get_lease = (\<lambda>ns n (w, log). case get_lease K ns n w of (r, w1) \<Rightarrow> (r, w1, log)),
      create_lease = (\<lambda>ns n l (w, log). noted CreateLease (create_lease K ns n l w) log),
      update_lease = (\<lambda>ns n l (w, log). noted UpdateLease (update_lease K ns n l w) log)\<rparr>"

lemma logged_Patch:
  "store_Patch (logged K) st puts del (w, log) = noted PatchObject (store_Patch K st puts del w) log"
  by (cases st) (simp_all add: logged_def secret_Patch_def configmap_Patch_def)

lemma logged_Commit:
  "\<exists>log1. snd (snd (snd (Commit (logged K) c lease puts del (w, log)))) = log @ log1 \<and> set log1 \<subseteq> {PatchObject} \<and>
    (fst (Commit (logged K) c lease puts del (w, log)) = Inr () \<and> writes puts del \<longrightarrow> log1 = [PatchObject])"
  by (auto simp: Commit_def logged_Patch noted_def writes_def
      split: option.splits sum.splits prod.splits)

lemma logged_Release:
  "\<exists>log1. snd (snd (snd (lease_Release (logged K) m (w, log)))) = log @ log1 \<and> set log1 \<subseteq> {UpdateLease}"
  by (auto simp: lease_Release_def Let_def logged_def noted_def split: sum.splits prod.splits)

text \<open>C9: the order that the lock rests on: unlocking and closing never free the Lease before the
  write is out. Of the writing calls, the patch of the object comes first and the update of the Lease
  after it; and when a dirty handle reports success there was exactly one patch.\<close>

theorem commit_before_release:
  assumes "f = handle_unlock (logged K) \<or> f = handle_Release (logged K)"
    and "f v h (w, []) = (errno, v', h', w', log)"
  shows "\<exists>patches updates. log = patches @ updates \<and> set patches \<subseteq> {PatchObject} \<and>
    set updates \<subseteq> {UpdateLease} \<and> (h_dirty h \<and> errno = OK \<longrightarrow> patches = [PatchObject])"
proof -
  obtain e v1 h1 w1 log1 where c: "handle_commit (logged K) v h (w, []) = (e, v1, h1, w1, log1)"
    by (cases "handle_commit (logged K) v h (w, [])")
  have p: "set log1 \<subseteq> {PatchObject} \<and> (h_dirty h \<and> e = OK \<longrightarrow> log1 = [PatchObject])"
  proof (cases "h_dirty h")
    case False
    with c show ?thesis by (simp add: handle_commit_clean)
  next
    case True
    let ?puts = "fmupd (h_key h) (Some (h_buf h)) fmempty"
    obtain res c1 w' log' where d: "Commit (logged K) (v_cache v) (h_lease h) ?puts [] (w, []) = (res, c1, w', log')"
      by (cases "Commit (logged K) (v_cache v) (h_lease h) ?puts [] (w, [])")
    have "writes ?puts []" by (simp add: writes_def)
    with logged_Commit [of K "v_cache v" "h_lease h" ?puts "[]" w "[]"] d
      c handle_commit_dirty [OF True d]
    show ?thesis by (auto split: sum.splits)
  qed
  show ?thesis
  proof (cases "h_lease h1")
    case None
    with assms c have "log = log1 @ []" "errno = e"
      by (auto simp: handle_unlock_def handle_Release_def drop_lease_def)
    with p show ?thesis by (intro exI [of _ log1] exI [of _ "[]"]) simp
  next
    case (Some m)
    from logged_Release [of K m w1 log1] obtain log2 where
      "snd (snd (snd (lease_Release (logged K) m (w1, log1)))) = log1 @ log2" "set log2 \<subseteq> {UpdateLease}" by blast
    moreover from assms c Some have "log = snd (snd (snd (lease_Release (logged K) m (w1, log1))))" "errno = e"
      by (auto simp: handle_unlock_def handle_Release_def drop_lease_def)
    ultimately show ?thesis using p by blast
  qed
qed

section \<open>When it goes wrong\<close>

text \<open>A lock request that fails leaves the handle as it was, without a lease; \<open>EINTR\<close> is only ever
  answered to a blocking request whose context was cancelled, and \<open>EWOULDBLOCK\<close> only to a non-blocking
  one.\<close>

theorem failed_lock_leaves_handle:
  assumes "setlk K typ flags blocking v h w = Some (errno, v', h', w')" and "errno \<noteq> OK" and "typ \<noteq> F_UNLCK"
  shows "h' = h \<and> (errno = EINTR \<longrightarrow> blocking \<and> ctx_err K w') \<and> (errno = EWOULDBLOCK \<longrightarrow> \<not> blocking) \<and>
    (errno = ENOTSUP \<longleftrightarrow> flags AND FUSE_LK_FLOCK = 0)"
proof -
  have e: "errnoFor e \<noteq> EINTR" "errnoFor e \<noteq> EWOULDBLOCK" "errnoFor e \<noteq> ENOTSUP" for e
    by (auto simp: errnoFor_def)
  have f: "h2 = h \<or> e2 = OK" and g: "e2 \<noteq> EINTR" "e2 \<noteq> EWOULDBLOCK" "e2 \<noteq> ENOTSUP"
    if "setlk_fresh K v1 h m w1 = (e2, v2, h2, w2)" for v1 m w1 e2 v2 h2 w2
    using that e by (auto simp: setlk_fresh_def split: sum.splits prod.splits)
  show ?thesis
  proof (cases "flags AND FUSE_LK_FLOCK = 0 \<or> h_lease h \<noteq> None")
    case True
    with assms show ?thesis by (auto simp: setlk_def split: if_splits)
  next
    case False
    obtain m v1 where n: "NewLease v = (m, v1)" by (cases "NewLease v")
    show ?thesis
    proof (cases blocking)
      case True
      with assms(1,3) False n obtain res m1 w1 where
        a: "Acquire K (Some (v_acquiring v1)) m w = Some (res, m1, w1)"
        by (auto simp: setlk_def bind_eq_Some_conv)
      with assms True False n e show ?thesis
        by (cases res) (auto simp: setlk_def dest: f g split: if_splits)
    next
      case nb: False
      obtain res m1 w1 where "TryAcquire K (Some (v_acquiring v1)) m w = (res, m1, w1)"
        by (cases "TryAcquire K (Some (v_acquiring v1)) m w")
      with assms nb False n e show ?thesis
        by (cases res) (auto simp: setlk_def dest: f g split: if_splits)
    qed
  qed
qed

text \<open>When the quorum read after the acquisition fails, the lease that was just taken is given
  back: the Lease is free again, so the failed request does not block the next one.\<close>

theorem failed_quorum_read_gives_lease_back:
  assumes srv: "lease_server K ns name up lview" and "Namespace (v_cfg v) = ns" and "LeaseName (v_cfg v) = name"
    and "up w" and "flags AND FUSE_LK_FLOCK \<noteq> 0" and "typ \<noteq> F_UNLCK" and "h_lease h = None"
    and "\<not> v_acquiring v" and "lock_free (fst (NewLease v)) (lview w)"
    and "\<And>w1. up w1 \<Longrightarrow> \<exists>w2. store_Get K (c_store (v_cache v)) w1 = (Inl e, w2) \<and> up w2 \<and> lview w2 = lview w1"
  shows "\<exists>v' w' l. setlk K typ flags blocking v h w = Some (errnoFor e, v', h, w') \<and>
    lview w' = Some l \<and> HolderIdentity l = None"
proof -
  obtain m v1 where n: "NewLease v = (m, v1)" by (cases "NewLease v")
  note nf = NewLease_fields [OF n]
  have on: "m_ns m = ns" "m_name m = name" using assms(2,3) nf by simp_all
  have srvm: "lease_server K (m_ns m) (m_name m) up lview" using srv on by simp
  have keep: "lease_calls_keep K (m_ns m) (m_name m) up (\<lambda>_. ())" by (simp add: lease_calls_keep_def)
  obtain w1 where t: "TryAcquire K (Some False) m w = (Inr True, startRenewal m, w1)" "up w1" "owns m (lview w1)"
    by (rule lock_free_TryAcquire [OF srvm keep \<open>up w\<close> nf(3)]) (use assms(9) n in simp_all)
  obtain w2 where g: "store_Get K (c_store (v_cache v)) w1 = (Inl e, w2)" "up w2" "lview w2 = lview w1"
    using assms(10) [OF t(2)] by blast
  have m: "m_held (startRenewal m)" "owns (startRenewal m) (lview w2)"
    "m_ns (startRenewal m) = ns" "m_name (startRenewal m) = name"
    using on nf(3) t(3) g(3) by (simp_all add: startRenewal_def owns_def)
  obtain m2 w3 l where r: "lease_Release K (startRenewal m) w2 = (Inr (), m2, w3)"
    "lview w3 = Some l" "HolderIdentity l = None"
    using Release_frees [of K "startRenewal m" up lview w2] srv m g(2) by auto
  have "setlk K typ flags blocking v h w = Some (setlk_fresh K v1 h (startRenewal m) w1)"
    by (rule setlk_acquired [OF assms(5-7) n]) (use t(1) assms(8) nf in simp)
  with g r nf show ?thesis by (auto simp: setlk_fresh_def cache_Fresh_def)
qed

text \<open>The fence does not survive the lock: unlocking a dirty handle whose renewal was lost fails with
  \<open>EIO\<close> and sends nothing, but drops the lease and keeps the handle dirty; the flush of the following
  close then commits the same octets with no lease to check, so they land on the object although the
  Lease is someone else's by now.\<close>

theorem fence_gone_after_unlock:
  assumes cl: "backed_by K (c_store (v_cache v)) up contents" and "up w"
    and "h_dirty h" and "h_lease h = Some m" and "\<not> Healthy m"
    and "handle_unlock K v h w = (e1, v1, h1, w1)"
    and "handle_Flush K v1 h1 w2 = (OK, v2, h2, w3)" and "up w2"
  shows "e1 = EIO \<and> h_lease h1 = None \<and> h_dirty h1 \<and> contents w3 = fmupd (h_key h) (h_buf h) (contents w2)"
proof -
  have wr: "writes (fmupd (h_key h) (Some (h_buf h)) fmempty) []" and fe: "fenced (h_lease h)"
    using assms(4,5) by (simp_all add: writes_def fenced_def)
  have "handle_commit K v h w = (EIO, v, h, w)"
    using handle_commit_dirty [OF assms(3) Commit_fenced [OF wr fe]] by (simp add: errnoFor_def)
  with assms(6) have u: "e1 = EIO" "v1 = v" "h1 = h\<lparr>h_lease := None\<rparr>"
    by (auto simp: handle_unlock_def drop_lease_def)
  with assms(7) have "handle_commit K v1 h1 w2 = (OK, v2, h2, w3)" by (simp add: handle_Flush_def)
  from handle_commit_contents [where K = K and up = up and contents = contents, OF _ \<open>up w2\<close> this] cl assms(3) u show ?thesis by simp
qed

text \<open>C38: A write that comes while a commit is under way is lost to everyone else: \<open>commit\<close> takes its value
  under the mutex but clears \<open>dirty\<close> after the request. When the commit succeeds the object has the old
  buffer, the handle has the new one and is clean, and neither a flush, an fsync, an unlock nor the release
  of the handle sends it: only another write would.\<close>

theorem write_during_commit_is_lost:
  assumes srv: "backed_by K (c_store (v_cache v)) up contents" and "up w"
    and cb: "commit_begin h = Some (value, lease)"
    and wr: "handle_Write h data off = Some (h1, n, OK)" and "h_buf h1 \<noteq> h_buf h"
    and cm: "Commit K (v_cache v) lease (fmupd (h_key h) (Some value) fmempty) [] w = (Inr (), c1, w1)"
  shows "fmlookup (contents w1) (h_key h1) = Some (h_buf h) \<and> h_buf (commit_end h1) = h_buf h1 \<and>
    fmlookup (contents w1) (h_key h1) \<noteq> Some (h_buf (commit_end h1)) \<and>
    handle_Flush K v' (commit_end h1) w1 = (OK, v', commit_end h1, w1) \<and>
    handle_Fsync K v' (commit_end h1) w1 = (OK, v', commit_end h1, w1) \<and>
    handle_unlock K v' (commit_end h1) w1 = (case drop_lease K (commit_end h1) w1 of (h2, w2) \<Rightarrow> (OK, v', h2, w2)) \<and>
    handle_Release K v' (commit_end h1) w1 = (case drop_lease K (commit_end h1) w1 of (h2, w2) \<Rightarrow> (OK, v', h2, w2))"
proof -
  have val: "value = h_buf h" using cb by (simp add: commit_begin_def split: if_splits)
  have key: "h_key h1 = h_key h" using wr by (auto simp: handle_Write_def Let_def split: if_splits option.splits)
  have "contents w1 = fmupd (h_key h) value (contents w)"
    using Commit_contents [OF srv \<open>up w\<close> allocated_upd cm] by (simp add: with_data_one)
  with val key assms(5) show ?thesis
    by (simp add: commit_end_def handle_Flush_def handle_Fsync_def handle_unlock_def handle_Release_def handle_commit_clean)
qed


section \<open>The reference server meets the contract\<close>

lemma ref_cluster:
  "cluster ref_kube (SecretStore ons oname) ns name (\<lambda>w. \<not> w_denied w \<and> w_secret w \<noteq> None)
     (\<lambda>w. sec_Data (the (w_secret w))) w_lease"
  unfolding cluster_def
proof (intro conjI)
  show "lease_server ref_kube ns name (\<lambda>w. \<not> w_denied w \<and> w_secret w \<noteq> None) w_lease"
    unfolding lease_server_def
    by (auto simp: found_def ref_create_lease_def ref_update_lease_def store_lease_def bump_def
        split: option.splits)
  show "lease_calls_keep ref_kube ns name (\<lambda>w. \<not> w_denied w \<and> w_secret w \<noteq> None)
     (\<lambda>w. sec_Data (the (w_secret w)))"
    by (auto simp: lease_calls_keep_def found_def ref_create_lease_def ref_update_lease_def
        store_lease_def bump_def split: option.splits)
  show "object_calls_keep ref_kube (SecretStore ons oname) (\<lambda>w. \<not> w_denied w \<and> w_secret w \<noteq> None) w_lease"
    by (auto simp: object_calls_keep_def secret_Get_def secret_Patch_def found_def ref_patch_secret_def
        bump_def split: option.splits)
qed (rule ref_backed_by_secret)

text \<open>A volume whose cache still shows the old value, in a world where the Secret has a new one.\<close>

definition demo_volume :: "string \<Rightarrow> volume" where
  "demo_volume podUID = (volume_min ''o'' podUID)\<lparr>v_cache := demo_cache\<rparr>"

definition newer_world :: world where
  "newer_world = demo_world\<lparr>w_secret := Some \<lparr>sec_Data = fmupd ''k'' ''new'' fmempty, sec_rv = ''6''\<rparr>\<rparr>"

lemma demo_volume_on [simp]:
  "volume_on (demo_volume uid) (SecretStore ''app'' ''o'') ''app'' ''roommate-o''"
  "v_acquiring (demo_volume uid) = False" "v_cache (demo_volume uid) = demo_cache"
  "h_dirty demo_handle = False" "h_lease demo_handle = None" "h_key demo_handle = ''k''"
  "h_buf demo_handle = ''old''"
  by (simp_all add: volume_on_def demo_volume_def volume_min_def config_min_def demo_handle_def newHandle_def)

lemma newer_world_simps [simp]:
  "w_denied newer_world = False" "w_lease newer_world = None" "w_sleeps newer_world = None"
  "w_secret newer_world = Some \<lparr>sec_Data = fmupd ''k'' ''new'' fmempty, sec_rv = ''6''\<rparr>"
  by (simp_all add: newer_world_def)

theorem lock_pins_present_contents_witness:
  "\<exists>v' h' w'. setlk ref_kube F_WRLCK 1 False (demo_volume ''uid'') demo_handle newer_world = Some (OK, v', h', w') \<and>
     h_buf demo_handle = ''old'' \<and> h_buf h' = ''new''"
  using lock_pins_present_contents [OF ref_cluster demo_volume_on(1),
      of newer_world 1 F_WRLCK demo_handle "''uid''" False]
  by (fastforce simp: FUSE_LK_FLOCK_def lock_free_def file_of_def)

text \<open>A dirty handle that holds the Lease.\<close>

definition holding :: "manager \<Rightarrow> handle" where
  "holding m = demo_handle\<lparr>h_buf := ''mine'', h_dirty := True, h_lease := Some m\<rparr>"

definition held_world :: "manager \<Rightarrow> world" where
  "held_world m = demo_world\<lparr>w_lease := Some (stamped (m_holder m) 900)\<rparr>"

lemma holding_simps [simp]:
  "h_dirty (holding m)" "h_lease (holding m) = Some m" "h_buf (holding m) = ''mine''" "h_key (holding m) = ''k''"
  "w_denied (held_world m) = False" "w_secret (held_world m) = Some demo_secret"
  "w_lease (held_world m) = Some (stamped (m_holder m) 900)"
  by (simp_all add: holding_def held_world_def)

lemma demo_manager [simp]:
  "m_ns (startRenewal manager_A) = ''ns''" "m_name (startRenewal manager_A) = ''lease''"
  "m_held (startRenewal manager_A)" "Healthy (startRenewal manager_A)"
  "m_holder (startRenewal manager_A) = ''podA:1''" "\<not> m_held manager_A" "m_holder manager_A = ''podA:1''"
  by (simp_all add: startRenewal_def manager_A_def NewLeaseManager_def Healthy_def)

theorem unlock_publishes_witness:
  "\<exists>errno v' h' w'. handle_unlock ref_kube (demo_volume ''uid'') (holding (startRenewal manager_A))
      (held_world (startRenewal manager_A)) = (errno, v', h', w') \<and>
    h_lease h' = None \<and> (\<exists>l. w_lease w' = Some l \<and> HolderIdentity l = None)"
proof -
  let ?m = "startRenewal manager_A"
  obtain errno v' h' w' where u: "handle_unlock ref_kube (demo_volume ''uid'') (holding ?m) (held_world ?m)
      = (errno, v', h', w')" by (metis prod_cases4)
  have ow: "owns ?m (w_lease (held_world ?m))" by (simp add: owns_def stamped_def)
  have st: "c_store (v_cache (demo_volume ''uid'')) = SecretStore ''app'' ''o''" by simp
  from unlock_publishes [OF ref_cluster st _ holding_simps(2) _ _ _ ow u, where ns = "''ns''" and name = "''lease''"]
  show ?thesis using u by simp
qed

theorem commit_before_release_witness:
  "\<exists>errno v' h' w' log. handle_unlock (logged ref_kube) (demo_volume ''uid'') (holding (startRenewal manager_A))
      (held_world (startRenewal manager_A), []) = (errno, v', h', w', log) \<and>
    (\<exists>patches updates. log = patches @ updates \<and> set patches \<subseteq> {PatchObject} \<and> set updates \<subseteq> {UpdateLease})"
proof -
  obtain errno v' h' w' log where u: "handle_unlock (logged ref_kube) (demo_volume ''uid'')
      (holding (startRenewal manager_A)) (held_world (startRenewal manager_A), []) = (errno, v', h', w', log)"
    by (metis prod_cases5)
  from commit_before_release [OF disjI1 [OF refl] u] u show ?thesis by blast
qed

text \<open>A context that is already cancelled, and another pod on the Lease.\<close>

definition busy_world :: world where
  "busy_world = demo_world\<lparr>w_sleeps := Some 0, w_lease := Some (stamped ''podB:1'' 77)\<rparr>"

theorem failed_lock_leaves_handle_witness:
  "\<exists>v' w'. setlk ref_kube F_WRLCK 1 True (demo_volume ''uid'') demo_handle busy_world = Some (EINTR, v', demo_handle, w')"
proof -
  let ?v = "demo_volume ''uid''"
  obtain m v1 where n: "NewLease ?v = (m, v1)" by (cases "NewLease ?v")
  note nf = NewLease_fields [OF n]
  have fo: "foreign m (stamped ''podB:1'' 77)" "\<not> observed m (stamped ''podB:1'' 77)"
    using n by (auto simp: NewLease_def NewLeaseManager_def foreign_def observed_def stamped_def
        holder_of_def demo_volume_def volume_min_def Let_def)
  obtain m1 where t: "TryAcquire ref_kube (Some False) m busy_world = (Inr False, m1, busy_world)"
    using fo nf by (simp add: TryAcquire_def found_def busy_world_def claimable_foreign)
  have "Acquire ref_kube (Some False) m busy_world = Some (Inl CtxErr, m1, busy_world)"
    using t by (subst Acquire.simps) (simp add: sleepCtx_def ref_timer_def busy_world_def)
  then have s: "setlk ref_kube F_WRLCK 1 True ?v demo_handle busy_world = Some (EINTR, v1, demo_handle, busy_world)"
    using n nf by (simp add: setlk_def FUSE_LK_FLOCK_def busy_world_def)
  have "demo_handle = demo_handle \<and> ctx_err ref_kube busy_world"
    using failed_lock_leaves_handle [OF s] by simp
  with s show ?thesis by blast
qed

text \<open>The Lease can be taken and the object is gone.\<close>

theorem failed_quorum_read_gives_lease_back_witness:
  "\<exists>v' w' l. setlk ref_kube F_WRLCK 1 False (demo_volume ''uid'') demo_handle world0 = Some (ENOENT, v', demo_handle, w') \<and>
    w_lease w' = Some l \<and> HolderIdentity l = None"
proof -
  have srv: "lease_server ref_kube ''app'' ''roommate-o'' (\<lambda>w. \<not> w_denied w \<and> w_secret w = None) w_lease"
    unfolding lease_server_def
    by (auto simp: found_def ref_create_lease_def ref_update_lease_def store_lease_def bump_def
        split: option.splits)
  have "\<exists>v' w' l. setlk ref_kube F_WRLCK 1 False (demo_volume ''uid'') demo_handle world0
      = Some (errnoFor NotFound, v', demo_handle, w') \<and> w_lease w' = Some l \<and> HolderIdentity l = None"
    by (rule failed_quorum_read_gives_lease_back [OF srv])
      (simp_all add: demo_volume_def volume_min_def config_min_def FUSE_LK_FLOCK_def lock_free_def
        world0_def secret_Get_def found_def)
  then show ?thesis by (simp add: errnoFor_def)
qed

text \<open>A manager that no longer holds its lease: unlock fails, and the flush that follows stores the octets.\<close>

theorem fence_gone_after_unlock_witness:
  "\<exists>v1 h1 w1 v2 h2 w3. handle_unlock ref_kube (demo_volume ''uid'') (holding manager_A) newer_world
      = (EIO, v1, h1, w1) \<and>
    handle_Flush ref_kube v1 h1 demo_world = (OK, v2, h2, w3) \<and>
    fmlookup (sec_Data (the (w_secret w3))) ''k'' = Some ''mine''"
proof -
  let ?v = "demo_volume ''uid''" and ?h = "holding manager_A"
  have wr: "writes (fmupd ''k'' (Some ''mine'') fmempty) []" and fe: "fenced (Some manager_A)"
    by (simp_all add: writes_def fenced_def Healthy_def)
  have "handle_commit ref_kube ?v ?h newer_world = (EIO, ?v, ?h, newer_world)"
    by (simp add: handle_commit_dirty Commit_fenced [OF wr fe] errnoFor_def demo_volume_def)
  then have u: "handle_unlock ref_kube ?v ?h newer_world = (EIO, ?v, ?h\<lparr>h_lease := None\<rparr>, newer_world)"
    by (simp add: handle_unlock_def drop_lease_def lease_Release_def)
  obtain c1 w3 where "Commit ref_kube demo_cache None (fmupd ''k'' (Some ''mine'') fmempty) [] demo_world
      = (Inr (), c1, w3)"
    by (rule demo_write [of "''mine''" None]) (simp_all add: MaxObjectBytes_def fenced_def)
  then have f: "handle_Flush ref_kube ?v (?h\<lparr>h_lease := None\<rparr>) demo_world =
      (OK, ?v\<lparr>v_cache := c1\<rparr>, ?h\<lparr>h_lease := None, h_dirty := False\<rparr>, w3)"
    by (simp add: handle_Flush_def handle_commit_dirty)
  have b: "backed_by ref_kube (c_store (v_cache ?v)) (\<lambda>w. \<not> w_denied w \<and> w_secret w \<noteq> None)
     (\<lambda>w. sec_Data (the (w_secret w)))"
    using ref_backed_by_secret by simp
  have nh: "\<not> Healthy manager_A" by (simp add: Healthy_def)
  have "sec_Data (the (w_secret w3)) = fmupd ''k'' ''mine'' (sec_Data (the (w_secret demo_world)))"
    using fence_gone_after_unlock [OF b _ holding_simps(1,2) nh u f] by simp
  then have "fmlookup (sec_Data (the (w_secret w3))) ''k'' = Some ''mine''" by simp
  with u f show ?thesis by blast
qed

theorem write_during_commit_is_lost_witness:
  "\<exists>h1 n c1 w1. handle_Write (holding (startRenewal manager_A)) ''XY'' 0 = Some (h1, n, OK) \<and>
    Commit ref_kube demo_cache (Some (startRenewal manager_A)) (fmupd ''k'' (Some ''mine'') fmempty) [] demo_world
      = (Inr (), c1, w1) \<and>
    fmlookup (sec_Data (the (w_secret w1))) ''k'' = Some ''mine'' \<and> h_buf (commit_end h1) = ''XYne'' \<and>
    handle_Flush ref_kube ((demo_volume ''uid'')\<lparr>v_cache := c1\<rparr>) (commit_end h1) w1
      = (OK, (demo_volume ''uid'')\<lparr>v_cache := c1\<rparr>, commit_end h1, w1)"
proof -
  let ?m = "startRenewal manager_A" and ?v = "demo_volume ''uid''"
  have w: "handle_Write (holding ?m) ''XY'' 0 = Some ((holding ?m)\<lparr>h_buf := ''XYne'', h_dirty := True\<rparr>, 2, OK)"
    by (subst handle_Write_ok) (simp_all add: max_alloc_def copy_at_def copy_bytes_def numeral_2_eq_2)
  obtain c1 w1 where cm: "Commit ref_kube demo_cache (Some ?m) (fmupd ''k'' (Some ''mine'') fmempty) [] demo_world
      = (Inr (), c1, w1)"
    by (rule demo_write [of "''mine''" "Some ?m"]) (simp_all add: MaxObjectBytes_def fenced_def)
  have cb: "commit_begin (holding ?m) = Some (''mine'', Some ?m)" by (simp add: commit_begin_def)
  have b: "backed_by ref_kube (c_store (v_cache ?v)) (\<lambda>w. \<not> w_denied w \<and> w_secret w \<noteq> None)
     (\<lambda>w. sec_Data (the (w_secret w)))"
    using ref_backed_by_secret by simp
  from write_during_commit_is_lost [OF b _ cb w, of demo_world c1 w1 "?v\<lparr>v_cache := c1\<rparr>"] cm w
  show ?thesis by auto
qed

end
