(* ===== verification/Nodes.thy ===== *)
theory Nodes
  imports Handles Keys
begin

text \<open>
  \<open>pkg/objectfs/fs.go\<close> and \<open>mount.go\<close>: the two kinds of inodes of the mount, the root directory and
  the files in it, and the mount itself. The FUSE server and the kernel are outside: an operation
  takes the request's fields and returns the error number with the reply, \<open>None\<close> where the code
  returns without one, and the volume as its cache is left.
\<close>

unbundle bit_operations_syntax

definition S_IFDIR :: "32 word" where
  "S_IFDIR = 0x4000"

definition S_IFREG :: "32 word" where
  "S_IFREG = 0x8000"

definition O_TRUNC :: "32 word" where
  "O_TRUNC = 0x200"

record attr =
  a_mode :: "32 word"
  a_size :: "64 word"
  a_uid :: "32 word"
  a_gid :: "32 word"
  a_nlink :: "32 word"

text \<open>A \<open>File\<close> inode with its stable attributes.\<close>

record inode =
  i_key :: string
  i_mode :: "32 word"
  i_ino :: "64 word"

definition fillFileAttr :: "config \<Rightarrow> nat \<Rightarrow> attr" where
  "fillFileAttr cfg n =
     \<lparr>a_mode = S_IFREG OR FileMode cfg, a_size = of_nat n, a_uid = UID cfg, a_gid = GID cfg, a_nlink = 1\<rparr>"

section \<open>The root directory\<close>

definition Root_Getattr :: "volume \<Rightarrow> errno \<times> attr" where
  "Root_Getattr v =
     (OK, \<lparr>a_mode = S_IFDIR OR DirMode (v_cfg v), a_size = 0, a_uid = UID (v_cfg v), a_gid = GID (v_cfg v),
        a_nlink = 2\<rparr>)"

definition vol_MaybeFresh :: "'w kube \<Rightarrow> volume \<Rightarrow> 'w \<Rightarrow> snapshot option \<times> volume \<times> 'w" where
  "vol_MaybeFresh K v w = (case cache_MaybeFresh K (v_cache v) w of (s, c1, w1) \<Rightarrow> (s, v\<lparr>v_cache := c1\<rparr>, w1))"

definition Root_Readdir :: "'w kube \<Rightarrow> volume \<Rightarrow> 'w \<Rightarrow> errno \<times> (string \<times> 32 word) list option \<times> volume \<times> 'w" where
  "Root_Readdir K v w =
     (case vol_MaybeFresh K v w of
        (None, v1, w1) \<Rightarrow> (EIO, None, v1, w1)
      | (Some snap, v1, w1) \<Rightarrow> (OK, Some (map (\<lambda>k. (k, S_IFREG)) (snap_Keys snap)), v1, w1))"

definition new_inode :: "string \<Rightarrow> inode" where
  "new_inode name = \<lparr>i_key = name, i_mode = S_IFREG, i_ino = hashKey name\<rparr>"

definition Root_Lookup ::
  "'w kube \<Rightarrow> volume \<Rightarrow> string \<Rightarrow> 'w \<Rightarrow> errno \<times> (inode \<times> attr) option \<times> volume \<times> 'w" where
  "Root_Lookup K v name w =
     (case vol_MaybeFresh K v w of
        (None, v1, w1) \<Rightarrow> (EIO, None, v1, w1)
      | (Some snap, v1, w1) \<Rightarrow>
          (case snap_Get snap name of
             None \<Rightarrow> (ENOENT, None, v1, w1)
           | Some value \<Rightarrow> (OK, Some (new_inode name, fillFileAttr (v_cfg v) (length value)), v1, w1)))"

definition Root_Mkdir :: "string \<Rightarrow> errno" where
  "Root_Mkdir name = ENOTSUP"

definition Root_Create :: "volume \<Rightarrow> string \<Rightarrow> errno \<times> (inode \<times> handle \<times> attr) option" where
  "Root_Create v name =
     (if \<not> ValidKey name then (EINVAL, None)
      else let h = (newHandle name (cache_Current (v_cache v)) [])\<lparr>h_dirty := True\<rparr>
           in (OK, Some (new_inode name, h, fillFileAttr (v_cfg v) 0)))"

text \<open>A commit without a lease, its error mapped.\<close>

definition vol_Commit ::
  "'w kube \<Rightarrow> volume \<Rightarrow> (string, slice) fmap \<Rightarrow> string list \<Rightarrow> 'w \<Rightarrow> errno \<times> volume \<times> 'w" where
  "vol_Commit K v puts del w =
     (case Commit K (v_cache v) None puts del w of
        (Inl e, c1, w1) \<Rightarrow> (errnoFor e, v\<lparr>v_cache := c1\<rparr>, w1)
      | (Inr _, c1, w1) \<Rightarrow> (OK, v\<lparr>v_cache := c1\<rparr>, w1))"

definition Root_Unlink :: "'w kube \<Rightarrow> volume \<Rightarrow> string \<Rightarrow> 'w \<Rightarrow> errno \<times> volume \<times> 'w" where
  "Root_Unlink K v name w = vol_Commit K v fmempty [name] w"

text \<open>\<open>same\<close> says that the new parent is this directory; the request's flags are not looked at.\<close>

definition Root_Rename ::
  "'w kube \<Rightarrow> volume \<Rightarrow> string \<Rightarrow> bool \<Rightarrow> string \<Rightarrow> 32 word \<Rightarrow> 'w \<Rightarrow> errno \<times> volume \<times> 'w" where
  "Root_Rename K v name same newName flags w =
     (if \<not> same then (EXDEV, v, w)
      else if \<not> ValidKey newName then (EINVAL, v, w)
      else case vol_MaybeFresh K v w of
        (None, v1, w1) \<Rightarrow> (EIO, v1, w1)
      | (Some snap, v1, w1) \<Rightarrow>
          (case snap_Get snap name of
             None \<Rightarrow> (ENOENT, v1, w1)
           | Some value \<Rightarrow> vol_Commit K v1 (fmupd newName (Some value) fmempty) [name] w1))"

section \<open>Files\<close>

definition File_Getattr ::
  "'w kube \<Rightarrow> volume \<Rightarrow> string \<Rightarrow> handle option \<Rightarrow> 'w \<Rightarrow> errno \<times> attr option \<times> volume \<times> 'w" where
  "File_Getattr K v key fh w =
     (case fh of
        Some h \<Rightarrow> (OK, Some (fillFileAttr (v_cfg v) (length (h_buf h))), v, w)
      | None \<Rightarrow>
          (case vol_MaybeFresh K v w of
             (None, v1, w1) \<Rightarrow> (EIO, None, v1, w1)
           | (Some snap, v1, w1) \<Rightarrow>
               (case snap_Get snap key of
                  None \<Rightarrow> (ENOENT, None, v1, w1)
                | Some value \<Rightarrow> (OK, Some (fillFileAttr (v_cfg v) (length value)), v1, w1))))"

definition File_Open ::
  "'w kube \<Rightarrow> volume \<Rightarrow> string \<Rightarrow> 32 word \<Rightarrow> 'w \<Rightarrow> errno \<times> handle option \<times> volume \<times> 'w" where
  "File_Open K v key flags w =
     (case vol_MaybeFresh K v w of
        (None, v1, w1) \<Rightarrow> (EIO, None, v1, w1)
      | (Some snap, v1, w1) \<Rightarrow>
          (case snap_Get snap key of
             None \<Rightarrow> (ENOENT, None, v1, w1)
           | Some value \<Rightarrow>
               if flags AND O_TRUNC \<noteq> 0
               then (OK, Some ((newHandle key (Some snap) [])\<lparr>h_dirty := True\<rparr>), v1, w1)
               else (OK, Some (newHandle key (Some snap) value), v1, w1)))"

text \<open>The value \<open>truncateCommitted\<close> commits: of an absent key \<open>Get\<close> gives a nil slice, which stays nil
  when the size is zero. \<open>None\<close> is the panic of \<open>make\<close>.\<close>

definition resized :: "slice \<Rightarrow> 64 word \<Rightarrow> slice option" where
  "resized value sz =
     (let n = length (slice_bytes value) in
      if of_nat n > sz then Some (Some (take (unat sz) (slice_bytes value)))
      else if of_nat n < sz then map_option (\<lambda>grown. Some (copy_bytes grown (slice_bytes value))) (make_bytes (uint sz))
      else Some value)"

definition truncateCommitted ::
  "'w kube \<Rightarrow> volume \<Rightarrow> string \<Rightarrow> 64 word \<Rightarrow> 'w \<Rightarrow> (errno \<times> volume \<times> 'w) option" where
  "truncateCommitted K v key sz w =
     (case vol_MaybeFresh K v w of
        (None, v1, w1) \<Rightarrow> Some (EIO, v1, w1)
      | (Some snap, v1, w1) \<Rightarrow>
          map_option (\<lambda>value. vol_Commit K v1 (fmupd key value fmempty) [] w1) (resized (snap_Get snap key) sz))"

definition postSetattrSize :: "'w kube \<Rightarrow> volume \<Rightarrow> string \<Rightarrow> handle option \<Rightarrow> 'w \<Rightarrow> nat \<times> volume \<times> 'w" where
  "postSetattrSize K v key fh w =
     (case fh of
        Some h \<Rightarrow> (length (h_buf h), v, w)
      | None \<Rightarrow>
          (case vol_MaybeFresh K v w of
             (None, v1, w1) \<Rightarrow> (0, v1, w1)
           | (Some snap, v1, w1) \<Rightarrow>
               ((case snap_Get snap key of Some value \<Rightarrow> length value | None \<Rightarrow> 0), v1, w1)))"

text \<open>The fields of \<open>fuse.SetAttrIn\<close> that are marked valid.\<close>

record setattr_in =
  in_mode :: "32 word option"
  in_uid :: "32 word option"
  in_gid :: "32 word option"
  in_size :: "64 word option"

definition set_size ::
  "'w kube \<Rightarrow> volume \<Rightarrow> string \<Rightarrow> handle option \<Rightarrow> 64 word option \<Rightarrow> 'w
    \<Rightarrow> (errno \<times> volume \<times> handle option \<times> 'w) option" where
  "set_size K v key fh want w =
     (case want of
        None \<Rightarrow> Some (OK, v, fh, w)
      | Some sz \<Rightarrow>
          (case fh of
             Some h \<Rightarrow> map_option (\<lambda>h1. (OK, v, Some h1, w)) (handle_truncate h sz)
           | None \<Rightarrow> map_option (\<lambda>(errno, v1, w1). (errno, v1, None, w1)) (truncateCommitted K v key sz w)))"

definition File_Setattr ::
  "'w kube \<Rightarrow> volume \<Rightarrow> string \<Rightarrow> handle option \<Rightarrow> setattr_in \<Rightarrow> 'w
    \<Rightarrow> (errno \<times> attr option \<times> volume \<times> handle option \<times> 'w) option" where
  "File_Setattr K v key fh inp w =
     (if in_mode inp \<noteq> None then Some (EPERM, None, v, fh, w)
      else if in_uid inp \<noteq> None then Some (EPERM, None, v, fh, w)
      else if in_gid inp \<noteq> None then Some (EPERM, None, v, fh, w)
      else Option.bind (set_size K v key fh (in_size inp) w) (\<lambda>(errno, v1, fh1, w1).
        if errno \<noteq> OK then Some (errno, None, v1, fh1, w1)
        else case postSetattrSize K v1 key fh1 w1 of
          (n, v2, w2) \<Rightarrow> Some (OK, Some (fillFileAttr (v_cfg v2) n), v2, fh1, w2)))"

section \<open>The mount\<close>

definition CAP_ATOMIC_O_TRUNC :: "64 word" where
  "CAP_ATOMIC_O_TRUNC = 8"

record mount_options =
  AllowOther :: bool
  FsName :: string
  Name :: string
  EnableLocks :: bool
  ExtraCapabilities :: "64 word"
  DirectMount :: bool

definition mountOptions :: "volume \<Rightarrow> mount_options" where
  "mountOptions v =
     \<lparr>AllowOther = True, FsName = ObjectName (v_cfg v), Name = ''roommate'', EnableLocks = True,
      ExtraCapabilities = CAP_ATOMIC_O_TRUNC, DirectMount = True\<rparr>"

text \<open>Whether the warning is logged; the argument is what the kernel granted.\<close>

definition checkAtomicOTrunc :: "64 word \<Rightarrow> bool" where
  "checkAtomicOTrunc settings \<longleftrightarrow> settings AND CAP_ATOMIC_O_TRUNC = 0"

text \<open>go-fuse's \<open>fs.Mount\<close> is a parameter that gives the server with the granted capabilities.\<close>

definition Mount ::
  "(string \<Rightarrow> mount_options \<Rightarrow> 'w \<Rightarrow> ('srv \<times> 64 word) result \<times> 'w) \<Rightarrow> string \<Rightarrow> volume \<Rightarrow> 'w
    \<Rightarrow> ('srv \<times> bool) result \<times> 'w" where
  "Mount fs_mount dir v w =
     (case fs_mount dir (mountOptions v) w of
        (Inl e, w1) \<Rightarrow> (Inl e, w1)
      | (Inr (srv, settings), w1) \<Rightarrow> (Inr (srv, checkAtomicOTrunc settings), w1))"

section \<open>A directory that nobody else writes to\<close>

text \<open>The volume's cache shows the object as it is stored. While nobody else writes, every operation
  keeps that, and acts on the files as on a map from names to contents.\<close>

definition coherent :: "volume \<Rightarrow> ('w \<Rightarrow> data) \<Rightarrow> 'w \<Rightarrow> bool" where
  "coherent v contents w \<longleftrightarrow> (\<exists>cur. cache_Current (v_cache v) = Some cur \<and> Data cur = contents w)"

definition serves :: "'w kube \<Rightarrow> volume \<Rightarrow> ('w \<Rightarrow> bool) \<Rightarrow> ('w \<Rightarrow> data) \<Rightarrow> 'w \<Rightarrow> bool" where
  "serves K v up contents w \<longleftrightarrow>
     backed_by K (c_store (v_cache v)) up contents \<and> up w \<and> coherent v contents w"

lemma MaybeFresh_serves:
  assumes "serves K v up contents w"
  obtains snap v1 w1 where "vol_MaybeFresh K v w = (Some snap, v1, w1)" "Data snap = contents w"
    "serves K v1 up contents w1" "contents w1 = contents w" "v_cfg v1 = v_cfg v"
proof -
  have b: "backed_by K (c_store (v_cache v)) up contents" and "up w" and c: "coherent v contents w"
    using assms by (simp_all add: serves_def)
  from c obtain e where e: "c_cur (v_cache v) = Some e" "Data (e_snap e) = contents w"
    by (auto simp: coherent_def cache_Current_def split: option.splits)
  obtain snap w1 where g: "store_Get K (c_store (v_cache v)) w = (Inr snap, w1)" "Data snap = contents w"
    "up w1" "contents w1 = contents w" by (rule backed_by_Get [OF b \<open>up w\<close>])
  show ?thesis
  proof (cases "api_now K w - e_lastSync e < c_bound (v_cache v)")
    case True
    with e assms that [of "e_snap e" "v\<lparr>v_cache := v_cache v\<rparr>" w] show ?thesis
      by (simp add: vol_MaybeFresh_def cache_MaybeFresh_def cache_Current_def)
  next
    case False
    have "vol_MaybeFresh K v w =
        (Some snap, v\<lparr>v_cache := cache_Set (v_cache v) (api_now K w1) (Some snap)\<rparr>, w1)"
      using False e g by (simp add: vol_MaybeFresh_def cache_MaybeFresh_def cache_Fresh_def)
    with g b that show ?thesis by (simp add: serves_def coherent_def)
  qed
qed

lemma Commit_failed_cache: "Commit K c lease puts del w = (Inl e, c1, w1) \<Longrightarrow> c1 = c"
  by (auto simp: Commit_def split: if_splits sum.splits prod.splits option.splits)

lemma Commit_serves:
  assumes "serves K v up contents w" and "allocated puts"
    and "Commit K (v_cache v) lease puts del w = (r, c1, w1)"
  shows "serves K (v\<lparr>v_cache := c1\<rparr>) up contents w1 \<and>
    contents w1 = (if r = Inr () then with_data (contents w) puts del else contents w)"
proof -
  have b: "backed_by K (c_store (v_cache v)) up contents" and "up w" and c: "coherent v contents w"
    using assms(1) by (simp_all add: serves_def)
  note cc = Commit_contents [OF b \<open>up w\<close> assms(2,3)]
  from c obtain cur where cur: "cache_Current (v_cache v) = Some cur" "Data cur = contents w"
    by (auto simp: coherent_def)
  have "\<exists>cur1. cache_Current c1 = Some cur1 \<and> Data cur1 = contents w1"
  proof (cases r)
    case (Inl e)
    with assms(3) have "c1 = v_cache v" by (simp add: Commit_failed_cache)
    with cc cur Inl show ?thesis by simp
  next
    case (Inr u)
    show ?thesis
    proof (cases "writes puts del")
      case True
      with assms(3) Inr have "cache_Current c1 = Some (snap_With cur puts del)"
        using Commit_success [OF True cur(1), of K lease w c1 w1] by simp
      with Inr cc cur(2) show ?thesis by simp
    next
      case False
      with assms(3) cc cur show ?thesis by (auto simp: with_data_nothing)
    qed
  qed
  with cc b show ?thesis by (simp add: serves_def coherent_def)
qed

lemma vol_Commit_serves:
  assumes "serves K v up contents w" and "allocated puts"
    and "vol_Commit K v puts del w = (errno, v1, w1)"
  shows "serves K v1 up contents w1 \<and> v_cfg v1 = v_cfg v \<and>
    contents w1 = (if errno = OK then with_data (contents w) puts del else contents w)"
proof -
  obtain r c1 w' where c: "Commit K (v_cache v) None puts del w = (r, c1, w')"
    by (cases "Commit K (v_cache v) None puts del w")
  from Commit_serves [OF assms(1,2) c] assms(3) c show ?thesis
    by (cases r) (auto simp: vol_Commit_def)
qed

lemma handle_commit_serves:
  assumes "serves K v up contents w" and "handle_commit K v h w = (errno, v1, h1, w1)"
  shows "serves K v1 up contents w1"
proof (cases "h_dirty h")
  case False
  with assms show ?thesis by (simp add: handle_commit_clean)
next
  case True
  let ?puts = "fmupd (h_key h) (Some (h_buf h)) fmempty"
  obtain r c1 w' where c: "Commit K (v_cache v) (h_lease h) ?puts [] w = (r, c1, w')"
    by (cases "Commit K (v_cache v) (h_lease h) ?puts [] w")
  from Commit_serves [OF assms(1) allocated_upd c] assms(2) handle_commit_dirty [OF True c]
  show ?thesis by (cases r) auto
qed

text \<open>The directory shows exactly the object: its listing is the sorted list of the keys, each a
  regular file, and a lookup finds a name exactly if it is a key, with the size of its value.\<close>

theorem directory_shows_object:
  assumes "serves K v up contents w"
  shows "(\<exists>v1 w1. Root_Readdir K v w =
      (OK, Some (map (\<lambda>k. (k, S_IFREG)) (sorted_list_of_fset (fmdom (contents w)))), v1, w1) \<and>
      serves K v1 up contents w1) \<and>
    (\<forall>name. \<exists>v1 w1. Root_Lookup K v name w =
      (case fmlookup (contents w) name of None \<Rightarrow> (ENOENT, None, v1, w1)
       | Some b \<Rightarrow> (OK, Some (new_inode name, fillFileAttr (v_cfg v) (length b)), v1, w1)) \<and>
      serves K v1 up contents w1)"
proof -
  obtain snap v1 w1 where "vol_MaybeFresh K v w = (Some snap, v1, w1)" "Data snap = contents w"
    "serves K v1 up contents w1" by (rule MaybeFresh_serves [OF assms])
  then show ?thesis
    by (auto simp: Root_Readdir_def Root_Lookup_def snap_Keys_def snap_Get_def split: option.split)
qed

text \<open>C28: creating a file, writing it from its start and closing it: the name is checked, nothing is
  stored before the flush, and a flush that succeeds stores exactly the data under the name and leaves
  the other files alone.\<close>

theorem create_write_flush:
  assumes "serves K v up contents w" and "ValidKey name" and "int (length data) \<le> max_alloc"
  shows "\<exists>h a h1. Root_Create v name = (OK, Some (new_inode name, h, a)) \<and>
    handle_Write h data 0 = Some (h1, of_nat (length data), OK) \<and>
    (\<forall>v2 h2 w2 errno. handle_Flush K v h1 w = (errno, v2, h2, w2) \<longrightarrow>
       serves K v2 up contents w2 \<and>
       contents w2 = (if errno = OK then fmupd name data (contents w) else contents w))"
proof -
  let ?h = "(newHandle name (cache_Current (v_cache v)) [])\<lparr>h_dirty := True\<rparr>"
  obtain h1 where w: "handle_Write ?h data 0 = Some (h1, of_nat (length data), OK)" and d: "h_dirty h1"
    and len: "length (h_buf h1) = length data" and nth: "\<And>i. i < length data \<Longrightarrow> h_buf h1 ! i = data ! i"
    using handle_Write_result [of 0 data ?h] assms(3) by (auto simp: newHandle_def max_alloc_def)
  have buf: "h_buf h1 = data" by (rule nth_equalityI) (simp_all add: len nth)
  have key: "h_key h1 = name"
    using w by (auto simp: handle_Write_def newHandle_def Let_def split: option.splits if_splits)
  have b: "backed_by K (c_store (v_cache v)) up contents" "up w" using assms(1) by (simp_all add: serves_def)
  show ?thesis
    using assms(2) w handle_commit_contents [OF b] handle_commit_serves [OF assms(1)]
    by (auto simp: Root_Create_def handle_Flush_def buf d key)
qed

lemma with_data_delete: "with_data d fmempty [k] = fmdrop k d"
  by (rule fmap_ext) (simp add: fmlookup_with_data)

lemma with_data_move: "with_data d (fmupd k (Some b) fmempty) [j] = fmdrop j (fmupd k b d)"
  by (rule fmap_ext) (simp add: fmlookup_with_data)

lemma Unlink_removes:
  assumes "serves K v up contents w" and "Root_Unlink K v name w = (errno, v1, w1)"
  shows "serves K v1 up contents w1 \<and>
    contents w1 = (if errno = OK then fmdrop name (contents w) else contents w)"
  using vol_Commit_serves [OF assms(1) allocated_empty] assms(2)
  by (auto simp: Root_Unlink_def with_data_delete)

text \<open>C30: renaming is one atomic update of the map, whatever the request's flags (so a rename that must
  not replace an existing file replaces it all the same): if it succeeds the new name has the value and
  the old name is gone, and so a rename to itself removes the file; if it fails nothing has changed.\<close>

theorem rename_moves:
  assumes "serves K v up contents w" and "Root_Rename K v name same new flags w = (errno, v1, w1)"
  shows "serves K v1 up contents w1 \<and>
    (if errno = OK
     then same \<and> ValidKey new \<and> (\<exists>b. fmlookup (contents w) name = Some b \<and>
       contents w1 = fmdrop name (fmupd new b (contents w)))
     else contents w1 = contents w)"
proof -
  obtain snap v' w' where m: "vol_MaybeFresh K v w = (Some snap, v', w')" "Data snap = contents w"
    "serves K v' up contents w'" "contents w' = contents w" by (rule MaybeFresh_serves [OF assms(1)])
  show ?thesis
  proof (cases "same \<and> ValidKey new \<and> fmlookup (contents w) name \<noteq> None")
    case True
    then obtain b where b: "fmlookup (contents w) name = Some b" by auto
    with True assms(2) m(1,2) have "vol_Commit K v' (fmupd new (Some b) fmempty) [name] w' = (errno, v1, w1)"
      by (simp add: Root_Rename_def snap_Get_def)
    from vol_Commit_serves [OF m(3) allocated_upd this] m(4) b True show ?thesis
      by (simp add: with_data_move)
  next
    case False
    with assms m show ?thesis
      by (auto simp: Root_Rename_def snap_Get_def split: if_splits option.splits)
  qed
qed

text \<open>Opening pins: the handle has the stored value, clean, or with \<open>O_TRUNC\<close> the empty one, dirty,
  and in either case opening stores nothing: what a truncating open drops is still in the object until
  the handle commits.\<close>

theorem open_pins:
  assumes "serves K v up contents w" and "fmlookup (contents w) key = Some b"
  shows "\<exists>h v1 w1. File_Open K v key flags w = (OK, Some h, v1, w1) \<and> h_key h = key \<and> h_lease h = None \<and>
    (if flags AND O_TRUNC \<noteq> 0 then h_buf h = [] \<and> h_dirty h else h_buf h = b \<and> \<not> h_dirty h) \<and>
    serves K v1 up contents w1 \<and> contents w1 = contents w"
proof -
  obtain snap v1 w1 where "vol_MaybeFresh K v w = (Some snap, v1, w1)" "Data snap = contents w"
    "serves K v1 up contents w1" "contents w1 = contents w" by (rule MaybeFresh_serves [OF assms(1)])
  with assms(2) show ?thesis
    by (auto simp: File_Open_def snap_Get_def newHandle_def)
qed

section \<open>Attributes\<close>

text \<open>\<open>Setattr\<close> on an open handle: a change of mode or owner is refused with nothing changed; any
  other request, a bare change of times included, resizes only the handle's buffer, sends nothing, and
  reports the size of the buffer, which is what a read of the handle returns and \<open>Getattr\<close> reports.\<close>

theorem setattr_on_handle:
  assumes "\<And>sz. in_size inp = Some sz \<Longrightarrow> uint sz \<le> max_alloc"
  shows "if in_mode inp \<noteq> None \<or> in_uid inp \<noteq> None \<or> in_gid inp \<noteq> None
    then File_Setattr K v key (Some h) inp w = Some (EPERM, None, v, Some h, w)
    else \<exists>h1. (case in_size inp of None \<Rightarrow> h1 = h | Some sz \<Rightarrow> handle_truncate h sz = Some h1) \<and>
      File_Setattr K v key (Some h) inp w =
        Some (OK, Some (fillFileAttr (v_cfg v) (length (h_buf h1))), v, Some h1, w) \<and>
      File_Getattr K v key (Some h1) w = (OK, Some (fillFileAttr (v_cfg v) (length (h_buf h1))), v, w) \<and>
      handle_Read h1 (length (h_buf h1)) 0 = h_buf h1"
proof (cases "in_mode inp \<noteq> None \<or> in_uid inp \<noteq> None \<or> in_gid inp \<noteq> None")
  case True
  then show ?thesis by (auto simp: File_Setattr_def)
next
  case False
  have rd: "handle_Read h1 (length (h_buf h1)) 0 = h_buf h1" for h1
    by (simp add: handle_Read_def Let_def)
  have "\<exists>h1. (case in_size inp of None \<Rightarrow> h1 = h | Some sz \<Rightarrow> handle_truncate h sz = Some h1)"
  proof (cases "in_size inp")
    case (Some sz)
    from handle_truncate_result [OF assms [OF Some]] Some show ?thesis by auto
  qed simp
  with False rd show ?thesis
    by (auto simp: File_Setattr_def set_size_def postSetattrSize_def File_Getattr_def split: option.splits)
qed

lemma resized_eq:
  assumes "length (slice_bytes vs0) \<le> MaxObjectBytes" and "uint sz \<le> max_alloc"
  shows "resized vs0 sz =
    (if unat sz < length (slice_bytes vs0) then Some (Some (take (unat sz) (slice_bytes vs0)))
     else if length (slice_bytes vs0) < unat sz
     then Some (Some (slice_bytes vs0 @ replicate (unat sz - length (slice_bytes vs0)) (CHR 0x00)))
     else Some vs0)"
proof -
  let ?n = "length (slice_bytes vs0)"
  have "?n < 2 ^ 64" using assms(1) by (simp add: MaxObjectBytes_def)
  then have n: "unat (of_nat ?n :: 64 word) = ?n" by (simp add: unat_of_nat take_bit_eq_mod)
  have "make_bytes (uint sz) = Some (replicate (unat sz) (CHR 0x00))"
    using assms(2) by (simp add: make_bytes_def)
  then show ?thesis
    unfolding resized_def Let_def word_less_nat_alt n by (simp add: copy_bytes_def)
qed

lemma resized_result:
  assumes "length (slice_bytes vs0) \<le> MaxObjectBytes" and "uint sz \<le> max_alloc"
  shows "\<exists>vs1. resized vs0 sz = Some vs1 \<and> length (slice_bytes vs1) = unat sz \<and>
    take (unat sz) (slice_bytes vs0) = take (length (slice_bytes vs0)) (slice_bytes vs1) \<and>
    (vs0 \<noteq> None \<longrightarrow> vs1 \<noteq> None)"
  unfolding resized_eq [OF assms] by (auto simp: slice_bytes_def)

text \<open>\<open>truncate(2)\<close> of an existing file without a handle commits at once: if it succeeds the object
  has the value cut or zero-filled to the size, and if it fails nothing has changed.\<close>

theorem truncate_commits:
  assumes "serves K v up contents w" and "fmlookup (contents w) key = Some b"
    and "length b \<le> MaxObjectBytes" and "uint sz \<le> max_alloc"
  shows "\<exists>errno v1 w1 b1. truncateCommitted K v key sz w = Some (errno, v1, w1) \<and> serves K v1 up contents w1 \<and>
    contents w1 = (if errno = OK then fmupd key b1 (contents w) else contents w) \<and>
    length b1 = unat sz \<and> take (unat sz) b = take (length b) b1"
proof -
  obtain snap v' w' where m: "vol_MaybeFresh K v w = (Some snap, v', w')" "Data snap = contents w"
    "serves K v' up contents w'" "contents w' = contents w" by (rule MaybeFresh_serves [OF assms(1)])
  obtain b1 where r: "resized (Some b) sz = Some (Some b1)" "length b1 = unat sz"
    "take (unat sz) b = take (length b) b1"
    using resized_result [of "Some b", OF _ assms(4)] assms(3) by (auto simp: slice_bytes_def)
  obtain errno v1 w1 where c: "vol_Commit K v' (fmupd key (Some b1) fmempty) [] w' = (errno, v1, w1)"
    by (cases "vol_Commit K v' (fmupd key (Some b1) fmempty) [] w'")
  from vol_Commit_serves [OF m(3) allocated_upd c] m r c assms(2) show ?thesis
    by (auto simp: truncateCommitted_def snap_Get_def with_data_one)
qed

lemma fmmap_one: "fmmap f (fmupd k v fmempty) = fmupd k (f v) fmempty"
  by (rule fmap_ext) simp

text \<open>Truncating an absent file to size zero: the value stays a nil slice, so the patch of a Secret
  is a null, which stores nothing, while the cache gains an empty file that the object does not have;
  the same call on a ConfigMap writes the empty text.\<close>

theorem truncate_absent_to_zero:
  assumes "vol_MaybeFresh K v w = (Some snap, v1, w1)" and "snap_Get snap key = None"
    and "cache_Current (v_cache v1) = Some snap" and "snap_Size snap \<le> MaxObjectBytes"
    and "store_Patch K (c_store (v_cache v1)) (fmupd key None fmempty) [] w1 = (Inr (), w2)"
  shows "\<exists>v2 cur. truncateCommitted K v key 0 w = Some (OK, v2, w2) \<and>
    cache_Current (v_cache v2) = Some cur \<and> snap_Get cur key = Some [] \<and>
    secret_body (fmupd key None fmempty) [] = fmupd ''data'' (fmupd key None fmempty) fmempty \<and>
    fmlookup (configmap_body (fmupd key None fmempty) []) ''data'' = Some (fmupd key (Some (Text [])) fmempty)"
proof -
  have r: "resized (snap_Get snap key) 0 = Some None"
    using assms(2) by (simp add: resized_def slice_bytes_def)
  have wr: "writes (fmupd key None fmempty) []" and nf: "\<not> fenced None" by (simp_all add: writes_def fenced_def)
  let ?puts = "fmupd key None fmempty :: (string, slice) fmap"
  have "with_data (Data snap) ?puts [] = fmupd key [] (Data snap)"
    by (rule fmap_ext) (simp add: fmlookup_with_data slice_bytes_def)
  moreover have "snap_Size (snap_With snap ?puts []) = snap_Size snap"
  proof -
    have k: "key |\<notin>| fmdom (Data snap)" using assms(2) by (simp add: snap_Get_def fmdom_notI)
    have "(\<Sum>j \<in> fset (fmdom (Data snap)). length (the (fmlookup (fmupd key [] (Data snap)) j)))
        = (\<Sum>j \<in> fset (fmdom (Data snap)). length (the (fmlookup (Data snap) j)))"
      by (rule sum.cong) (use k in auto)
    with k calculation show ?thesis by (simp add: snap_Size_sum)
  qed
  ultimately have cs: "checkSize (v_cache v1) ?puts [] = Inr ()"
    using assms(3,4) by (simp add: checkSize_def)
  show ?thesis
    using assms(1,3) r Commit_patch [OF wr nf cs assms(5)]
    by (auto simp: truncateCommitted_def vol_Commit_def snap_Get_With slice_bytes_def secret_body_def
        configmap_body_def text_leaf_def fmmap_one)
qed


section \<open>On the reference server\<close>

lemma demo_serves:
  "serves ref_kube (demo_volume uid) (\<lambda>w. \<not> w_denied w \<and> w_secret w \<noteq> None)
     (\<lambda>w. sec_Data (the (w_secret w))) demo_world"
  using ref_backed_by_secret by (simp add: serves_def coherent_def)

lemma demo_fresh: "vol_MaybeFresh ref_kube (demo_volume uid) demo_world = (Some demo_snap, demo_volume uid, demo_world)"
  by (simp add: vol_MaybeFresh_def cache_MaybeFresh_def demo_cache_def NewCache_def DefaultStalenessBound_def
      second_def cache_Set_def cache_Current_def demo_volume_def)

lemma demo_get: "snap_Get demo_snap k = (if k = ''k'' then Some ''old'' else None)"
  by (simp add: snap_Get_def)

theorem directory_shows_object_witness:
  "\<exists>v1 w1 v2 w2 at. Root_Readdir ref_kube (demo_volume ''uid'') demo_world = (OK, Some [(''k'', S_IFREG)], v1, w1) \<and>
    Root_Lookup ref_kube (demo_volume ''uid'') ''k'' demo_world = (OK, Some (new_inode ''k'', at), v2, w2) \<and>
    a_size at = 3"
proof -
  note d = directory_shows_object [OF demo_serves [of "''uid''"]]
  from d obtain v1 w1 where r: "Root_Readdir ref_kube (demo_volume ''uid'') demo_world = (OK, Some [(''k'', S_IFREG)], v1, w1)"
    by (auto simp: sorted_list_of_fset.rep_eq)
  from conjunct2 [OF d, rule_format, of "''k''"] obtain v2 w2 at where
    "Root_Lookup ref_kube (demo_volume ''uid'') ''k'' demo_world = (OK, Some (new_inode ''k'', at), v2, w2)"
    "at = fillFileAttr (v_cfg (demo_volume ''uid'')) (length ''old'')" by auto
  with r show ?thesis by (auto simp: fillFileAttr_def)
qed

theorem create_write_flush_witness:
  "\<exists>h a h1. Root_Create (demo_volume ''uid'') ''new.txt'' = (OK, Some (new_inode ''new.txt'', h, a)) \<and>
    handle_Write h ''hello'' 0 = Some (h1, 5, OK)"
proof -
  have k: "ValidKey ''new.txt''"
    by (simp add: ValidKey_def keyPattern_match_def key_char_def maxKeyLen_def)
  have "int (length ''hello'') \<le> max_alloc" by (simp add: max_alloc_def)
  from create_write_flush [OF demo_serves k this, of "''uid''"] show ?thesis by auto
qed

theorem rename_moves_witness:
  "\<exists>v1 w1. Root_Rename ref_kube (demo_volume ''uid'') ''k'' True ''j'' 0 demo_world = (OK, v1, w1) \<and>
    sec_Data (the (w_secret w1)) = fmupd ''j'' ''old'' fmempty"
proof -
  have k: "ValidKey ''j''"
    by (simp add: ValidKey_def keyPattern_match_def key_char_def maxKeyLen_def)
  have eq: "fmdrop ''k'' (fmupd ''j'' ''old'' (fmupd ''k'' ''old'' fmempty)) = fmupd ''j'' ''old'' fmempty"
    by (rule fmap_ext) simp
  have sz: "snap_Size (snap_With demo_snap (fmupd ''j'' (Some ''old'') fmempty) [''k'']) \<le> MaxObjectBytes"
    by (simp only: snap_Size_sum Data_snap_With with_data_move demo_simps eq) (simp add: MaxObjectBytes_def)
  have "writes (fmupd ''j'' (Some ''old'') fmempty) [''k'']" "\<not> fenced None"
    by (simp_all add: writes_def fenced_def)
  then obtain c1 w1 where "Commit ref_kube demo_cache None (fmupd ''j'' (Some ''old'') fmempty) [''k''] demo_world
      = (Inr (), c1, w1)" using sz demo_commit by blast
  then have r: "Root_Rename ref_kube (demo_volume ''uid'') ''k'' True ''j'' 0 demo_world =
      (OK, (demo_volume ''uid'')\<lparr>v_cache := c1\<rparr>, w1)"
    using k by (simp add: Root_Rename_def demo_fresh demo_get vol_Commit_def)
  with rename_moves [OF demo_serves r] r eq show ?thesis by auto
qed

theorem open_pins_witness:
  "\<exists>h v1 w1. File_Open ref_kube (demo_volume ''uid'') ''k'' O_TRUNC demo_world = (OK, Some h, v1, w1) \<and>
    h_buf h = [] \<and> h_dirty h \<and> fmlookup (sec_Data (the (w_secret w1))) ''k'' = Some ''old''"
proof -
  have "fmlookup (sec_Data (the (w_secret demo_world))) ''k'' = Some ''old''" by simp
  from open_pins [OF demo_serves this, of "''uid''" O_TRUNC] show ?thesis
    by (auto simp: O_TRUNC_def)
qed

definition touch_in :: setattr_in where
  "touch_in = \<lparr>in_mode = None, in_uid = None, in_gid = None, in_size = None\<rparr>"

theorem setattr_on_handle_witness:
  "File_Setattr ref_kube (demo_volume ''uid'') ''k'' (Some demo_handle) (touch_in\<lparr>in_mode := Some 0x1FF\<rparr>) demo_world =
     Some (EPERM, None, demo_volume ''uid'', Some demo_handle, demo_world) \<and>
   (\<exists>h1 at. File_Setattr ref_kube (demo_volume ''uid'') ''k'' (Some demo_handle) (touch_in\<lparr>in_size := Some 2\<rparr>) demo_world =
     Some (OK, Some at, demo_volume ''uid'', Some h1, demo_world) \<and> handle_truncate demo_handle 2 = Some h1)"
proof -
  have "uint (2 :: 64 word) \<le> max_alloc" by (simp add: max_alloc_def)
  then show ?thesis
    using setattr_on_handle [of "touch_in\<lparr>in_mode := Some 0x1FF\<rparr>" ref_kube "demo_volume ''uid''" "''k''" demo_handle demo_world]
      setattr_on_handle [of "touch_in\<lparr>in_size := Some 2\<rparr>" ref_kube "demo_volume ''uid''" "''k''" demo_handle demo_world]
    by (auto simp: touch_in_def)
qed

theorem truncate_commits_witness:
  "\<exists>errno v1 w1. truncateCommitted ref_kube (demo_volume ''uid'') ''k'' 2 demo_world = Some (errno, v1, w1)"
proof -
  have "fmlookup (sec_Data (the (w_secret demo_world))) ''k'' = Some ''old''" by simp
  from truncate_commits [OF demo_serves this, of 2 "''uid''"] show ?thesis
    by (auto simp: MaxObjectBytes_def max_alloc_def)
qed

theorem truncate_absent_to_zero_witness:
  "\<exists>v2 cur w2. truncateCommitted ref_kube (demo_volume ''uid'') ''gone'' 0 demo_world = Some (OK, v2, w2) \<and>
    cache_Current (v_cache v2) = Some cur \<and> snap_Get cur ''gone'' = Some []"
proof -
  obtain w2 where p: "store_Patch ref_kube (c_store (v_cache (demo_volume ''uid''))) (fmupd ''gone'' None fmempty) [] demo_world
      = (Inr (), w2)"
    by (simp add: secret_Patch_def ref_patch_secret_def found_def ref_secret_patch_ok)
  have "snap_Get demo_snap ''gone'' = None" by (simp add: demo_get)
  moreover have "snap_Size demo_snap \<le> MaxObjectBytes" by (simp add: snap_Size_sum MaxObjectBytes_def)
  moreover have "cache_Current (v_cache (demo_volume ''uid'')) = Some demo_snap" by simp
  ultimately show ?thesis
    using truncate_absent_to_zero [OF demo_fresh _ _ _ p] by blast
qed

end
