(* ===== verification/Tokens.thy ===== *)
theory Tokens
  imports Volumes Json
begin

text \<open>
  \<open>pkg/podtoken/token.go\<close>: from the volume context kubelet supplies to a client that authenticates as
  the consuming pod. The payload's JSON text is read by \<open>json_parse\<close> of \<open>Json\<close>, and how \<open>encoding/json\<close>
  stores the value into \<open>map[string]tokenEntry\<close> is modelled here. The part of client-go that is used is
  its configuration record and the transport chain.
\<close>

definition KeyTokens :: string where
  "KeyTokens = ''csi.storage.k8s.io/serviceAccount.tokens''"

definition KeyPodNamespace :: string where
  "KeyPodNamespace = ''csi.storage.k8s.io/pod.namespace''"

definition KeyPodName :: string where
  "KeyPodName = ''csi.storage.k8s.io/pod.name''"

definition KeyPodUID :: string where
  "KeyPodUID = ''csi.storage.k8s.io/pod.uid''"

definition KeyPodServiceAcct :: string where
  "KeyPodServiceAcct = ''csi.storage.k8s.io/serviceAccount.name''"

section \<open>The token payload\<close>

record tokenEntry =
  Token :: string
  ExpirationTimestamp :: string

definition no_entry :: tokenEntry where
  "no_entry = \<lparr>Token = '''', ExpirationTimestamp = ''''\<rparr>"

fun store_members :: "(string \<times> json) list \<Rightarrow> tokenEntry \<Rightarrow> tokenEntry option" where
  "store_members [] e = Some e"
| "store_members ((k, j) # ms) e =
     (if fold_name k = ''token''
      then Option.bind (store_string j (Token e)) (\<lambda>s. store_members ms (e\<lparr>Token := s\<rparr>))
      else if fold_name k = ''expirationtimestamp''
      then Option.bind (store_string j (ExpirationTimestamp e)) (\<lambda>s. store_members ms (e\<lparr>ExpirationTimestamp := s\<rparr>))
      else store_members ms e)"

definition store_entry :: "json \<Rightarrow> tokenEntry option" where
  "store_entry j = (case j of JObject ms \<Rightarrow> store_members ms no_entry | JNull \<Rightarrow> Some no_entry | _ \<Rightarrow> None)"

fun store_entries :: "(string \<times> json) list \<Rightarrow> (string, tokenEntry) fmap \<Rightarrow> (string, tokenEntry) fmap option" where
  "store_entries [] m = Some m"
| "store_entries ((k, j) # ms) m = Option.bind (store_entry j) (\<lambda>e. store_entries ms (fmupd k e m))"

text \<open>A null leaves the map nil, which reads as the empty one.\<close>

definition unmarshal_tokens :: "string \<Rightarrow> (string, tokenEntry) fmap option" where
  "unmarshal_tokens raw =
     (case json_parse raw of
        Some (JObject ms) \<Rightarrow> store_entries ms fmempty
      | Some JNull \<Rightarrow> Some fmempty
      | _ \<Rightarrow> None)"

definition Extract :: "attrs \<Rightarrow> string result" where
  "Extract volumeContext =
     (case fmlookup volumeContext KeyTokens of
        None \<Rightarrow> Inl ErrNoToken
      | Some raw \<Rightarrow>
          if raw = '''' then Inl ErrNoToken
          else (case unmarshal_tokens raw of
              None \<Rightarrow> Inl ErrNoToken
            | Some byAudience \<Rightarrow>
                if (case fmlookup byAudience '''' of None \<Rightarrow> False | Some entry \<Rightarrow> Token entry \<noteq> '''')
                then Inr (Token (the (fmlookup byAudience '''')))
                else (case sorted_list_of_fset (fmdom byAudience) of
                    [audience] \<Rightarrow>
                      if Token (the (fmlookup byAudience audience)) \<noteq> ''''
                      then Inr (Token (the (fmlookup byAudience audience)))
                      else Inl ErrNoToken
                  | _ \<Rightarrow> Inl ErrNoToken)))"

definition PodIdentity :: "attrs \<Rightarrow> (string \<times> string \<times> string) result" where
  "PodIdentity volumeContext =
     (let namespace = attr_get volumeContext KeyPodNamespace;
          serviceAccount = attr_get volumeContext KeyPodServiceAcct;
          uid = attr_get volumeContext KeyPodUID
      in if namespace = '''' \<or> serviceAccount = '''' \<or> uid = ''''
         then Inl (OtherErr ''pod identity missing from volume context'')
         else Inr (namespace, serviceAccount, uid))"

section \<open>The client\<close>

text \<open>\<open>rest.Config\<close>: where the API server is, the credential fields, and the transport wrappers,
  outermost last. A wrapper is named by the address of the token holder it reads. The providers are
  third-party configuration and only their presence matters.\<close>

record rest_config =
  Host :: string
  CAData :: bytes
  BearerToken :: string
  BearerTokenFile :: string
  Username :: string
  Password :: string
  CertFile :: string
  KeyFile :: string
  CertData :: slice
  KeyData :: slice
  AuthProvider :: bool
  ExecProvider :: bool
  Wrappers :: "nat list"

definition clearCredentials :: "rest_config \<Rightarrow> rest_config" where
  "clearCredentials cfg =
     cfg\<lparr>BearerToken := '''', BearerTokenFile := '''', Username := '''', Password := '''',
       CertFile := '''', KeyFile := '''', CertData := None, KeyData := None,
       AuthProvider := False, ExecProvider := False\<rparr>"

definition wrapTokenAuth :: "rest_config \<Rightarrow> nat \<Rightarrow> rest_config" where
  "wrapTokenAuth cfg holder = cfg\<lparr>Wrappers := Wrappers cfg @ [holder]\<rparr>"

text \<open>\<open>rest.InClusterConfig\<close> and \<open>kubernetes.NewForConfig\<close> are parameters.\<close>

definition ClientFor :: "rest_config result \<Rightarrow> (rest_config \<Rightarrow> 'c result) \<Rightarrow> nat \<Rightarrow> 'c result" where
  "ClientFor inCluster newForConfig holder =
     try_bind inCluster (\<lambda>cfg. newForConfig (wrapTokenAuth (clearCredentials cfg) holder))"

text \<open>The token holders of the process, by address, an atomic pointer each; an absent one is nil.\<close>

type_synonym holders = "(nat, string) fmap"
type_synonym headers = "(string, string) fmap"

text \<open>\<open>RoundTrip\<close> clones the request, sets the header and passes the clone on.\<close>

definition RoundTrip :: "holders \<Rightarrow> nat \<Rightarrow> (headers \<Rightarrow> 'r) \<Rightarrow> headers \<Rightarrow> 'r" where
  "RoundTrip tokens holder next req =
     (case fmlookup tokens holder of
        None \<Rightarrow> next req
      | Some tok \<Rightarrow>
          if tok \<noteq> '''' then next (fmupd ''Authorization'' (''Bearer '' @ tok) req) else next req)"

section \<open>Properties\<close>

text \<open>The audiences a token may come from: the default one, or the only one.\<close>

definition usable :: "(string, tokenEntry) fmap \<Rightarrow> string \<Rightarrow> bool" where
  "usable m audience \<longleftrightarrow> (\<exists>e. fmlookup m audience = Some e \<and> Token e \<noteq> '''') \<and>
     (audience = '''' \<or> fmdom m = {|audience|})"

lemma sorted_list_singleton: "sorted_list_of_fset S = [k] \<longleftrightarrow> S = {|k|}"
proof
  assume "sorted_list_of_fset S = [k]"
  from arg_cong [OF this, of fset_of_list] show "S = {|k|}" by simp
qed (simp add: sorted_list_of_fset.rep_eq)

text \<open>The token that is extracted is the one of the default audience, or of the only audience there
  is; it is never empty, and there is one whenever the payload has a usable one. Every failure is the
  bare \<open>ErrNoToken\<close>, which carries nothing of the payload.\<close>

theorem Extract_picks:
  assumes "fmlookup vc KeyTokens = Some raw" and "raw \<noteq> ''''" and "unmarshal_tokens raw = Some m"
  shows "case Extract vc of
      Inr tok \<Rightarrow> tok \<noteq> '''' \<and> (\<exists>a e. usable m a \<and> fmlookup m a = Some e \<and> tok = Token e)
    | Inl err \<Rightarrow> err = ErrNoToken \<and> (\<nexists>a. usable m a)"
proof (cases "\<exists>e. fmlookup m '''' = Some e \<and> Token e \<noteq> ''''")
  case True
  then obtain e where e: "fmlookup m '''' = Some e" "Token e \<noteq> ''''" by blast
  then have "usable m ''''" by (simp add: usable_def)
  with assms e show ?thesis by (auto simp: Extract_def)
next
  case False
  then have nd: "(case fmlookup m '''' of None \<Rightarrow> False | Some entry \<Rightarrow> Token entry \<noteq> '''') = False"
    by (auto split: option.splits)
  have u: "usable m a \<longleftrightarrow> fmdom m = {|a|} \<and> Token (the (fmlookup m a)) \<noteq> ''''" for a
    using False by (cases "fmlookup m a") (auto simp: usable_def dest: fmdomI fmdom_notI)
  show ?thesis
  proof (cases "\<exists>a. fmdom m = {|a|}")
    case True
    then obtain a where a: "fmdom m = {|a|}" by blast
    then have s: "sorted_list_of_fset (fmdom m) = [a]" by (simp add: sorted_list_singleton)
    have "a |\<in>| fmdom m" using a by simp
    then obtain e where e: "fmlookup m a = Some e" by (auto simp: fmlookup_dom_iff)
    show ?thesis
      using assms nd s e u by (cases "Token e = ''''") (auto simp: Extract_def a)
  next
    case no: False
    then have "\<And>a. sorted_list_of_fset (fmdom m) \<noteq> [a]" by (simp add: sorted_list_singleton)
    then have "Extract vc = Inl ErrNoToken"
      using assms nd by (auto simp: Extract_def split: list.splits)
    with no u show ?thesis by simp
  qed
qed

text \<open>C31: the credentials of the driver never travel: whatever the in-cluster configuration holds, the
  client is built on one with every credential field cleared, and its one new transport wrapper sets
  the authorization of each request to the token the holder has at that moment, over whatever the
  request carried; two holders do not mix, and the driver's address and CA stay.\<close>

theorem client_carries_only_pod_token:
  assumes "ClientFor (Inr cfg) newForConfig holder = Inr c"
  shows "\<exists>cfg'. newForConfig cfg' = Inr c \<and> Wrappers cfg' = Wrappers cfg @ [holder] \<and>
    Host cfg' = Host cfg \<and> CAData cfg' = CAData cfg \<and>
    BearerToken cfg' = '''' \<and> BearerTokenFile cfg' = '''' \<and> Username cfg' = '''' \<and> Password cfg' = '''' \<and>
    CertFile cfg' = '''' \<and> KeyFile cfg' = '''' \<and> CertData cfg' = None \<and> KeyData cfg' = None \<and>
    \<not> AuthProvider cfg' \<and> \<not> ExecProvider cfg' \<and>
    (\<forall>tokens tok other req. tok \<noteq> '''' \<longrightarrow> other \<noteq> holder \<longrightarrow>
       fmlookup (RoundTrip (fmupd holder tok tokens) holder id req) ''Authorization'' = Some (''Bearer '' @ tok) \<and>
       RoundTrip (fmupd holder tok tokens) other id req = RoundTrip tokens other id req)"
proof -
  let ?cfg = "wrapTokenAuth (clearCredentials cfg) holder"
  have "newForConfig ?cfg = Inr c" using assms by (simp add: ClientFor_def)
  then show ?thesis
    by (intro exI [of _ ?cfg]) (auto simp: wrapTokenAuth_def clearCredentials_def RoundTrip_def)
qed

definition in_cluster :: rest_config where
  "in_cluster =
     \<lparr>Host = ''https://10.0.0.1:443'', CAData = ''ca'', BearerToken = ''driver'', BearerTokenFile = ''/var/run/token'',
      Username = '''', Password = '''', CertFile = '''', KeyFile = '''', CertData = None, KeyData = None,
      AuthProvider = False, ExecProvider = False, Wrappers = []\<rparr>"

theorem client_carries_only_pod_token_witness:
  "\<exists>cfg'. ClientFor (Inr in_cluster) Inr 7 = Inr cfg' \<and> BearerToken cfg' = '''' \<and> BearerTokenFile cfg' = '''' \<and>
    Wrappers cfg' = [7]"
proof -
  obtain cfg where "ClientFor (Inr in_cluster) Inr 7 = Inr cfg" by (simp add: ClientFor_def)
  from client_carries_only_pod_token [OF this] this show ?thesis by (auto simp: in_cluster_def)
qed

text \<open>A payload with one named audience.\<close>

definition demo_payload :: string where
  "demo_payload = ''{ '' @ quote_json ''vault'' @ '':{'' @ quote_json ''Token'' @ '': '' @ quote_json ''abc'' @ '',''
     @ quote_json ''extra'' @ '':null}}''"

lemma demo_payload_parse:
  "json_parse demo_payload = Some (JObject [(''vault'', JObject [(''Token'', JString ''abc''), (''extra'', JNull)])])"
  by code_simp

lemma demo_payload_tokens:
  "unmarshal_tokens demo_payload = Some (fmupd ''vault'' \<lparr>Token = ''abc'', ExpirationTimestamp = ''''\<rparr> fmempty)"
proof -
  have n: "fold_name ''Token'' = ''token''" "fold_name ''extra'' = ''extra''" by code_simp+
  show ?thesis
    by (simp add: unmarshal_tokens_def demo_payload_parse store_entry_def no_entry_def store_string_def n
        del: fold_name.simps)
qed

lemma demo_payload_nonempty [simp]: "demo_payload \<noteq> []" "[] \<noteq> demo_payload"
  by (simp_all add: demo_payload_def)

theorem Extract_picks_witness:
  "Extract (fmupd KeyTokens demo_payload fmempty) = Inr ''abc''"
proof -
  let ?e = "\<lparr>Token = ''abc'', ExpirationTimestamp = ''''\<rparr>"
  have "usable (fmupd ''vault'' ?e fmempty) ''vault''" by (simp add: usable_def)
  with Extract_picks [OF _ _ demo_payload_tokens, of "fmupd KeyTokens demo_payload fmempty"] show ?thesis
    by (auto simp: usable_def split: sum.splits if_splits)
qed

end
