(* ===== verification/Mounts.thy ===== *)
theory Mounts
  imports Json
begin

text \<open>
  \<open>pkg/mounts\<close>: the registry of the mounts this node plugin owns with its JSON state file
  (\<open>registry.go\<close>), and the detaching of mounts a previous process left (\<open>detach.go\<close>).

  The kernel is a parameter: a record of the system calls on a world \<open>'w\<close>. The JSON text of the
  records is that of \<open>Json\<close>. A \<open>*Live\<close> is a record with the address of
  its token holder; its two closures are named by the context they cancel and the FUSE server they
  unmount, \<open>None\<close> when the field is nil.
\<close>

record mount =
  mt_TargetPath :: string
  mt_ObjectKind :: string
  mt_ObjectName :: string
  mt_Namespace :: string

record live =
  l_Token :: nat
  l_Cancel :: "nat option"
  l_Unmount :: "nat option"

record registry =
  r_statePath :: string
  r_live :: "(string, live) fmap"
  r_records :: "(string, mount) fmap"

type_synonym records = "(string, mount) fmap"

section \<open>The system calls\<close>

text \<open>The errors the code tells apart.\<close>

datatype sys_err = ENotExist | ENotConn | EOther string

type_synonym 'a sys = "sys_err + 'a"

text \<open>\<open>sys_Lstat\<close> gives the device number, \<open>None\<close> if the platform has none; \<open>sys_umount\<close> is
  \<open>umount2\<close> with \<open>MNT_DETACH\<close>; \<open>sys_cancel\<close> cancels a context and \<open>sys_fuse_unmount\<close> is
  \<open>Server.Unmount\<close>.\<close>

record 'w os =
  sys_ReadFile :: "string \<Rightarrow> 'w \<Rightarrow> string sys \<times> 'w"
  sys_MkdirAll :: "string \<Rightarrow> nat \<Rightarrow> 'w \<Rightarrow> unit sys \<times> 'w"
  sys_WriteFile :: "string \<Rightarrow> string \<Rightarrow> nat \<Rightarrow> 'w \<Rightarrow> unit sys \<times> 'w"
  sys_Rename :: "string \<Rightarrow> string \<Rightarrow> 'w \<Rightarrow> unit sys \<times> 'w"
  sys_Remove :: "string \<Rightarrow> 'w \<Rightarrow> unit sys \<times> 'w"
  sys_Lstat :: "string \<Rightarrow> 'w \<Rightarrow> nat option sys \<times> 'w"
  sys_umount :: "string \<Rightarrow> 'w \<Rightarrow> unit sys \<times> 'w"
  sys_fusermount :: "string \<Rightarrow> 'w \<Rightarrow> unit sys \<times> 'w"
  sys_cancel :: "nat \<Rightarrow> 'w \<Rightarrow> 'w"
  sys_fuse_unmount :: "nat \<Rightarrow> 'w \<Rightarrow> unit sys \<times> 'w"

text \<open>\<open>filepath.Dir\<close> of an absolute path without redundant parts, which is what the state path and
  the target paths are.\<close>

definition path_Dir :: "string \<Rightarrow> string" where
  "path_Dir p =
     (case dropWhile (\<lambda>c. c \<noteq> CHR ''/'') (rev p) of
        [] \<Rightarrow> ''.''
      | [c] \<Rightarrow> ''/''
      | c # rest \<Rightarrow> rev rest)"

section \<open>Detaching stale mounts\<close>

definition isMountpoint :: "'w os \<Rightarrow> string \<Rightarrow> 'w \<Rightarrow> bool sys \<times> 'w" where
  "isMountpoint S target w =
     (case sys_Lstat S target w of
        (Inl e, w1) \<Rightarrow>
          (if e = ENotExist then Inr False else if e = ENotConn then Inr True else Inl e, w1)
      | (Inr st, w1) \<Rightarrow>
          (case sys_Lstat S (path_Dir target) w1 of
             (Inl e, w2) \<Rightarrow> (Inl e, w2)
           | (Inr pst, w2) \<Rightarrow>
               (case (st, pst) of
                  (Some dev, Some pdev) \<Rightarrow> (Inr (dev \<noteq> pdev), w2)
                | _ \<Rightarrow> (Inr False, w2))))"

definition DetachStale :: "'w os \<Rightarrow> string \<Rightarrow> 'w \<Rightarrow> unit sys \<times> 'w" where
  "DetachStale S target w =
     (case isMountpoint S target w of
        (Inl e, w1) \<Rightarrow> (Inl e, w1)
      | (Inr mounted, w1) \<Rightarrow>
          if \<not> mounted then (Inr (), w1)
          else (case sys_umount S target w1 of
              (Inr _, w2) \<Rightarrow> (Inr (), w2)
            | (Inl e, w2) \<Rightarrow>
                (case sys_fusermount S target w2 of
                   (Inl _, w3) \<Rightarrow> (Inl e, w3)
                 | (Inr _, w3) \<Rightarrow> (Inr (), w3))))"

section \<open>The registry\<close>

definition empty_registry :: "string \<Rightarrow> registry" where
  "empty_registry statePath = \<lparr>r_statePath = statePath, r_live = fmempty, r_records = fmempty\<rparr>"

text \<open>\<open>json.MarshalIndent\<close> of the records: the targets in order, the fields of a \<open>Mount\<close> under their tags.\<close>

definition mount_json :: "mount \<Rightarrow> json" where
  "mount_json m = JObject
     [(''targetPath'', JString (mt_TargetPath m)), (''objectKind'', JString (mt_ObjectKind m)),
      (''objectName'', JString (mt_ObjectName m)), (''namespace'', JString (mt_Namespace m))]"

definition records_json :: "records \<Rightarrow> json" where
  "records_json r = JObject (map (\<lambda>t. (t, mount_json (the (fmlookup r t)))) (sorted_list_of_fset (fmdom r)))"

definition MarshalIndent :: "records \<Rightarrow> string" where
  "MarshalIndent r = json_print 0 (records_json r)"

text \<open>\<open>json.Unmarshal\<close> into \<open>map[string]Mount\<close>; a null leaves the map nil, which \<open>NewRegistry\<close> replaces by the
  empty one.\<close>

definition no_mount :: mount where
  "no_mount = \<lparr>mt_TargetPath = [], mt_ObjectKind = [], mt_ObjectName = [], mt_Namespace = []\<rparr>"

definition store_field :: "string \<Rightarrow> json \<Rightarrow> mount \<Rightarrow> mount option" where
  "store_field k j m =
     (if fold_name k = ''targetpath'' then map_option (\<lambda>s. m\<lparr>mt_TargetPath := s\<rparr>) (store_string j (mt_TargetPath m))
      else if fold_name k = ''objectkind'' then map_option (\<lambda>s. m\<lparr>mt_ObjectKind := s\<rparr>) (store_string j (mt_ObjectKind m))
      else if fold_name k = ''objectname'' then map_option (\<lambda>s. m\<lparr>mt_ObjectName := s\<rparr>) (store_string j (mt_ObjectName m))
      else if fold_name k = ''namespace'' then map_option (\<lambda>s. m\<lparr>mt_Namespace := s\<rparr>) (store_string j (mt_Namespace m))
      else Some m)"

fun store_fields :: "(string \<times> json) list \<Rightarrow> mount \<Rightarrow> mount option" where
  "store_fields [] m = Some m"
| "store_fields ((k, j) # ms) m = Option.bind (store_field k j m) (store_fields ms)"

definition store_mount :: "json \<Rightarrow> mount option" where
  "store_mount j = (case j of JObject ms \<Rightarrow> store_fields ms no_mount | JNull \<Rightarrow> Some no_mount | _ \<Rightarrow> None)"

fun store_records :: "(string \<times> json) list \<Rightarrow> records \<Rightarrow> records option" where
  "store_records [] r = Some r"
| "store_records ((k, j) # ms) r = Option.bind (store_mount j) (\<lambda>m. store_records ms (fmupd k m r))"

definition unmarshal_records :: "string \<Rightarrow> records option" where
  "unmarshal_records raw =
     (case json_parse raw of
        Some (JObject ms) \<Rightarrow> store_records ms fmempty
      | Some JNull \<Rightarrow> Some fmempty
      | _ \<Rightarrow> None)"

definition NewRegistry :: "'w os \<Rightarrow> string \<Rightarrow> 'w \<Rightarrow> registry sys \<times> 'w" where
  "NewRegistry S statePath w =
     (case sys_ReadFile S statePath w of
        (Inl e, w1) \<Rightarrow>
          (if e = ENotExist then Inr (empty_registry statePath) else Inl e, w1)
      | (Inr raw, w1) \<Rightarrow>
          (case unmarshal_records raw of
             None \<Rightarrow> (Inr (empty_registry statePath), w1)
           | Some records \<Rightarrow> (Inr ((empty_registry statePath)\<lparr>r_records := records\<rparr>), w1)))"

definition registry_Get :: "registry \<Rightarrow> string \<Rightarrow> live option" where
  "registry_Get r target = fmlookup (r_live r) target"

definition WasPublished :: "registry \<Rightarrow> string \<Rightarrow> bool" where
  "WasPublished r target =
     (if target |\<in>| fmdom (r_live r) then True else target |\<in>| fmdom (r_records r))"

definition persist :: "'w os \<Rightarrow> registry \<Rightarrow> 'w \<Rightarrow> unit sys \<times> 'w" where
  "persist S r w =
     (let raw = MarshalIndent (r_records r) in
      case sys_MkdirAll S (path_Dir (r_statePath r)) 0x1ED w of
        (Inl e, w1) \<Rightarrow> (Inl e, w1)
      | (Inr _, w1) \<Rightarrow>
          let tmp = r_statePath r @ ''.tmp'' in
          (case sys_WriteFile S tmp raw 0x180 w1 of
             (Inl e, w2) \<Rightarrow> (Inl e, snd (sys_Remove S tmp w2))
           | (Inr _, w2) \<Rightarrow> sys_Rename S tmp (r_statePath r) w2))"

text \<open>The two halves of \<open>Put\<close> and \<open>Delete\<close>: the entries are changed under the mutex, what follows is
  done without it.\<close>

definition put_entry :: "registry \<Rightarrow> string \<Rightarrow> live \<Rightarrow> mount \<Rightarrow> registry" where
  "put_entry r target live m =
     r\<lparr>r_live := fmupd target live (r_live r), r_records := fmupd target m (r_records r)\<rparr>"

definition delete_entry :: "registry \<Rightarrow> string \<Rightarrow> registry" where
  "delete_entry r target =
     r\<lparr>r_live := fmdrop target (r_live r), r_records := fmdrop target (r_records r)\<rparr>"

definition registry_Put ::
  "'w os \<Rightarrow> registry \<Rightarrow> string \<Rightarrow> live \<Rightarrow> mount \<Rightarrow> 'w
    \<Rightarrow> unit sys \<times> registry \<times> 'w" where
  "registry_Put S r target live m w =
     (let r1 = put_entry r target live m in
      case persist S r1 w of (res, w1) \<Rightarrow> (res, r1, w1))"

definition live_Cancel :: "'w os \<Rightarrow> live \<Rightarrow> 'w \<Rightarrow> 'w" where
  "live_Cancel S l w = (case l_Cancel l of None \<Rightarrow> w | Some c \<Rightarrow> sys_cancel S c w)"

definition live_Unmount :: "'w os \<Rightarrow> live \<Rightarrow> 'w \<Rightarrow> unit sys \<times> 'w" where
  "live_Unmount S l w = (case l_Unmount l of None \<Rightarrow> (Inr (), w) | Some srv \<Rightarrow> sys_fuse_unmount S srv w)"

text \<open>What \<open>Delete\<close> does between its two halves, with what it found in the tables.\<close>

definition tear_down :: "'w os \<Rightarrow> live option \<Rightarrow> bool \<Rightarrow> string \<Rightarrow> 'w \<Rightarrow> unit sys \<times> 'w" where
  "tear_down S found hadRecord target w =
     (case found of
        Some l \<Rightarrow> live_Unmount S l (live_Cancel S l w)
      | None \<Rightarrow> if hadRecord then DetachStale S target w else (Inr (), w))"

definition registry_Delete ::
  "'w os \<Rightarrow> registry \<Rightarrow> string \<Rightarrow> 'w \<Rightarrow> unit sys \<times> registry \<times> 'w" where
  "registry_Delete S r target w =
     (let r1 = delete_entry r target in
      case tear_down S (registry_Get r target) (target |\<in>| fmdom (r_records r)) target w of
        (Inl e, w1) \<Rightarrow> (Inl e, r1, snd (persist S r1 w1))
      | (Inr _, w1) \<Rightarrow> (case persist S r1 w1 of (res, w2) \<Rightarrow> (res, r1, w2)))"

text \<open>\<open>Shutdown\<close> goes over the live mounts in the map's unspecified order, here a given one, and keeps
  the records; an unmount error is logged only.\<close>

fun Shutdown_list :: "'w os \<Rightarrow> live list \<Rightarrow> 'w \<Rightarrow> 'w" where
  "Shutdown_list S [] w = w"
| "Shutdown_list S (l # ls) w = Shutdown_list S ls (snd (live_Unmount S l (live_Cancel S l w)))"

definition Shutdown :: "'w os \<Rightarrow> registry \<Rightarrow> string list \<Rightarrow> 'w \<Rightarrow> 'w" where
  "Shutdown S r order w = Shutdown_list S (map (\<lambda>t. the (fmlookup (r_live r) t)) order) w"

section \<open>The table the driver relies on\<close>

text \<open>
  What \<open>NodePublishVolume\<close> needs of the registry's table, whatever it is made of: the laws of \<open>Get\<close> and
  \<open>WasPublished\<close> after an entry was put or deleted, and that a live mount counts as published.
\<close>

locale mount_table =
  fixes get :: "'r \<Rightarrow> string \<Rightarrow> 'l option"
    and published :: "'r \<Rightarrow> string \<Rightarrow> bool"
    and put :: "'r \<Rightarrow> string \<Rightarrow> 'l \<Rightarrow> 'm \<Rightarrow> 'r"
    and del :: "'r \<Rightarrow> string \<Rightarrow> 'r"
  assumes get_put: "get (put r t l m) t' = (if t' = t then Some l else get r t')"
    and get_del: "get (del r t) t' = (if t' = t then None else get r t')"
    and published_put: "published (put r t l m) t' \<longleftrightarrow> t' = t \<or> published r t'"
    and published_del: "published (del r t) t' \<longleftrightarrow> t' \<noteq> t \<and> published r t'"
    and live_published: "get r t = Some l \<Longrightarrow> published r t"
begin

text \<open>Operations on other targets do not show.\<close>

lemma others_keep:
  assumes "t' \<notin> fst ` set hs"
  shows "get (fold (\<lambda>(t, x) r. case x of Some (l, m) \<Rightarrow> put r t l m | None \<Rightarrow> del r t) hs r) t' = get r t' \<and>
    published (fold (\<lambda>(t, x) r. case x of Some (l, m) \<Rightarrow> put r t l m | None \<Rightarrow> del r t) hs r) t' = published r t'"
  using assms
proof (induction hs arbitrary: r)
  case (Cons h hs)
  obtain t x where h: "h = (t, x)" by (cases h)
  with Cons.prems have t: "t' \<noteq> t" "t' \<notin> fst ` set hs" by auto
  show ?case
  proof (cases x)
    case None
    with h t Cons.IH [of "del r t"] show ?thesis by (simp add: get_del published_del)
  next
    case (Some lm)
    then obtain l m where "x = Some (l, m)" by (cases lm) simp
    with h t Cons.IH [of "put r t l m"] show ?thesis by (simp add: get_put published_put)
  qed
qed simp

text \<open>So a target stays live, and published, from its put to its delete, whatever happens to others.\<close>

lemma live_until_deleted:
  assumes "t' \<notin> fst ` set hs"
  shows "get (fold (\<lambda>(t, x) r. case x of Some (l, m) \<Rightarrow> put r t l m | None \<Rightarrow> del r t) hs (put r0 t' l0 m0)) t' = Some l0"
  using others_keep [OF assms, where r = "put r0 t' l0 m0"] by (simp add: get_put)

lemma forgotten_until_put:
  assumes "t' \<notin> fst ` set hs"
  shows "\<not> published (fold (\<lambda>(t, x) r. case x of Some (l, m) \<Rightarrow> put r t l m | None \<Rightarrow> del r t) hs (del r0 t')) t'"
  using others_keep [OF assms, where r = "del r0 t'"] by (simp add: published_del)

end

interpretation table: mount_table registry_Get WasPublished put_entry delete_entry
  by unfold_locales
    (auto simp: registry_Get_def WasPublished_def put_entry_def delete_entry_def dest: fmdomI)

section \<open>The state file\<close>

text \<open>What the file system documents, on the view \<open>files\<close> of its contents by path: a read gives the
  contents, writing a file touches only that file, whether it succeeds or not, and a rename replaces
  its target at once or changes nothing.\<close>

definition disk :: "'w os \<Rightarrow> ('w \<Rightarrow> (string, string) fmap) \<Rightarrow> bool" where
  "disk S files \<longleftrightarrow>
     (\<forall>p w. fst (sys_ReadFile S p w) = (case fmlookup (files w) p of None \<Rightarrow> Inl ENotExist | Some t \<Rightarrow> Inr t)) \<and>
     (\<forall>p w. files (snd (sys_ReadFile S p w)) = files w) \<and>
     (\<forall>p m w. files (snd (sys_MkdirAll S p m w)) = files w) \<and>
     (\<forall>p t m w r w1. sys_WriteFile S p t m w = (r, w1) \<longrightarrow>
        (\<forall>q. q \<noteq> p \<longrightarrow> fmlookup (files w1) q = fmlookup (files w) q) \<and>
        (r = Inr () \<longrightarrow> fmlookup (files w1) p = Some t)) \<and>
     (\<forall>p q w r w1. sys_Rename S p q w = (r, w1) \<longrightarrow>
        (if r = Inr () then fmlookup (files w1) q = fmlookup (files w) p else files w1 = files w)) \<and>
     (\<forall>p q w. q \<noteq> p \<longrightarrow> fmlookup (files (snd (sys_Remove S p w))) q = fmlookup (files w) q)"

lemma persist_file:
  assumes "disk S files" and "persist S r w = (res, w1)"
  shows "fmlookup (files w1) (r_statePath r) =
    (if res = Inr () then Some (MarshalIndent (r_records r)) else fmlookup (files w) (r_statePath r))"
proof -
  let ?p = "r_statePath r" and ?tmp = "r_statePath r @ ''.tmp''" and ?raw = "MarshalIndent (r_records r)"
  have ne: "?tmp \<noteq> ?p" "?p \<noteq> ?tmp" by simp_all
  obtain r1 w' where m: "sys_MkdirAll S (path_Dir ?p) 0x1ED w = (r1, w')"
    by (cases "sys_MkdirAll S (path_Dir ?p) 0x1ED w")
  have fm: "files w' = files w" using assms(1) m unfolding disk_def by (metis snd_conv)
  show ?thesis
  proof (cases r1)
    case (Inl e)
    with assms(2) m fm show ?thesis by (auto simp: persist_def)
  next
    case r1: (Inr u)
    obtain r2 w2 where wr: "sys_WriteFile S ?tmp ?raw 0x180 w' = (r2, w2)"
      by (cases "sys_WriteFile S ?tmp ?raw 0x180 w'")
    have f2: "fmlookup (files w2) ?p = fmlookup (files w) ?p"
      "r2 = Inr () \<Longrightarrow> fmlookup (files w2) ?tmp = Some ?raw"
      using assms(1) wr ne fm unfolding disk_def by metis+
    show ?thesis
    proof (cases r2)
      case (Inl e)
      with assms(2) m r1 wr have "res = Inl e" "w1 = snd (sys_Remove S ?tmp w2)"
        by (auto simp: persist_def Let_def)
      moreover have "fmlookup (files (snd (sys_Remove S ?tmp w2))) ?p = fmlookup (files w2) ?p"
        using assms(1) ne unfolding disk_def by blast
      ultimately show ?thesis using f2 by simp
    next
      case (Inr u2)
      with assms(2) m r1 wr have rn: "sys_Rename S ?tmp ?p w2 = (res, w1)"
        by (auto simp: persist_def Let_def)
      with assms(1) have "if res = Inr () then fmlookup (files w1) ?p = fmlookup (files w2) ?tmp
        else files w1 = files w2" unfolding disk_def by blast
      with f2 Inr show ?thesis by (cases res) auto
    qed
  qed
qed

text \<open>The records whose text is read back as it was: their strings are UTF-8, as every string of a gRPC
  request is.\<close>

definition valid_mount :: "mount \<Rightarrow> bool" where
  "valid_mount m \<longleftrightarrow> valid_utf8 (mt_TargetPath m) \<and> valid_utf8 (mt_ObjectKind m) \<and>
     valid_utf8 (mt_ObjectName m) \<and> valid_utf8 (mt_Namespace m)"

definition valid_records :: "records \<Rightarrow> bool" where
  "valid_records r \<longleftrightarrow> (\<forall>t m. fmlookup r t = Some m \<longrightarrow> valid_utf8 t \<and> valid_mount m)"

lemma field_names:
  "fold_name ''targetPath'' = ''targetpath''" "fold_name ''objectKind'' = ''objectkind''"
  "fold_name ''objectName'' = ''objectname''" "fold_name ''namespace'' = ''namespace''"
  by code_simp+

lemma field_names_valid:
  "valid_utf8 ''targetPath''" "valid_utf8 ''objectKind''" "valid_utf8 ''objectName''" "valid_utf8 ''namespace''"
  by (rule ascii_valid; simp)+

lemma store_mount_json: "store_mount (mount_json m) = Some m"
  by (simp add: store_mount_def mount_json_def store_field_def field_names store_string_def no_mount_def
      del: fold_name.simps)

lemma store_records_map:
  "store_records (map (\<lambda>t. (t, mount_json (f t))) ts) r = Some (fold (\<lambda>t. fmupd t (f t)) ts r)"
  by (induction ts arbitrary: r) (simp_all add: store_mount_json)

lemma state_file_text:
  assumes "valid_records r"
  shows "unmarshal_records (MarshalIndent r) = Some r"
proof -
  let ?ts = "sorted_list_of_fset (fmdom r)"
  have u: "utf8_json (records_json r)"
    using assms field_names_valid
    by (auto simp: records_json_def mount_json_def valid_records_def valid_mount_def fmlookup_dom_iff
        simp del: valid_utf8.simps)
  have n: "no_numbers (records_json r)" "nested maxNestingDepth (records_json r)"
    by (auto simp: records_json_def mount_json_def maxNestingDepth_def)
  have "fold (\<lambda>t. fmupd t (the (fmlookup r t))) ?ts fmempty = r"
    by (rule fmap_ext) (auto simp: fmlookup_fold_fmupd fmlookup_dom_iff)
  then show ?thesis
    by (simp add: unmarshal_records_def MarshalIndent_def json_round_trip [OF u n])
      (simp add: records_json_def store_records_map)
qed

text \<open>C21: the state file says what the registry's records are: the text that \<open>json.MarshalIndent\<close> writes,
  its escapes, its order and its layout included, is read back by \<open>json.Unmarshal\<close> as the same records.\<close>

theorem state_file_round_trip:
  assumes "valid_records r"
  shows "unmarshal_records (MarshalIndent r) = Some r"
  using assms by (rule state_file_text)

text \<open>And whatever the file holds, what is read is valid.\<close>

lemma valid_no_mount: "valid_mount no_mount"
  by (simp add: valid_mount_def no_mount_def)

lemma valid_store_field: "store_field k j m = Some m' \<Longrightarrow> utf8_json j \<Longrightarrow> valid_mount m \<Longrightarrow> valid_mount m'"
  by (auto simp: store_field_def store_string_def valid_mount_def split: if_splits json.splits)

lemma valid_store_fields:
  "store_fields ms m = Some m' \<Longrightarrow> \<forall>(k, v)\<in>set ms. valid_utf8 k \<and> utf8_json v \<Longrightarrow> valid_mount m \<Longrightarrow> valid_mount m'"
  by (induction ms m rule: store_fields.induct) (auto simp: bind_eq_Some_conv dest: valid_store_field)

lemma valid_store_records:
  "store_records ms r = Some r' \<Longrightarrow> \<forall>(k, v)\<in>set ms. valid_utf8 k \<and> utf8_json v \<Longrightarrow> valid_records r \<Longrightarrow> valid_records r'"
proof (induction ms r rule: store_records.induct)
  case (2 k j ms r)
  then obtain m where m: "store_mount j = Some m" "store_records ms (fmupd k m r) = Some r'"
    by (auto simp: bind_eq_Some_conv)
  have "valid_mount m"
    using m(1) "2.prems"(2) valid_no_mount
    by (auto simp: store_mount_def split: json.splits dest: valid_store_fields)
  with "2.prems" have "valid_records (fmupd k m r)" by (auto simp: valid_records_def split: if_splits)
  with "2.IH" [OF m(1,2)] "2.prems"(2) show ?case by simp
qed auto

lemma valid_unmarshal: "unmarshal_records raw = Some r \<Longrightarrow> valid_records r"
proof -
  assume a: "unmarshal_records raw = Some r"
  have e: "valid_records fmempty" by (simp add: valid_records_def)
  from a consider ms where "json_parse raw = Some (JObject ms)" "store_records ms fmempty = Some r" | "r = fmempty"
    by (auto simp: unmarshal_records_def split: option.splits json.splits)
  then show ?thesis
  proof cases
    case 1
    from utf8_parse [OF 1(1)] valid_store_records [OF 1(2) _ e] show ?thesis by simp
  qed (simp add: e)
qed

text \<open>A registry as it should be: valid strings, and a record for every live mount.\<close>

definition reg_ok :: "registry \<Rightarrow> bool" where
  "reg_ok r \<longleftrightarrow> valid_records (r_records r) \<and> fmdom (r_live r) |\<subseteq>| fmdom (r_records r)"

text \<open>C22: the registry is well formed from the start and stays so: whatever the state file holds, a registry
  made from it has UTF-8 strings only, and a record for every live mount; \<open>Put\<close> keeps that for the strings
  of a request, and \<open>Delete\<close> keeps it, whatever they answer.\<close>

theorem registry_well_formed:
  "(NewRegistry S p w = (Inr r0, w0) \<longrightarrow> reg_ok r0) \<and>
   (reg_ok r \<longrightarrow> valid_utf8 t \<longrightarrow> valid_mount m \<longrightarrow> reg_ok (fst (snd (registry_Put S r t l m w)))) \<and>
   (reg_ok r \<longrightarrow> reg_ok (fst (snd (registry_Delete S r t w))))"
proof (intro conjI impI)
  assume "NewRegistry S p w = (Inr r0, w0)"
  then consider "r0 = empty_registry p" | raw records where "unmarshal_records raw = Some records"
      "r0 = (empty_registry p)\<lparr>r_records := records\<rparr>"
    by (auto simp: NewRegistry_def split: prod.splits sum.splits option.splits if_splits)
  then show "reg_ok r0"
    by cases (auto simp: reg_ok_def empty_registry_def valid_records_def [of fmempty] dest: valid_unmarshal)
next
  assume "reg_ok r" "valid_utf8 t" "valid_mount m"
  then have "reg_ok (put_entry r t l m)"
    by (auto simp: reg_ok_def put_entry_def valid_records_def split: if_splits)
  then show "reg_ok (fst (snd (registry_Put S r t l m w)))"
    by (simp add: registry_Put_def Let_def split: prod.splits)
next
  assume "reg_ok r"
  then have "reg_ok (delete_entry r t)"
    by (auto simp: reg_ok_def delete_entry_def valid_records_def split: if_splits)
  then show "reg_ok (fst (snd (registry_Delete S r t w)))"
    by (simp add: registry_Delete_def Let_def split: prod.splits sum.splits)
qed

lemma restart_after_persist:
  assumes "disk S files" "valid_records (r_records r)" "persist S r w = (Inr (), w1)"
  shows "\<exists>r' w2. NewRegistry S (r_statePath r) w1 = (Inr r', w2) \<and> r_records r' = r_records r \<and>
    r_live r' = fmempty \<and> r_statePath r' = r_statePath r"
proof -
  have "fmlookup (files w1) (r_statePath r) = Some (MarshalIndent (r_records r))"
    using persist_file [OF assms(1,3)] by simp
  then have "fst (sys_ReadFile S (r_statePath r) w1) = Inr (MarshalIndent (r_records r))"
    using assms(1) unfolding disk_def by (metis option.simps(5))
  then show ?thesis
    using state_file_text [OF assms(2)]
    by (cases "sys_ReadFile S (r_statePath r) w1") (simp add: NewRegistry_def empty_registry_def)
qed

text \<open>C34: the state file is replaced atomically: after \<open>persist\<close> it holds the encoding of the records if
  it succeeded, and exactly what it held before if any of its steps failed, a crash in the middle of
  the write included.\<close>

theorem persist_is_atomic:
  assumes "disk S files" and "persist S r w = (res, w1)"
  shows "if res = Inr () then fmlookup (files w1) (r_statePath r) = Some (MarshalIndent (r_records r))
    else fmlookup (files w1) (r_statePath r) = fmlookup (files w) (r_statePath r)"
  using persist_file [OF assms] by simp

text \<open>A restart remembers what was published and nothing else: after a successful \<open>Put\<close> the registry
  of the next process has no live mount, and counts as published exactly the targets that were recorded,
  the new one included.\<close>

theorem restart_remembers:
  assumes "disk S files" and "valid_records (r_records r)" "valid_utf8 target" "valid_mount m"
    and "registry_Put S r target live m w = (Inr (), r1, w1)"
  shows "\<exists>r' w2. NewRegistry S (r_statePath r) w1 = (Inr r', w2) \<and>
    (\<forall>t. registry_Get r' t = None \<and> (WasPublished r' t \<longleftrightarrow> t = target \<or> t |\<in>| fmdom (r_records r)))"
proof -
  have p: "persist S (put_entry r target live m) w = (Inr (), w1)"
    using assms(5) by (auto simp: registry_Put_def Let_def split: prod.splits)
  have v: "valid_records (r_records (put_entry r target live m))"
    using assms(2-4) by (auto simp: valid_records_def put_entry_def split: if_splits)
  from restart_after_persist [OF assms(1) v p] show ?thesis
    by (fastforce simp: put_entry_def registry_Get_def WasPublished_def)
qed

text \<open>\<open>Delete\<close> forgets the target in every case, touches no other one, cancels and unmounts what was
  live, and detaches what a previous process left; a target that is neither is only persisted.\<close>

theorem delete_forgets:
  assumes "registry_Delete S r target w = (res, r1, w1)"
  shows "registry_Get r1 target = None \<and> \<not> WasPublished r1 target \<and>
    (\<forall>t. t \<noteq> target \<longrightarrow> registry_Get r1 t = registry_Get r t \<and> WasPublished r1 t = WasPublished r t) \<and>
    (case registry_Get r target of
       Some l \<Rightarrow> (\<exists>u w2. live_Unmount S l (live_Cancel S l w) = (u, w2) \<and> (res = Inr () \<longrightarrow> u = Inr ()) \<and>
         w1 = snd (persist S r1 w2))
     | None \<Rightarrow> if WasPublished r target
         then \<exists>u w2. DetachStale S target w = (u, w2) \<and> (res = Inr () \<longrightarrow> u = Inr ()) \<and> w1 = snd (persist S r1 w2)
         else (res, w1) = persist S r1 w)"
proof -
  have r1: "r1 = delete_entry r target"
    using assms by (auto simp: registry_Delete_def tear_down_def Let_def split: prod.splits sum.splits)
  have pub: "WasPublished r target \<longleftrightarrow> target |\<in>| fmdom (r_records r)" if "registry_Get r target = None"
    using that by (auto simp: WasPublished_def registry_Get_def fmlookup_dom_iff)
  show ?thesis
    using assms pub unfolding r1
    by (auto simp: table.get_del table.published_del registry_Delete_def tear_down_def Let_def
        split: option.splits prod.splits sum.splits if_splits)
qed

text \<open>A failure of \<open>Put\<close>'s persist still leaves the entry behind: the target has a live mount in the
  registry although the caller is told that recording it failed.\<close>

theorem failed_put_stays_live:
  assumes "registry_Put S r target live m w = (Inl e, r1, w1)"
  shows "registry_Get r1 target = Some live \<and> WasPublished r1 target"
proof -
  have "r1 = put_entry r target live m"
    using assms by (auto simp: registry_Put_def Let_def split: prod.splits)
  then show ?thesis by (simp add: table.get_put table.published_put)
qed

text \<open>After an unmount that failed, the target is forgotten, so the retry of the same request finds
  nothing to unmount and reports what persisting reports, although the mount is still there.\<close>

theorem delete_retry_reports_success:
  assumes "registry_Get r target = Some l" and "live_Unmount S l (live_Cancel S l w) = (Inl e, w1)"
    and "registry_Delete S r target w = (res, r1, w2)" and "persist S r1 w2 = (Inr (), w3)"
  shows "res = Inl e \<and> registry_Delete S r1 target w2 = (Inr (), r1, w3)"
proof -
  have r1: "r1 = delete_entry r target" and res: "res = Inl e"
    using assms(1-3) by (auto simp: registry_Delete_def tear_down_def Let_def)
  have "delete_entry r1 target = r1" unfolding r1 by (simp add: delete_entry_def fmdrop_idle')
  moreover have "registry_Get r1 target = None" "target |\<notin>| fmdom (r_records r1)"
    by (simp_all add: r1 table.get_del) (simp add: delete_entry_def)
  ultimately have "registry_Delete S r1 target w2 = (case persist S r1 w2 of (res, w2) \<Rightarrow> (res, r1, w2))"
    by (simp add: registry_Delete_def tear_down_def Let_def)
  with res assms(4) show ?thesis by simp
qed

section \<open>A concrete system\<close>

text \<open>
  One instance of the parameters, used by the witnesses only: files in a map, a set of mount points
  (a mount point has another device number than its parent), running FUSE servers, and switches that
  make a write and an unmount fail.
\<close>

record node_world =
  nw_files :: "(string, string) fmap"
  nw_full :: bool
  nw_stuck :: bool
  nw_mounts :: "string list"
  nw_running :: "nat list"

definition node_world0 :: node_world where
  "node_world0 = \<lparr>nw_files = fmempty, nw_full = False, nw_stuck = False, nw_mounts = [], nw_running = [7]\<rparr>"

definition ref_os :: "node_world os" where
  "ref_os =
     \<lparr>sys_ReadFile = (\<lambda>p w. (case fmlookup (nw_files w) p of None \<Rightarrow> Inl ENotExist | Some t \<Rightarrow> Inr t, w)),
      sys_MkdirAll = (\<lambda>p m w. (Inr (), w)),
      sys_WriteFile = (\<lambda>p t m w. if nw_full w then (Inl (EOther ''ENOSPC''), w)
        else (Inr (), w\<lparr>nw_files := fmupd p t (nw_files w)\<rparr>)),
      sys_Rename = (\<lambda>p q w. case fmlookup (nw_files w) p of None \<Rightarrow> (Inl ENotExist, w)
        | Some t \<Rightarrow> (Inr (), w\<lparr>nw_files := fmupd q t (fmdrop p (nw_files w))\<rparr>)),
      sys_Remove = (\<lambda>p w. (Inr (), w\<lparr>nw_files := fmdrop p (nw_files w)\<rparr>)),
      sys_Lstat = (\<lambda>p w. (Inr (Some (if p \<in> set (nw_mounts w) then 2 else 1)), w)),
      sys_umount = (\<lambda>p w. if nw_stuck w then (Inl (EOther ''EBUSY''), w)
        else (Inr (), w\<lparr>nw_mounts := removeAll p (nw_mounts w)\<rparr>)),
      sys_fusermount = (\<lambda>p w. (Inl (EOther ''exec''), w)),
      sys_cancel = (\<lambda>c w. w\<lparr>nw_running := removeAll c (nw_running w)\<rparr>),
      sys_fuse_unmount = (\<lambda>srv w. if nw_stuck w then (Inl (EOther ''EBUSY''), w) else (Inr (), w))\<rparr>"

lemma ref_os_sel [simp]:
  "sys_ReadFile ref_os p w = (case fmlookup (nw_files w) p of None \<Rightarrow> Inl ENotExist | Some t \<Rightarrow> Inr t, w)"
  "sys_MkdirAll ref_os p m w = (Inr (), w)"
  "sys_WriteFile ref_os p t m w = (if nw_full w then (Inl (EOther ''ENOSPC''), w)
     else (Inr (), w\<lparr>nw_files := fmupd p t (nw_files w)\<rparr>))"
  "sys_Rename ref_os p q w = (case fmlookup (nw_files w) p of None \<Rightarrow> (Inl ENotExist, w)
     | Some t \<Rightarrow> (Inr (), w\<lparr>nw_files := fmupd q t (fmdrop p (nw_files w))\<rparr>))"
  "sys_Remove ref_os p w = (Inr (), w\<lparr>nw_files := fmdrop p (nw_files w)\<rparr>)"
  "sys_Lstat ref_os p w = (Inr (Some (if p \<in> set (nw_mounts w) then 2 else 1)), w)"
  "sys_umount ref_os p w = (if nw_stuck w then (Inl (EOther ''EBUSY''), w)
     else (Inr (), w\<lparr>nw_mounts := removeAll p (nw_mounts w)\<rparr>))"
  "sys_fusermount ref_os p w = (Inl (EOther ''exec''), w)"
  "sys_cancel ref_os c w = w\<lparr>nw_running := removeAll c (nw_running w)\<rparr>"
  "sys_fuse_unmount ref_os srv w = (if nw_stuck w then (Inl (EOther ''EBUSY''), w) else (Inr (), w))"
  by (simp_all add: ref_os_def)

lemma ref_disk: "disk ref_os nw_files"
  by (auto simp: disk_def split: option.splits if_splits)

lemma ref_persist:
  "\<not> nw_full w \<Longrightarrow> \<exists>w1. persist ref_os r w = (Inr (), w1) \<and> \<not> nw_full w1"
  by (simp add: persist_def Let_def)

definition one_record :: records where
  "one_record = fmupd ''/pods/a/mount''
     \<lparr>mt_TargetPath = ''/pods/a/mount'', mt_ObjectKind = ''Secret'', mt_ObjectName = ''creds'', mt_Namespace = ''app''\<rparr>
     fmempty"

lemma one_record_valid: "valid_records one_record" "valid_records fmempty"
proof -
  have "valid_utf8 ''/pods/a/mount''" "valid_utf8 ''Secret''" "valid_utf8 ''creds''" "valid_utf8 ''app''"
    by (rule ascii_valid; simp)+
  then show "valid_records one_record"
    by (auto simp: valid_records_def one_record_def valid_mount_def simp del: valid_utf8.simps split: if_splits)
qed (simp add: valid_records_def)

lemma one_record_not_empty [simp]: "one_record \<noteq> fmempty" "fmempty \<noteq> one_record"
  by (auto simp: one_record_def fmap_eq_iff)

definition demo_live :: live where
  "demo_live = \<lparr>l_Token = 0, l_Cancel = Some 7, l_Unmount = Some 3\<rparr>"

definition demo_target :: string where
  "demo_target = ''/pods/a/mount''"

definition demo_registry :: registry where
  "demo_registry = put_entry (empty_registry ''/state.json'') demo_target demo_live (the (fmlookup one_record demo_target))"

lemma demo_put: "put_entry (empty_registry ''/state.json'') demo_target demo_live (the (fmlookup one_record demo_target))
    = demo_registry" "r_records demo_registry = one_record" "r_statePath demo_registry = ''/state.json''"
  by (simp_all add: demo_registry_def put_entry_def empty_registry_def one_record_def demo_target_def)

theorem persist_is_atomic_witness:
  "fmlookup (nw_files (snd (persist ref_os demo_registry
      (node_world0\<lparr>nw_files := fmupd ''/state.json'' ''{}'' fmempty, nw_full := True\<rparr>)))) ''/state.json'' = Some ''{}''"
proof -
  let ?w = "node_world0\<lparr>nw_files := fmupd ''/state.json'' ''{}'' fmempty, nw_full := True\<rparr>"
  obtain w1 where p: "persist ref_os demo_registry ?w = (Inl (EOther ''ENOSPC''), w1)"
    by (simp add: persist_def demo_put Let_def)
  from persist_is_atomic [OF ref_disk p] p show ?thesis by (simp add: demo_put)
qed

theorem restart_remembers_witness:
  "\<exists>r1 w1 r' w2. registry_Put ref_os (empty_registry ''/state.json'') demo_target demo_live
      (the (fmlookup one_record demo_target)) node_world0 = (Inr (), r1, w1) \<and>
    NewRegistry ref_os ''/state.json'' w1 = (Inr r', w2) \<and>
    registry_Get r' demo_target = None \<and> WasPublished r' demo_target"
proof -
  obtain w1 where p: "registry_Put ref_os (empty_registry ''/state.json'') demo_target demo_live
      (the (fmlookup one_record demo_target)) node_world0 = (Inr (), demo_registry, w1)"
    by (simp add: registry_Put_def demo_put persist_def node_world0_def Let_def)
  have v: "valid_records (r_records (empty_registry ''/state.json''))" "valid_utf8 demo_target"
    "valid_mount (the (fmlookup one_record demo_target))"
    using one_record_valid by (simp_all add: empty_registry_def valid_records_def one_record_def demo_target_def del: valid_utf8.simps)
  from restart_remembers [OF ref_disk v p] p show ?thesis
    by (auto simp: empty_registry_def)
qed

theorem delete_forgets_witness:
  "\<exists>res r1 w1. registry_Delete ref_os demo_registry demo_target node_world0 = (res, r1, w1) \<and>
    registry_Get demo_registry demo_target = Some demo_live \<and> registry_Get r1 demo_target = None"
proof -
  obtain res r1 w1 where d: "registry_Delete ref_os demo_registry demo_target node_world0 = (res, r1, w1)"
    by (cases "registry_Delete ref_os demo_registry demo_target node_world0")
  have "registry_Get demo_registry demo_target = Some demo_live"
    by (simp add: demo_registry_def table.get_put)
  with d delete_forgets [OF d] show ?thesis by blast
qed

theorem failed_put_stays_live_witness:
  "\<exists>e r1 w1. registry_Put ref_os (empty_registry ''/state.json'') demo_target demo_live
      (the (fmlookup one_record demo_target)) (node_world0\<lparr>nw_full := True\<rparr>) = (Inl e, r1, w1) \<and>
    registry_Get r1 demo_target = Some demo_live"
proof -
  obtain w1 where p: "registry_Put ref_os (empty_registry ''/state.json'') demo_target demo_live
      (the (fmlookup one_record demo_target)) (node_world0\<lparr>nw_full := True\<rparr>)
      = (Inl (EOther ''ENOSPC''), demo_registry, w1)"
    by (simp add: registry_Put_def demo_put persist_def Let_def)
  from failed_put_stays_live [OF p] p show ?thesis by blast
qed

theorem delete_retry_reports_success_witness:
  "\<exists>e r1 w2 w3. registry_Delete ref_os demo_registry demo_target (node_world0\<lparr>nw_stuck := True\<rparr>) = (Inl e, r1, w2) \<and>
    registry_Delete ref_os r1 demo_target w2 = (Inr (), r1, w3)"
proof -
  let ?w = "node_world0\<lparr>nw_stuck := True\<rparr>"
  have g: "registry_Get demo_registry demo_target = Some demo_live"
    by (simp add: demo_registry_def table.get_put)
  obtain w1 where u: "live_Unmount ref_os demo_live (live_Cancel ref_os demo_live ?w) = (Inl (EOther ''EBUSY''), w1)"
    by (simp add: live_Unmount_def live_Cancel_def demo_live_def)
  let ?r1 = "delete_entry demo_registry demo_target"
  have "\<not> nw_full w1" using u by (auto simp: live_Unmount_def live_Cancel_def demo_live_def node_world0_def)
  from ref_persist [OF this] obtain w2 where p: "persist ref_os ?r1 w1 = (Inr (), w2)" "\<not> nw_full w2"
    by blast
  have d: "registry_Delete ref_os demo_registry demo_target ?w = (Inl (EOther ''EBUSY''), ?r1, w2)"
    using g u p by (simp add: registry_Delete_def tear_down_def Let_def)
  obtain w3 where "persist ref_os ?r1 w2 = (Inr (), w3)" using ref_persist [OF p(2)] by blast
  from delete_retry_reports_success [OF g u d this] d show ?thesis by blast
qed

theorem state_file_round_trip_witness:
  "unmarshal_records (MarshalIndent one_record) = Some one_record"
  by (rule state_file_round_trip [OF one_record_valid(1)])

text \<open>A file with other members than the expected ones, and an escape.\<close>

definition odd_file :: string where
  "odd_file = ''{'' @ quote_json ''/t'' @ '':{'' @ quote_json ''TargetPath'' @ '':'' @ [quote_mark, backslash] @ ''/t''
     @ [quote_mark] @ '','' @ quote_json ''x'' @ '': [1, true]}}''"

lemma odd_file_reads:
  "unmarshal_records odd_file = Some (fmupd ''/t'' \<lparr>mt_TargetPath = ''/t'', mt_ObjectKind = [], mt_ObjectName = [], mt_Namespace = []\<rparr> fmempty)"
proof -
  have p: "json_parse odd_file = Some (JObject [(''/t'', JObject [(''TargetPath'', JString ''/t''),
      (''x'', JArray [JNumber ''1'', JBool True])])])" by code_simp
  have n: "fold_name ''TargetPath'' = ''targetpath''" "fold_name ''x'' = ''x''" by code_simp+
  show ?thesis
    by (simp add: unmarshal_records_def p store_mount_def store_field_def n store_string_def no_mount_def del: fold_name.simps)
qed

theorem registry_well_formed_witness:
  "\<exists>r0. NewRegistry ref_os ''/state.json'' (node_world0\<lparr>nw_files := fmupd ''/state.json'' odd_file fmempty\<rparr>)
      = (Inr r0, node_world0\<lparr>nw_files := fmupd ''/state.json'' odd_file fmempty\<rparr>) \<and>
    reg_ok r0 \<and> WasPublished r0 ''/t'' \<and> reg_ok (fst (snd (registry_Delete ref_os r0 ''/t'' node_world0)))"
proof -
  let ?w = "node_world0\<lparr>nw_files := fmupd ''/state.json'' odd_file fmempty\<rparr>"
  obtain r0 where r: "NewRegistry ref_os ''/state.json'' ?w = (Inr r0, ?w)" "WasPublished r0 ''/t''"
    by (simp add: NewRegistry_def odd_file_reads WasPublished_def)
  have ok: "reg_ok r0" by (rule mp [OF conjunct1 [OF registry_well_formed] r(1)])
  have "reg_ok (fst (snd (registry_Delete ref_os r0 ''/t'' node_world0)))"
    by (rule mp [OF conjunct2 [OF conjunct2 [OF registry_well_formed]] ok])
  with ok r show ?thesis by blast
qed

end
