(* ===== verification/TargetLocks.thy ===== *)
theory TargetLocks
  imports Prelude
begin

text \<open>
  \<open>pkg/driver/targetlock.go\<close>: the reference-counted lock per target, as a step relation over any number
  of goroutines. Each section of code between two points where another goroutine can run is one
  function on the state (what is done under \<open>locksMu\<close> is one section), and each goroutine is at one of
  four points of \<open>lockTarget\<close> and \<open>unlockTarget\<close>.
\<close>

text \<open>The table \<open>n.locks\<close> has addresses of lock objects; \<open>tl_ch\<close> is the number of tokens in the
  object's channel of capacity one, \<open>tl_refs\<close> its counter.\<close>

datatype point =
    Outside
  | Waiting string nat
  | Holding string nat
  | Leaving string nat

record lock_state =
  locks :: "string \<Rightarrow> nat option"
  tl_ch :: "nat \<Rightarrow> nat"
  tl_refs :: "nat \<Rightarrow> int"
  tl_next :: nat
  points :: "nat \<Rightarrow> point"

definition newTargetLock :: "lock_state \<Rightarrow> nat \<times> lock_state" where
  "newTargetLock s =
     (tl_next s, s\<lparr>tl_ch := (tl_ch s)(tl_next s := 1), tl_refs := (tl_refs s)(tl_next s := 0), tl_next := Suc (tl_next s)\<rparr>)"

definition lockTarget_enter :: "string \<Rightarrow> lock_state \<Rightarrow> nat \<times> lock_state" where
  "lockTarget_enter target s =
     (case (case locks s target of
              Some lk \<Rightarrow> (lk, s)
            | None \<Rightarrow> (case newTargetLock s of (lk, s1) \<Rightarrow> (lk, s1\<lparr>locks := (locks s1)(target := Some lk)\<rparr>))) of
        (lk, s2) \<Rightarrow> (lk, s2\<lparr>tl_refs := (tl_refs s2)(lk := tl_refs s2 lk + 1)\<rparr>))"

text \<open>Receiving blocks on an empty channel and sending on a full one.\<close>

definition tl_Lock :: "nat \<Rightarrow> lock_state \<Rightarrow> lock_state option" where
  "tl_Lock lk s = (if tl_ch s lk = 0 then None else Some (s\<lparr>tl_ch := (tl_ch s)(lk := tl_ch s lk - 1)\<rparr>))"

definition tl_Unlock :: "nat \<Rightarrow> lock_state \<Rightarrow> lock_state option" where
  "tl_Unlock lk s = (if tl_ch s lk \<ge> 1 then None else Some (s\<lparr>tl_ch := (tl_ch s)(lk := tl_ch s lk + 1)\<rparr>))"

definition unlockTarget_leave :: "string \<Rightarrow> nat \<Rightarrow> lock_state \<Rightarrow> lock_state" where
  "unlockTarget_leave target lk s =
     (let s1 = s\<lparr>tl_refs := (tl_refs s)(lk := tl_refs s lk - 1)\<rparr>
      in if tl_refs s1 lk = 0 then s1\<lparr>locks := (locks s1)(target := None)\<rparr> else s1)"

definition at_point :: "nat \<Rightarrow> point \<Rightarrow> lock_state \<Rightarrow> lock_state" where
  "at_point g p s = s\<lparr>points := (points s)(g := p)\<rparr>"

inductive lock_step :: "lock_state \<Rightarrow> lock_state \<Rightarrow> bool" where
  enter: "points s g = Outside \<Longrightarrow> lockTarget_enter target s = (lk, s1) \<Longrightarrow>
    lock_step s (at_point g (Waiting target lk) s1)"
| lock: "points s g = Waiting target lk \<Longrightarrow> tl_Lock lk s = Some s1 \<Longrightarrow>
    lock_step s (at_point g (Holding target lk) s1)"
| unlock: "points s g = Holding target lk \<Longrightarrow> tl_Unlock lk s = Some s1 \<Longrightarrow>
    lock_step s (at_point g (Leaving target lk) s1)"
| leave: "points s g = Leaving target lk \<Longrightarrow>
    lock_step s (at_point g Outside (unlockTarget_leave target lk s))"

inductive_cases lock_stepE: "lock_step s s'"

definition lock_start :: lock_state where
  "lock_start = \<lparr>locks = (\<lambda>_. None), tl_ch = (\<lambda>_. 0), tl_refs = (\<lambda>_. 0), tl_next = 0, points = (\<lambda>_. Outside)\<rparr>"

inductive lock_reachable :: "lock_state \<Rightarrow> bool" where
  start: "lock_reachable lock_start"
| step: "lock_reachable s \<Longrightarrow> lock_step s s' \<Longrightarrow> lock_reachable s'"

section \<open>The invariant\<close>

text \<open>The target and the lock object a goroutine is busy with.\<close>

fun busy :: "point \<Rightarrow> (string \<times> nat) option" where
  "busy Outside = None"
| "busy (Waiting t a) = Some (t, a)"
| "busy (Holding t a) = Some (t, a)"
| "busy (Leaving t a) = Some (t, a)"

definition users :: "lock_state \<Rightarrow> string \<Rightarrow> nat set" where
  "users s t = {g. \<exists>a. busy (points s g) = Some (t, a)}"

definition holders_of :: "lock_state \<Rightarrow> string \<Rightarrow> nat set" where
  "holders_of s t = {g. \<exists>a. points s g = Holding t a}"

definition inv_finite :: "lock_state \<Rightarrow> bool" where
  "inv_finite s \<longleftrightarrow> (\<forall>t. finite (users s t))"

definition inv_own :: "lock_state \<Rightarrow> bool" where
  "inv_own s \<longleftrightarrow> (\<forall>g t a. busy (points s g) = Some (t, a) \<longrightarrow> locks s t = Some a)"

definition inv_entry :: "lock_state \<Rightarrow> bool" where
  "inv_entry s \<longleftrightarrow> (\<forall>t a. locks s t = Some a \<longrightarrow>
     a < tl_next s \<and> tl_refs s a = int (card (users s t)) \<and> users s t \<noteq> {} \<and>
     tl_ch s a = (if holders_of s t = {} then 1 else 0))"

definition inv_apart :: "lock_state \<Rightarrow> bool" where
  "inv_apart s \<longleftrightarrow> (\<forall>t t' a. locks s t = Some a \<longrightarrow> locks s t' = Some a \<longrightarrow> t = t')"

definition inv_one :: "lock_state \<Rightarrow> bool" where
  "inv_one s \<longleftrightarrow> (\<forall>t g g'. g \<in> holders_of s t \<longrightarrow> g' \<in> holders_of s t \<longrightarrow> g = g')"

definition lock_inv :: "lock_state \<Rightarrow> bool" where
  "lock_inv s \<longleftrightarrow> inv_finite s \<and> inv_own s \<and> inv_entry s \<and> inv_apart s \<and> inv_one s"

lemmas inv_defs = inv_finite_def inv_own_def inv_entry_def inv_apart_def inv_one_def

text \<open>Moving one goroutine.\<close>

lemma users_at: "users (at_point g p s) t =
    (if \<exists>a. busy p = Some (t, a) then insert g (users s t) else users s t - {g})"
  by (auto simp: users_def at_point_def)

lemma holders_at: "holders_of (at_point g p s) t =
    (if \<exists>a. p = Holding t a then insert g (holders_of s t) else holders_of s t - {g})"
  by (auto simp: holders_of_def at_point_def)

lemma holders_users: "holders_of s t \<subseteq> users s t"
  by (auto simp: holders_of_def users_def)

lemma at_point_simps [simp]:
  "locks (at_point g p s) = locks s" "tl_ch (at_point g p s) = tl_ch s" "tl_refs (at_point g p s) = tl_refs s"
  "tl_next (at_point g p s) = tl_next s" "points (at_point g p s) = (points s)(g := p)"
  by (simp_all add: at_point_def)

lemma users_points: "points s' = points s \<Longrightarrow> users s' t = users s t"
  by (simp add: users_def)

lemma holders_points: "points s' = points s \<Longrightarrow> holders_of s' t = holders_of s t"
  by (simp add: holders_of_def)

lemma not_user: "points s g = Outside \<Longrightarrow> g \<notin> users s t" "points s g = Outside \<Longrightarrow> g \<notin> holders_of s t"
  by (simp_all add: users_def holders_of_def)

lemma is_user: "busy (points s g) = Some (t, a) \<Longrightarrow> g \<in> users s t' \<longleftrightarrow> t' = t"
  by (auto simp: users_def)

lemma is_holder: "points s g = Holding t a \<Longrightarrow> g \<in> holders_of s t' \<longleftrightarrow> t' = t"
  by (auto simp: holders_of_def)

lemma not_holder: "points s g = Waiting t a \<or> points s g = Leaving t a \<Longrightarrow> g \<notin> holders_of s t'"
  by (auto simp: holders_of_def)

lemma inv_start: "lock_inv lock_start"
  by (simp add: lock_inv_def inv_defs lock_start_def users_def holders_of_def)

lemma inv_ownD: "lock_inv s \<Longrightarrow> busy (points s g) = Some (t, a) \<Longrightarrow> locks s t = Some a"
  by (auto simp: lock_inv_def inv_own_def)

lemma inv_entryD:
  assumes "lock_inv s" "locks s t = Some a"
  shows "a < tl_next s" "tl_refs s a = int (card (users s t))" "users s t \<noteq> {}"
    "tl_ch s a = (if holders_of s t = {} then 1 else 0)"
  using assms by (auto simp: lock_inv_def inv_entry_def)

lemma inv_apartD: "lock_inv s \<Longrightarrow> locks s t = Some a \<Longrightarrow> locks s t' = Some a \<Longrightarrow> t = t'"
  by (auto simp: lock_inv_def inv_apart_def)

lemma inv_finiteD: "lock_inv s \<Longrightarrow> finite (users s t)"
  by (simp add: lock_inv_def inv_finite_def)

lemma inv_oneD: "lock_inv s \<Longrightarrow> g \<in> holders_of s t \<Longrightarrow> g' \<in> holders_of s t \<Longrightarrow> g = g'"
  by (auto simp: lock_inv_def inv_one_def)

lemma inv_no_entry:
  assumes "lock_inv s" "locks s t = None"
  shows "users s t = {}" "holders_of s t = {}"
proof -
  show "users s t = {}" using inv_ownD [OF assms(1)] assms(2) unfolding users_def by fastforce
  with holders_users [of s t] show "holders_of s t = {}" by simp
qed

text \<open>A step changes the users and the holders of one target only; what it makes of the table entry of
  that target decides whether the invariant holds after it.\<close>

lemma inv_step:
  assumes inv: "lock_inv s"
    and U: "\<And>t. t \<noteq> target \<Longrightarrow> users s' t = users s t" and H: "\<And>t. t \<noteq> target \<Longrightarrow> holders_of s' t = holders_of s t"
    and L: "\<And>t. t \<noteq> target \<Longrightarrow> locks s' t = locks s t"
    and R: "\<And>b. b \<noteq> a \<Longrightarrow> tl_refs s' b = tl_refs s b \<and> tl_ch s' b = tl_ch s b"
    and N: "tl_next s \<le> tl_next s'"
    and A: "locks s target = Some a \<or> locks s target = None \<and> tl_next s \<le> a"
    and fin: "finite (users s' target)"
    and own: "\<And>g t b. busy (points s' g) = Some (t, b) \<Longrightarrow> locks s' t = Some b"
    and ent: "locks s' target = None \<or> locks s' target = Some a \<and> a < tl_next s' \<and>
      tl_refs s' a = int (card (users s' target)) \<and> users s' target \<noteq> {} \<and>
      tl_ch s' a = (if holders_of s' target = {} then 1 else 0)"
    and one: "\<And>g g'. g \<in> holders_of s' target \<Longrightarrow> g' \<in> holders_of s' target \<Longrightarrow> g = g'"
  shows "lock_inv s'"
proof -
  have ne: "b \<noteq> a" if "t \<noteq> target" "locks s t = Some b" for t b
    using A that inv_apartD [OF inv, of t a target] inv_entryD(1) [OF inv that(2)] by auto
  have "inv_finite s'"
    unfolding inv_finite_def using U fin inv_finiteD [OF inv] by metis
  moreover have "inv_own s'" using own by (simp add: inv_own_def)
  moreover have "inv_entry s'"
    unfolding inv_entry_def
  proof (intro allI impI)
    fix t b assume l: "locks s' t = Some b"
    show "b < tl_next s' \<and> tl_refs s' b = int (card (users s' t)) \<and> users s' t \<noteq> {} \<and>
      tl_ch s' b = (if holders_of s' t = {} then 1 else 0)"
    proof (cases "t = target")
      case True
      with l ent show ?thesis by auto
    next
      case False
      with l L have "locks s t = Some b" by simp
      from inv_entryD [OF inv this] ne [OF False this] N U [OF False] H [OF False] R [of b]
      show ?thesis by simp
    qed
  qed
  moreover have "inv_apart s'"
    unfolding inv_apart_def
  proof (intro allI impI)
    fix t t' b assume l: "locks s' t = Some b" "locks s' t' = Some b"
    show "t = t'"
    proof (cases "t = target \<or> t' = target")
      case True
      with l ent L ne show ?thesis by (metis option.distinct(1) option.inject)
    next
      case False
      with l L inv_apartD [OF inv] show ?thesis by metis
    qed
  qed
  moreover have "inv_one s'"
    unfolding inv_one_def using H one inv_oneD [OF inv] by metis
  ultimately show ?thesis by (simp add: lock_inv_def)
qed
lemma inv_enter:
  assumes inv: "lock_inv s" and out: "points s g = Outside" and e: "lockTarget_enter target s = (a, s1)"
  shows "lock_inv (at_point g (Waiting target a) s1)"
proof -
  note nu = not_user [OF out]
  have A: "locks s target = Some a \<or> locks s target = None \<and> a = tl_next s"
    using e by (auto simp: lockTarget_enter_def newTargetLock_def split: option.splits)
  have s1: "locks s1 = (locks s)(target := Some a)" "points s1 = points s"
    "tl_next s1 = (if locks s target = None then Suc (tl_next s) else tl_next s)"
    "tl_refs s1 = (tl_refs s)(a := (if locks s target = None then 0 else tl_refs s a) + 1)"
    "tl_ch s1 = (if locks s target = None then (tl_ch s)(a := 1) else tl_ch s)"
    using e by (auto simp: lockTarget_enter_def newTargetLock_def split: option.splits)
  have U: "users (at_point g (Waiting target a) s1) t = (if t = target then insert g (users s t) else users s t)"
    and H: "holders_of (at_point g (Waiting target a) s1) t = holders_of s t" for t
    using nu [of t] by (auto simp: users_at holders_at users_points [OF s1(2)] holders_points [OF s1(2)])
  show ?thesis
  proof (rule inv_step [OF inv, of target])
    fix g' t b
    assume "busy (points (at_point g (Waiting target a) s1) g') = Some (t, b)"
    then show "locks (at_point g (Waiting target a) s1) t = Some b"
      using inv_ownD [OF inv, of g' t b] A by (auto simp: s1 split: if_splits)
  next
    show "locks (at_point g (Waiting target a) s1) target = None \<or>
      locks (at_point g (Waiting target a) s1) target = Some a \<and> a < tl_next (at_point g (Waiting target a) s1) \<and>
      tl_refs (at_point g (Waiting target a) s1) a = int (card (users (at_point g (Waiting target a) s1) target)) \<and>
      users (at_point g (Waiting target a) s1) target \<noteq> {} \<and>
      tl_ch (at_point g (Waiting target a) s1) a
        = (if holders_of (at_point g (Waiting target a) s1) target = {} then 1 else 0)"
    proof (cases "locks s target")
      case None
      with A have a: "a = tl_next s" by simp
      show ?thesis
        unfolding U H at_point_simps s1(1,3-5) using inv_no_entry [OF inv None] None a by simp
    next
      case (Some b)
      with A have "locks s target = Some a" by simp
      with inv_entryD [OF inv this] nu(1) [of target] inv_finiteD [OF inv, of target] show ?thesis
        unfolding U H at_point_simps s1(1,3-5) by simp
    qed
  qed (use A inv_finiteD [OF inv] inv_oneD [OF inv] in \<open>auto simp: U H s1\<close>)
qed

lemma inv_lock:
  assumes inv: "lock_inv s" and p: "points s g = Waiting target a" and e: "tl_Lock a s = Some s1"
  shows "lock_inv (at_point g (Holding target a) s1)"
proof -
  have L: "locks s target = Some a" by (rule inv_ownD [OF inv, of g]) (simp add: p)
  note E = inv_entryD [OF inv L]
  have "tl_ch s a \<noteq> 0" and s1: "locks s1 = locks s" "tl_refs s1 = tl_refs s" "tl_next s1 = tl_next s"
    "tl_ch s1 = (tl_ch s)(a := tl_ch s a - 1)" and pts: "points s1 = points s"
    using e by (auto simp: tl_Lock_def split: if_splits)
  with E(4) have none: "holders_of s target = {}" "tl_ch s a = 1" by (auto split: if_splits)
  have g: "g \<in> users s target" by (simp add: is_user [of s g target a] p)
  have U: "users (at_point g (Holding target a) s1) t = users s t" for t
    using is_user [of s g target a t] by (auto simp: users_at users_points [OF pts] p)
  have H: "holders_of (at_point g (Holding target a) s1) t = (if t = target then {g} else holders_of s t)" for t
    using none(1) not_holder [of s g target a t] p by (auto simp: holders_at holders_points [OF pts])
  show ?thesis
    by (rule inv_step [OF inv, of target _ a])
      (use L E none g inv_finiteD [OF inv] inv_ownD [OF inv] in \<open>auto simp: U H s1 pts split: if_splits\<close>)
qed

lemma inv_unlock:
  assumes inv: "lock_inv s" and p: "points s g = Holding target a" and e: "tl_Unlock a s = Some s1"
  shows "lock_inv (at_point g (Leaving target a) s1)"
proof -
  have L: "locks s target = Some a" by (rule inv_ownD [OF inv, of g]) (simp add: p)
  note E = inv_entryD [OF inv L]
  have s1: "locks s1 = locks s" "tl_refs s1 = tl_refs s" "tl_next s1 = tl_next s"
    "tl_ch s1 = (tl_ch s)(a := tl_ch s a + 1)" and pts: "points s1 = points s"
    using e by (auto simp: tl_Unlock_def split: if_splits)
  have g: "g \<in> holders_of s target" by (simp add: holders_of_def p)
  then have one: "holders_of s target = {g}" using inv_oneD [OF inv] by blast
  have U: "users (at_point g (Leaving target a) s1) t = users s t" for t
    using is_user [of s g target a t] by (auto simp: users_at users_points [OF pts] p)
  have H: "holders_of (at_point g (Leaving target a) s1) t = (if t = target then {} else holders_of s t)" for t
    using one is_holder [OF p, of t] by (auto simp: holders_at holders_points [OF pts])
  show ?thesis
    by (rule inv_step [OF inv, of target _ a])
      (use L E one g inv_finiteD [OF inv] inv_ownD [OF inv] in \<open>auto simp: U H s1 pts split: if_splits\<close>)
qed

lemma inv_leave:
  assumes inv: "lock_inv s" and p: "points s g = Leaving target a"
  shows "lock_inv (at_point g Outside (unlockTarget_leave target a s))"
proof -
  let ?s1 = "unlockTarget_leave target a s"
  have L: "locks s target = Some a" by (rule inv_ownD [OF inv, of g]) (simp add: p)
  note E = inv_entryD [OF inv L]
  have g: "g \<in> users s target" "g \<notin> holders_of s target"
    by (simp_all add: is_user [of s g target a] p holders_of_def)
  have c: "int (card (users s target)) - 1 = int (card (users s target - {g}))"
    using card_Suc_Diff1 [OF inv_finiteD [OF inv] g(1)] by linarith
  have s1: "points ?s1 = points s" "tl_next ?s1 = tl_next s" "tl_ch ?s1 = tl_ch s"
    "tl_refs ?s1 = (tl_refs s)(a := tl_refs s a - 1)"
    "locks ?s1 = (if users s target - {g} = {} then (locks s)(target := None) else locks s)"
    using c E(2) inv_finiteD [OF inv, of target] by (auto simp: unlockTarget_leave_def Let_def)
  have U: "users (at_point g Outside ?s1) t = (if t = target then users s t - {g} else users s t)" for t
    using is_user [of s g target a t] by (auto simp: users_at users_points [OF s1(1)] p)
  have H: "holders_of (at_point g Outside ?s1) t = holders_of s t" for t
    using not_holder [of s g target a t] p by (auto simp: holders_at holders_points [OF s1(1)])
  show ?thesis
  proof (rule inv_step [OF inv, of target _ a])
    fix g' t b
    assume b: "busy (points (at_point g Outside ?s1) g') = Some (t, b)"
    then have "g' \<noteq> g" and l: "busy (points s g') = Some (t, b)" by (auto simp: s1 split: if_splits)
    then have "t = target \<Longrightarrow> users s target - {g} \<noteq> {}" by (auto simp: users_def)
    with inv_ownD [OF inv l] show "locks (at_point g Outside ?s1) t = Some b" by (auto simp: s1)
  next
    show "locks (at_point g Outside ?s1) target = None \<or> locks (at_point g Outside ?s1) target = Some a \<and>
      a < tl_next (at_point g Outside ?s1) \<and>
      tl_refs (at_point g Outside ?s1) a = int (card (users (at_point g Outside ?s1) target)) \<and>
      users (at_point g Outside ?s1) target \<noteq> {} \<and>
      tl_ch (at_point g Outside ?s1) a = (if holders_of (at_point g Outside ?s1) target = {} then 1 else 0)"
      unfolding U H at_point_simps s1 using L E c by simp
  qed (use L inv_finiteD [OF inv] inv_oneD [OF inv] in \<open>simp_all add: U H s1\<close>)
qed

lemma lock_inv_reachable: "lock_reachable s \<Longrightarrow> lock_inv s"
proof (induction rule: lock_reachable.induct)
  case (step s s')
  from step.hyps(2) step.IH show ?case
    by (cases rule: lock_stepE) (auto intro: inv_enter inv_lock inv_unlock inv_leave)
qed (rule inv_start)

section \<open>What the lock gives\<close>

text \<open>C25: at most one goroutine at a time is between \<open>lockTarget\<close> and \<open>unlockTarget\<close> of a target, however
  many come and go, and although the lock objects are removed from the table and made anew meanwhile;
  and while it is, whoever else waits for the target cannot take its lock.\<close>

theorem target_lock_excludes:
  assumes "lock_reachable s" and "points s g = Holding target a" and "g' \<noteq> g"
  shows "points s g' \<noteq> Holding target a' \<and> (points s g' = Waiting target a' \<longrightarrow> tl_Lock a' s = None)"
proof -
  note inv = lock_inv_reachable [OF assms(1)]
  have h: "g \<in> holders_of s target" using assms(2) by (auto simp: holders_of_def)
  have "points s g' \<noteq> Holding target a'"
    using inv_oneD [OF inv h, of g'] assms(3) by (auto simp: holders_of_def)
  moreover have "tl_Lock a' s = None" if "points s g' = Waiting target a'"
    using inv_entryD(4) [OF inv inv_ownD [OF inv, of g']] that h by (auto simp: tl_Lock_def)
  ultimately show ?thesis by blast
qed

text \<open>The table is tight and nobody gets stuck: a target has an entry exactly while a goroutine is
  busy with it, and its counter is the number of those; whoever waits can take the lock as soon as no one
  holds it; and giving it back never blocks.\<close>

theorem lock_table_is_tight:
  assumes "lock_reachable s"
  shows "(locks s target \<noteq> None \<longleftrightarrow> users s target \<noteq> {}) \<and>
    (\<forall>a. locks s target = Some a \<longrightarrow> tl_refs s a = int (card (users s target))) \<and>
    (\<forall>g a. points s g = Waiting target a \<longrightarrow> holders_of s target = {} \<longrightarrow> tl_Lock a s \<noteq> None) \<and>
    (\<forall>g a. points s g = Holding target a \<longrightarrow> tl_Unlock a s \<noteq> None)"
proof -
  note inv = lock_inv_reachable [OF assms]
  have own: "locks s target = Some a" if "busy (points s g) = Some (target, a)" for g a
    using inv_ownD [OF inv that] .
  have "locks s target \<noteq> None \<longleftrightarrow> users s target \<noteq> {}"
    using inv_no_entry [OF inv, of target] inv_entryD(3) [OF inv, of target] by auto
  moreover have "tl_Lock a s \<noteq> None" if "points s g = Waiting target a" "holders_of s target = {}" for g a
    using inv_entryD(4) [OF inv own [of g a]] that by (simp add: tl_Lock_def)
  moreover have "tl_Unlock a s \<noteq> None" if "points s g = Holding target a" for g a
    using inv_entryD(4) [OF inv own [of g a]] that by (auto simp: tl_Unlock_def holders_of_def)
  ultimately show ?thesis using inv_entryD(2) [OF inv, of target] by blast
qed

definition demo_locked :: lock_state where
  "demo_locked = at_point 5 (Holding ''/t'' 0) (the (tl_Lock 0 (at_point 5 (Waiting ''/t'' 0)
     (snd (lockTarget_enter ''/t'' lock_start)))))"

lemma demo_locked_reachable: "lock_reachable demo_locked"
proof -
  let ?s = "at_point 5 (Waiting ''/t'' 0) (snd (lockTarget_enter ''/t'' lock_start))"
  have e: "lockTarget_enter ''/t'' lock_start = (0, snd (lockTarget_enter ''/t'' lock_start))"
    by (simp add: lockTarget_enter_def newTargetLock_def lock_start_def)
  have "lock_step lock_start ?s" by (rule enter [OF _ e]) (simp add: lock_start_def)
  moreover have "lock_step ?s demo_locked"
    unfolding demo_locked_def
    by (rule lock) (simp_all add: tl_Lock_def lockTarget_enter_def newTargetLock_def lock_start_def)
  ultimately show ?thesis by (blast intro: lock_reachable.intros)
qed

text \<open>A second goroutine comes for the same target.\<close>

definition demo_contended :: lock_state where
  "demo_contended = at_point 6 (Waiting ''/t'' 0) (snd (lockTarget_enter ''/t'' demo_locked))"

lemma demo_contended_reachable: "lock_reachable demo_contended"
proof -
  have e: "lockTarget_enter ''/t'' demo_locked = (0, snd (lockTarget_enter ''/t'' demo_locked))"
    by (simp add: demo_locked_def lockTarget_enter_def newTargetLock_def lock_start_def tl_Lock_def)
  have o: "points demo_locked 6 = Outside"
    by (simp add: demo_locked_def lockTarget_enter_def newTargetLock_def lock_start_def tl_Lock_def)
  show ?thesis
    unfolding demo_contended_def
    by (rule lock_reachable.step [OF demo_locked_reachable enter [OF o e]])
qed

theorem target_lock_excludes_witness:
  "points demo_contended 6 \<noteq> Holding ''/t'' 0 \<and> tl_Lock 0 demo_contended = None"
proof -
  have "points demo_contended 5 = Holding ''/t'' 0" "points demo_contended 6 = Waiting ''/t'' 0"
    by (simp_all add: demo_contended_def demo_locked_def lockTarget_enter_def newTargetLock_def lock_start_def
        tl_Lock_def)
  with target_lock_excludes [OF demo_contended_reachable, of 5 "''/t''" 0 6 0] show ?thesis by simp
qed

theorem lock_table_is_tight_witness:
  "tl_Unlock 0 demo_locked \<noteq> None \<and> locks demo_locked ''/t'' \<noteq> None"
proof -
  have p: "points demo_locked 5 = Holding ''/t'' 0" by (simp add: demo_locked_def)
  then have "5 \<in> users demo_locked ''/t''" using is_user [of demo_locked 5 "''/t''" 0] by simp
  then have "users demo_locked ''/t'' \<noteq> {}" by blast
  with p lock_table_is_tight [OF demo_locked_reachable, of "''/t''"] show ?thesis by blast
qed

end
