(* ===== verification/Driver.thy ===== *)
theory Driver
  imports Nodes Tokens Mounts TargetLocks
begin

text \<open>
  \<open>pkg/driver\<close>: the CSI Node service (\<open>node.go\<close>), the RBAC hint (\<open>rbachint.go\<close>), the Identity service
  and the server's start. The per-target lock is in \<open>TargetLocks\<close>: the definitions here are what one
  goroutine does while it holds the lock of its target.
\<close>

section \<open>The RBAC hint\<close>

text \<open>\<open>%q\<close>: the quoted form of an ASCII string. The strings that are quoted here are validated object
  names and a fixed resource name.\<close>

definition quote_char :: "char \<Rightarrow> string" where
  "quote_char c =
     (let n = of_char c :: nat in
      if c = CHR 0x22 then [CHR 0x5C, CHR 0x22]
      else if c = CHR 0x5C then [CHR 0x5C, CHR 0x5C]
      else if 32 \<le> n \<and> n < 127 then [c]
      else if n = 7 then [CHR 0x5C, CHR ''a'']
      else if n = 8 then [CHR 0x5C, CHR ''b'']
      else if n = 12 then [CHR 0x5C, CHR ''f'']
      else if n = 10 then [CHR 0x5C, CHR ''n'']
      else if n = 13 then [CHR 0x5C, CHR ''r'']
      else if n = 9 then [CHR 0x5C, CHR ''t'']
      else if n = 11 then [CHR 0x5C, CHR ''v'']
      else [CHR 0x5C, CHR ''x'', hex_lower (n div 16 mod 16), hex_lower (n mod 16)])"

definition quote :: "string \<Rightarrow> string" where
  "quote s = [CHR 0x22] @ concat (map quote_char s) @ [CHR 0x22]"

text \<open>The text's lines, joined by line feeds.\<close>

definition lines_of :: "string list \<Rightarrow> string" where
  "lines_of ls = foldr (\<lambda>l rest. if rest = '''' then l else l @ [CHR 0x0A] @ rest) ls ''''"

definition RBACHint :: "string \<Rightarrow> string \<Rightarrow> string \<Rightarrow> string \<Rightarrow> string \<Rightarrow> string" where
  "RBACHint namespace serviceAccount kind objectName leaseName =
     (let resource = (if map ascii_lower kind = ''configmap'' then ''configmaps'' else ''secrets'') in
      lines_of
       [''serviceaccount '' @ namespace @ ''/'' @ serviceAccount @ '' is not permitted to use '' @ resource @ ''/''
          @ objectName @ ''.'' @ [CHR 0x0A],
        ''Apply this in namespace '' @ namespace @ '':'' @ [CHR 0x0A],
        ''---'',
        ''apiVersion: rbac.authorization.k8s.io/v1'',
        ''kind: Role'',
        ''metadata:'',
        ''  namespace: '' @ namespace,
        ''  name: roommate-'' @ objectName,
        ''rules:'',
        ''  - apiGroups: ['' @ quote '''' @ '']'',
        ''    resources: ['' @ quote resource @ '']'',
        ''    resourceNames: ['' @ quote objectName @ '']'',
        ''    verbs: ['' @ quote ''get'' @ '', '' @ quote ''watch'' @ '', '' @ quote ''patch'' @ '']'',
        ''  - apiGroups: ['' @ quote ''coordination.k8s.io'' @ '']'',
        ''    resources: ['' @ quote ''leases'' @ '']'',
        ''    resourceNames: ['' @ quote leaseName @ '']'',
        ''    verbs: ['' @ quote ''get'' @ '', '' @ quote ''update'' @ '']'',
        ''  - apiGroups: ['' @ quote ''coordination.k8s.io'' @ '']'',
        ''    resources: ['' @ quote ''leases'' @ '']'',
        ''    verbs: ['' @ quote ''create'' @ '']'',
        ''---'',
        ''# Named per-ServiceAccount, not just per-object: a RoleBinding''@ [CHR 0x27] @ ''s subjects'',
        ''# list is replaced wholesale on apply, not merged with what'' @ [CHR 0x27] @ ''s already'',
        ''# there. If another ServiceAccount already has a working binding for'',
        ''# '' @ kind @ ''/'' @ objectName @ '', add a subject to that one instead of applying this '' @ [CHR 0xE2, CHR 0x80, CHR 0x94] @ '' applying'',
        ''# this alongside one named just '' @ [CHR 0x22] @ ''roommate-'' @ objectName @ [CHR 0x22] @ '' would silently drop the'',
        ''# other ServiceAccount'' @ [CHR 0x27] @ ''s subject and 403 its next API call.'',
        ''apiVersion: rbac.authorization.k8s.io/v1'',
        ''kind: RoleBinding'',
        ''metadata:'',
        ''  namespace: '' @ namespace,
        ''  name: roommate-'' @ objectName @ ''-'' @ serviceAccount,
        ''roleRef:'',
        ''  apiGroup: rbac.authorization.k8s.io'',
        ''  kind: Role'',
        ''  name: roommate-'' @ objectName,
        ''subjects:'',
        ''  - kind: ServiceAccount'',
        ''    name: '' @ serviceAccount,
        ''    namespace: '' @ namespace])"

section \<open>The Identity service\<close>

record IdentityServer =
  id_name :: string
  id_version :: string

definition NewIdentityServer :: "string \<Rightarrow> string \<Rightarrow> IdentityServer" where
  "NewIdentityServer name version = \<lparr>id_name = name, id_version = version\<rparr>"

definition GetPluginInfo :: "IdentityServer \<Rightarrow> string \<times> string" where
  "GetPluginInfo s = (id_name s, id_version s)"

definition GetPluginCapabilities :: "IdentityServer \<Rightarrow> string list" where
  "GetPluginCapabilities s = []"

definition Probe :: "IdentityServer \<Rightarrow> bool" where
  "Probe s = True"

text \<open>\<open>listen\<close> listens on a unix socket and serves, which ends with an error or the process.\<close>

definition TrimPrefix :: "string \<Rightarrow> string \<Rightarrow> string" where
  "TrimPrefix s prefix = (if take (length prefix) s = prefix then drop (length prefix) s else s)"

definition Serve ::
  "'w os \<Rightarrow> (string \<Rightarrow> 'w \<Rightarrow> 'r \<times> 'w) \<Rightarrow> string \<Rightarrow> 'w \<Rightarrow> 'r sys \<times> 'w" where
  "Serve S listen endpoint w =
     (let path = TrimPrefix endpoint ''unix://'' in
      if path = endpoint then (Inl (EOther ''endpoint must start with unix://''), w)
      else case sys_Remove S path w of
        (Inl e, w1) \<Rightarrow> if e \<noteq> ENotExist then (Inl e, w1) else (case listen path w1 of (r, w2) \<Rightarrow> (Inr r, w2))
      | (Inr _, w1) \<Rightarrow> (case listen path w1 of (r, w2) \<Rightarrow> (Inr r, w2)))"

section \<open>The Node service\<close>

definition keyEphemeral :: string where
  "keyEphemeral = ''csi.storage.k8s.io/ephemeral''"

text \<open>A gRPC status: the code, and the message, without the text of a wrapped error.\<close>

datatype code = InvalidArgument | FailedPrecondition | PermissionDenied | CodeNotFound | Internal

type_synonym status = "code \<times> string"

text \<open>\<open>nd_tokens\<close> are the token holders by address, the field \<open>Token\<close> of every \<open>Live\<close>, and \<open>nd_next\<close> is
  the next free address.\<close>

record node_server =
  nd_nodeID :: string
  nd_registry :: registry
  nd_publishAttempts :: "64 word"
  nd_tokens :: holders
  nd_next :: nat

definition NewNodeServer :: "string \<Rightarrow> registry \<Rightarrow> node_server" where
  "NewNodeServer nodeID reg =
     \<lparr>nd_nodeID = nodeID, nd_registry = reg, nd_publishAttempts = 0, nd_tokens = fmempty, nd_next = 0\<rparr>"

definition NodeGetCapabilities :: "node_server \<Rightarrow> string list" where
  "NodeGetCapabilities n = []"

definition NodeGetInfo :: "node_server \<Rightarrow> string" where
  "NodeGetInfo n = nd_nodeID n"

text \<open>
  What the service uses of its surroundings: the name validation, client-go (a client is a Kubernetes API that reads the token holders when it is called),
  the kernel, and go-fuse's mount, which gives the server and the granted capabilities.
  \<open>e_watch\<close> makes a context, starts the volume's \<open>Run\<close> under it and gives the context. A Go volume has
  its client in its store; here both go together, and both are given to \<open>e_watch\<close> and to the mount, whose
  server uses them from then on.
\<close>

type_synonym 'w client = "holders \<Rightarrow> 'w kube"

record 'w env =
  e_dns :: "string \<Rightarrow> string list"
  e_inCluster :: "rest_config result"
  e_newForConfig :: "rest_config \<Rightarrow> 'w client result"
  e_os :: "'w os"
  e_watch :: "'w client \<Rightarrow> volume \<Rightarrow> 'w \<Rightarrow> nat \<times> 'w"
  e_mount :: "'w client \<Rightarrow> string \<Rightarrow> mount_options \<Rightarrow> 'w \<Rightarrow> (nat \<times> 64 word) result \<times> 'w"

definition swapToken :: "attrs \<Rightarrow> live \<Rightarrow> node_server \<Rightarrow> node_server" where
  "swapToken vc l n =
     (case Extract vc of
        Inr tok \<Rightarrow> n\<lparr>nd_tokens := fmupd (l_Token l) tok (nd_tokens n)\<rparr>
      | Inl _ \<Rightarrow> n)"

text \<open>The reply to a quorum read that fails.\<close>

definition read_status :: "config \<Rightarrow> string \<Rightarrow> string \<Rightarrow> volume \<Rightarrow> err \<Rightarrow> status" where
  "read_status cfg namespace serviceAccount vol e =
     (if e = Forbidden \<or> e = Unauthorized
      then (PermissionDenied, RBACHint namespace serviceAccount (config.ObjectKind cfg) (config.ObjectName cfg) (LeaseName cfg))
      else if e = NotFound
      then (CodeNotFound, config.ObjectKind cfg @ '' '' @ namespace @ ''/'' @ config.ObjectName cfg
        @ '' does not exist; roommate never creates the backing object'')
      else (Internal, ''read '' @ store_Describe (c_store (v_cache vol))))"

text \<open>\<open>publish\<close> from \<open>DetachStale\<close> to the running server: what is to be recorded, or the error.\<close>

definition mount_volume ::
  "'w env \<Rightarrow> string \<Rightarrow> config \<Rightarrow> string \<Rightarrow> volume \<times> 'w client \<Rightarrow> nat \<Rightarrow> 'w \<Rightarrow> (status + (live \<times> mount)) \<times> 'w" where
  "mount_volume E target cfg namespace vol holder w =
     (case DetachStale (e_os E) target w of
        (Inl e, w1) \<Rightarrow> (Inl (Internal, ''detach stale mount''), w1)
      | (Inr _, w1) \<Rightarrow>
     (case sys_MkdirAll (e_os E) target (unat (DirMode cfg)) w1 of
        (Inl e, w2) \<Rightarrow> (Inl (Internal, ''mkdir target''), w2)
      | (Inr _, w2) \<Rightarrow>
     (case e_watch E (snd vol) (fst vol) w2 of (ctx, w3) \<Rightarrow>
     (case Mount (e_mount E (snd vol)) target (fst vol) w3 of
        (Inl e, w4) \<Rightarrow> (Inl (Internal, ''mount fuse''), sys_cancel (e_os E) ctx w4)
      | (Inr (server, warned), w4) \<Rightarrow>
          (Inr (\<lparr>l_Token = holder, l_Cancel = Some ctx, l_Unmount = Some server\<rparr>,
             \<lparr>mt_TargetPath = target, mt_ObjectKind = config.ObjectKind cfg,
               mt_ObjectName = config.ObjectName cfg, mt_Namespace = namespace\<rparr>), w4)))))"

text \<open>The end of \<open>publish\<close>: a mount that cannot be recorded is torn down.\<close>

definition unrecorded :: "'w env \<Rightarrow> live \<Rightarrow> 'w \<Rightarrow> 'w" where
  "unrecorded E l w = snd (live_Unmount (e_os E) l (live_Cancel (e_os E) l w))"

definition record_mount ::
  "'w env \<Rightarrow> string \<Rightarrow> live \<Rightarrow> mount \<Rightarrow> node_server \<Rightarrow> 'w \<Rightarrow> status option \<times> node_server \<times> 'w" where
  "record_mount E target l m n w =
     (case registry_Put (e_os E) (nd_registry n) target l m w of
        (Inl e, r1, w1) \<Rightarrow> (Some (Internal, ''record mount''), n\<lparr>nd_registry := r1\<rparr>, unrecorded E l w1)
      | (Inr _, r1, w1) \<Rightarrow> (None, n\<lparr>nd_registry := r1\<rparr>, w1))"

definition publish_mount ::
  "'w env \<Rightarrow> string \<Rightarrow> config \<Rightarrow> string \<Rightarrow> volume \<times> 'w client \<Rightarrow> nat \<Rightarrow> node_server \<Rightarrow> 'w
    \<Rightarrow> status option \<times> node_server \<times> 'w" where
  "publish_mount E target cfg namespace vol holder n w =
     (case mount_volume E target cfg namespace vol holder w of
        (Inl st, w1) \<Rightarrow> (Some st, n, w1)
      | (Inr (l, m), w1) \<Rightarrow> record_mount E target l m n w1)"

text \<open>\<open>publishAttempts.Add(1)\<close>, and allocating the \<open>Live\<close> with the token stored.\<close>

definition attempted :: "node_server \<Rightarrow> node_server" where
  "attempted n = n\<lparr>nd_publishAttempts := nd_publishAttempts n + 1\<rparr>"

definition with_holder :: "string \<Rightarrow> node_server \<Rightarrow> node_server" where
  "with_holder tok n = n\<lparr>nd_tokens := fmupd (nd_next n) tok (nd_tokens n), nd_next := Suc (nd_next n)\<rparr>"

text \<open>\<open>publish\<close> up to the quorum read that proves the pod's authorization.\<close>

definition authorize ::
  "'w env \<Rightarrow> attrs \<Rightarrow> node_server \<Rightarrow> 'w \<Rightarrow> (status + (config \<times> string \<times> (volume \<times> 'w client) \<times> nat)) \<times> node_server \<times> 'w" where
  "authorize E vc n0 w =
     (let n = attempted n0 in
      if attr_get vc keyEphemeral \<noteq> ''true''
      then (Inl (InvalidArgument, ''roommate serves inline ephemeral volumes only; declare the volume '' @
        ''under pod.spec.volumes[].csi rather than via a PVC''), n, w)
      else case PodIdentity vc of
        Inl e \<Rightarrow> (Inl (InvalidArgument, ''pod identity''), n, w)
      | Inr (namespace, serviceAccount, uid) \<Rightarrow>
     (case ParseConfig (e_dns E) vc namespace of
        Inl e \<Rightarrow> (Inl (InvalidArgument, ''config''), n, w)
      | Inr cfg \<Rightarrow>
     (case Extract vc of
        Inl e \<Rightarrow> (Inl (FailedPrecondition, ''set tokenRequests on the CSIDriver object''), n, w)
      | Inr tok \<Rightarrow>
          let holder = nd_next n; n1 = with_holder tok n
          in (case ClientFor (e_inCluster E) (e_newForConfig E) holder of
                Inl e \<Rightarrow> (Inl (Internal, ''build client''), n1, w)
              | Inr client \<Rightarrow>
             (case NewVolume cfg uid of
                Inl e \<Rightarrow> (Inl (Internal, ''volume''), n1, w)
              | Inr vol \<Rightarrow>
             (case cache_Fresh (client (nd_tokens n1)) (v_cache vol) w of
                (Inl e, c1, w1) \<Rightarrow> (Inl (read_status cfg namespace serviceAccount vol e), n1, w1)
              | (Inr snap, c1, w1) \<Rightarrow> (Inr (cfg, namespace, (vol\<lparr>v_cache := c1\<rparr>, client), holder), n1, w1)))))))"

definition publish ::
  "'w env \<Rightarrow> string \<Rightarrow> attrs \<Rightarrow> node_server \<Rightarrow> 'w \<Rightarrow> status option \<times> node_server \<times> 'w" where
  "publish E target vc n w =
     (case authorize E vc n w of
        (Inl st, n1, w1) \<Rightarrow> (Some st, n1, w1)
      | (Inr (cfg, namespace, vol, holder), n1, w1) \<Rightarrow> publish_mount E target cfg namespace vol holder n1 w1)"

text \<open>What is done under the target's lock, from the second \<open>Get\<close> on: the state is the one that is found when
  the lock is granted.\<close>

definition publish_locked ::
  "'w env \<Rightarrow> string \<Rightarrow> attrs \<Rightarrow> node_server \<Rightarrow> 'w \<Rightarrow> status option \<times> node_server \<times> 'w" where
  "publish_locked E target vc n w =
     (case registry_Get (nd_registry n) target of
        Some l \<Rightarrow> (None, swapToken vc l n, w)
      | None \<Rightarrow>
          let restarting = WasPublished (nd_registry n) target in
          (case publish E target vc n w of
             (Some st, n1, w1) \<Rightarrow> if restarting then (None, n1, w1) else (Some st, n1, w1)
           | (None, n1, w1) \<Rightarrow> (None, n1, w1)))"

text \<open>The whole call, when the lock is granted at once. While it is waited for others may change the state;
  the statements about \<open>publish_locked\<close> are for that case.\<close>

definition NodePublishVolume ::
  "'w env \<Rightarrow> string \<Rightarrow> string \<Rightarrow> attrs \<Rightarrow> node_server \<Rightarrow> 'w \<Rightarrow> status option \<times> node_server \<times> 'w" where
  "NodePublishVolume E volumeId target vc n w =
     (if volumeId = '''' \<or> target = '''' then (Some (InvalidArgument, ''volume_id and target_path are required''), n, w)
      else case registry_Get (nd_registry n) target of
        Some l \<Rightarrow> (None, swapToken vc l n, w)
      | None \<Rightarrow> publish_locked E target vc n w)"

definition NodeUnpublishVolume ::
  "'w env \<Rightarrow> string \<Rightarrow> string \<Rightarrow> node_server \<Rightarrow> 'w \<Rightarrow> status option \<times> node_server \<times> 'w" where
  "NodeUnpublishVolume E volumeId target n w =
     (if volumeId = '''' \<or> target = '''' then (Some (InvalidArgument, ''volume_id and target_path are required''), n, w)
      else case registry_Delete (e_os E) (nd_registry n) target w of
        (Inl e, r1, w1) \<Rightarrow> (Some (Internal, ''unpublish''), n\<lparr>nd_registry := r1\<rparr>, w1)
      | (Inr _, r1, w1) \<Rightarrow> (None, n\<lparr>nd_registry := r1\<rparr>, snd (sys_Remove (e_os E) target w1)))"

section \<open>Publishing\<close>

lemmas NodePublish_defs = NodePublishVolume_def publish_locked_def

text \<open>The registry after the target was put, live on a token holder.\<close>

definition put_live :: "registry \<Rightarrow> string \<Rightarrow> nat \<Rightarrow> registry \<Rightarrow> bool" where
  "put_live r target holder r' \<longleftrightarrow> (\<exists>ctx server m. r' = put_entry r target
     \<lparr>l_Token = holder, l_Cancel = Some ctx, l_Unmount = Some server\<rparr> m)"

lemma put_liveI: "put_live r target holder
    (put_entry r target \<lparr>l_Token = holder, l_Cancel = Some ctx, l_Unmount = Some server\<rparr> m)"
  by (auto simp: put_live_def)

lemma put_live_Get:
  assumes "put_live r target holder r'"
  obtains l where "registry_Get r' target = Some l" "l_Token l = holder" "WasPublished r' target"
    "\<And>t. t \<noteq> target \<Longrightarrow> registry_Get r' t = registry_Get r t"
  using assms by (auto simp: put_live_def table.get_put table.published_put)

lemma publish_mount_result:
  assumes "publish_mount E target cfg ns vol holder n w = (st, n', w')"
  shows "nd_tokens n' = nd_tokens n \<and> nd_next n' = nd_next n \<and> nd_publishAttempts n' = nd_publishAttempts n \<and>
    (nd_registry n' = nd_registry n \<and> st \<noteq> None \<or>
     put_live (nd_registry n) target holder (nd_registry n') \<and> st \<in> {None, Some (Internal, ''record mount'')})"
proof (cases "nd_registry n' = nd_registry n \<and> st \<noteq> None")
  case True
  with assms show ?thesis
    by (auto simp: publish_mount_def mount_volume_def record_mount_def Let_def registry_Put_def split: sum.splits prod.splits)
next
  case False
  with assms show ?thesis
    by (auto simp: publish_mount_def mount_volume_def record_mount_def Let_def registry_Put_def put_liveI split: sum.splits prod.splits)
qed

text \<open>What \<open>publish\<close> leaves: one more attempt, at most one new token holder, with the token of the
  request, and the registry with or without the new entry.\<close>

lemma attempted_simps [simp]:
  "nd_publishAttempts (attempted n) = nd_publishAttempts n + 1" "nd_registry (attempted n) = nd_registry n"
  "nd_next (attempted n) = nd_next n" "nd_tokens (attempted n) = nd_tokens n"
  "nd_publishAttempts (with_holder tok n) = nd_publishAttempts n" "nd_registry (with_holder tok n) = nd_registry n"
  "nd_next (with_holder tok n) = Suc (nd_next n)" "nd_tokens (with_holder tok n) = fmupd (nd_next n) tok (nd_tokens n)"
  by (simp_all add: attempted_def with_holder_def)

lemma publish_cases:
  assumes "publish E target vc n w = r"
  obtains (early) s where "r = (Some s, attempted n, w)"
  | (token) tok s w1 where "Extract vc = Inr tok" "r = (Some s, with_holder tok (attempted n), w1)"
  | (mount) tok cfg ns vol w1 where "Extract vc = Inr tok"
      "publish_mount E target cfg ns vol (nd_next n) (with_holder tok (attempted n)) w1 = r"
  using assms unfolding publish_def authorize_def Let_def
  by (simp split: if_splits sum.splits prod.splits) blast+

lemma publish_result:
  assumes "publish E target vc n w = (st, n', w')"
  shows "nd_publishAttempts n' = nd_publishAttempts n + 1 \<and>
    (nd_next n' = nd_next n \<and> nd_tokens n' = nd_tokens n \<and> nd_registry n' = nd_registry n \<and> st \<noteq> None \<or>
     (\<exists>tok. Extract vc = Inr tok \<and> nd_next n' = Suc (nd_next n) \<and>
        nd_tokens n' = fmupd (nd_next n) tok (nd_tokens n) \<and>
        (nd_registry n' = nd_registry n \<and> st \<noteq> None \<or>
         put_live (nd_registry n) target (nd_next n) (nd_registry n') \<and>
         st \<in> {None, Some (Internal, ''record mount'')})))"
  using assms
proof (cases rule: publish_cases)
  case (mount tok cfg ns vol w1)
  from publish_mount_result [OF mount(2)] mount(1) show ?thesis by auto
qed auto

text \<open>A known target is never answered with an error.\<close>

lemma known_target_silent:
  assumes "WasPublished (nd_registry n) target" "volumeId \<noteq> ''''" "target \<noteq> ''''"
  shows "fst (NodePublishVolume E volumeId target vc n w) = None"
  using assms by (auto simp: NodePublish_defs Let_def split: option.splits prod.splits)

text \<open>C16: a republish never fails: for a target that was published before, by this process or by one before
  it, \<open>NodePublishVolume\<close> answers without an error whatever the request carries and whatever the cluster,
  the kernel and the state file do; and while the mount is live it makes no call at all, changes no
  table, and only replaces this mount's token, if the request carries one.\<close>

theorem republish_never_fails:
  assumes "WasPublished (nd_registry n) target" and "volumeId \<noteq> ''''" and "target \<noteq> ''''"
  shows "\<exists>n' w'. NodePublishVolume E volumeId target vc n w = (None, n', w') \<and>
    (\<forall>l. registry_Get (nd_registry n) target = Some l \<longrightarrow> w' = w \<and> nd_registry n' = nd_registry n \<and>
       nd_publishAttempts n' = nd_publishAttempts n \<and>
       nd_tokens n' = (case Extract vc of Inr tok \<Rightarrow> fmupd (l_Token l) tok (nd_tokens n)
         | Inl _ \<Rightarrow> nd_tokens n))"
proof (cases "registry_Get (nd_registry n) target")
  case (Some l)
  with assms(2,3) show ?thesis
    by (auto simp: NodePublish_defs swapToken_def split: sum.splits)
next
  case None
  obtain st n1 w1 where "publish E target vc n w = (st, n1, w1)" by (cases "publish E target vc n w")
  with None assms show ?thesis by (cases st) (auto simp: NodePublish_defs Let_def)
qed

lemma not_published_Get: "\<not> WasPublished r target \<Longrightarrow> registry_Get r target = None"
  using table.live_published [of r target] by (cases "registry_Get r target") auto

lemma NodePublish_first:
  assumes "\<not> WasPublished (nd_registry n) target" "volumeId \<noteq> ''''" "target \<noteq> ''''"
  shows "NodePublishVolume E volumeId target vc n w = publish E target vc n w"
  using assms not_published_Get [OF assms(1)]
  by (cases "publish E target vc n w"; cases "fst (publish E target vc n w)") (auto simp: NodePublish_defs Let_def)

text \<open>A first publish calls \<open>publish\<close> once. If it succeeds the target is live and published, on a fresh
  token holder that has the token of the request; if it fails the registry is as it was, except when only
  recording the mount failed.\<close>

theorem first_publish:
  assumes "\<not> WasPublished (nd_registry n) target" and "volumeId \<noteq> ''''" and "target \<noteq> ''''"
    and "NodePublishVolume E volumeId target vc n w = (st, n', w')"
  shows "nd_publishAttempts n' = nd_publishAttempts n + 1 \<and>
    (case st of
       None \<Rightarrow> WasPublished (nd_registry n') target \<and>
         (\<exists>l tok. registry_Get (nd_registry n') target = Some l \<and> l_Token l = nd_next n \<and>
            Extract vc = Inr tok \<and> fmlookup (nd_tokens n') (l_Token l) = Some tok)
     | Some s \<Rightarrow> nd_registry n' = nd_registry n \<or> s = (Internal, ''record mount''))"
proof -
  have "publish E target vc n w = (st, n', w')" using assms NodePublish_first by metis
  from publish_result [OF this] show ?thesis
    by (auto split: option.split elim!: put_live_Get)
qed

text \<open>A target is published once: when two first publishes race, the one that gets the lock after the
  other succeeded makes no second attempt, whatever it carries and whatever has become of the cluster and
  the kernel meanwhile; it only installs its token in the mount of the first.\<close>

theorem no_double_publish:
  assumes "registry_Get (nd_registry n) target = None"
    and "publish_locked E target vc n w = (None, n1, w1)" and "\<not> WasPublished (nd_registry n) target"
    and "nd_registry n2 = nd_registry n1" and "nd_publishAttempts n2 = nd_publishAttempts n1"
  shows "\<exists>n3. publish_locked E' target vc' n2 w2 = (None, n3, w2) \<and>
    nd_publishAttempts n3 = nd_publishAttempts n + 1 \<and> nd_registry n3 = nd_registry n1"
proof -
  have "publish E target vc n w = (None, n1, w1)"
    using assms(1-3) by (auto simp: publish_locked_def Let_def split: prod.splits option.splits)
  from publish_result [OF this] have a: "nd_publishAttempts n1 = nd_publishAttempts n + 1"
    and p: "put_live (nd_registry n) target (nd_next n) (nd_registry n1)" by auto
  from p obtain l where "registry_Get (nd_registry n1) target = Some l" by (rule put_live_Get)
  with a assms(4,5) show ?thesis by (auto simp: publish_locked_def swapToken_def split: sum.splits)
qed

text \<open>C32: authorization comes before the mount: a pod whose token may not read the object gets
  \<open>PermissionDenied\<close> with the hint for exactly its namespace, account, object and Lease, and nothing was
  done beyond that one read: no directory, no watch, no mount, no record.\<close>

theorem denied_before_mount:
  assumes "\<not> WasPublished (nd_registry n) target" and "volumeId \<noteq> ''''" and "target \<noteq> ''''"
    and "attr_get vc keyEphemeral = ''true''" and "PodIdentity vc = Inr (namespace, serviceAccount, uid)"
    and "ParseConfig (e_dns E) vc namespace = Inr cfg" and "Extract vc = Inr tok"
    and "ClientFor (e_inCluster E) (e_newForConfig E) (nd_next n) = Inr client" and "NewVolume cfg uid = Inr vol"
    and "cache_Fresh (client (fmupd (nd_next n) tok (nd_tokens n))) (v_cache vol) w = (Inl e, c1, w1)"
    and "e = Forbidden \<or> e = Unauthorized"
  shows "\<exists>n'. NodePublishVolume E volumeId target vc n w =
      (Some (PermissionDenied, RBACHint namespace serviceAccount (config.ObjectKind cfg) (config.ObjectName cfg)
        (LeaseName cfg)), n', w1) \<and> nd_registry n' = nd_registry n"
  unfolding NodePublish_first [OF assms(1-3)]
  using assms(4-) by (auto simp: publish_def authorize_def Let_def read_status_def)

text \<open>A mount that could not be recorded is torn down again, but stays in the registry: the caller is
  told of the failure, and the retry finds a live mount and reports success although nothing is mounted.\<close>

theorem unrecorded_mount_looks_live:
  assumes "publish_mount E target cfg ns vol holder n w = (Some (Internal, ''record mount''), n1, w1)"
    and "volumeId \<noteq> ''''" and "target \<noteq> ''''"
  shows "\<exists>n2. NodePublishVolume E volumeId target vc n1 w2 = (None, n2, w2)"
proof -
  have "put_live (nd_registry n) target holder (nd_registry n1)"
    using assms(1)
    by (auto simp: publish_mount_def mount_volume_def record_mount_def Let_def registry_Put_def put_liveI split: sum.splits prod.splits)
  then obtain l where "registry_Get (nd_registry n1) target = Some l" by (rule put_live_Get)
  with assms(2,3) show ?thesis by (simp add: NodePublish_defs)
qed

section \<open>Token holders\<close>

text \<open>Every live mount has a token holder of its own, and the next one is free.\<close>

definition holders_inv :: "node_server \<Rightarrow> bool" where
  "holders_inv n \<longleftrightarrow>
     (\<forall>t l. registry_Get (nd_registry n) t = Some l \<longrightarrow> l_Token l < nd_next n) \<and>
     (\<forall>t t' l l'. registry_Get (nd_registry n) t = Some l \<longrightarrow> registry_Get (nd_registry n) t' = Some l' \<longrightarrow>
        l_Token l = l_Token l' \<longrightarrow> t = t')"

lemma holders_inv_start: "r_live r = fmempty \<Longrightarrow> holders_inv (NewNodeServer nodeID r)"
  by (simp add: holders_inv_def NewNodeServer_def registry_Get_def)

lemma holders_inv_put:
  assumes "holders_inv n" "put_live (nd_registry n) target (nd_next n) (nd_registry n')" "nd_next n' = Suc (nd_next n)"
  shows "holders_inv n'"
proof -
  obtain l0 where l0: "registry_Get (nd_registry n') target = Some l0" "l_Token l0 = nd_next n"
    "\<And>t. t \<noteq> target \<Longrightarrow> registry_Get (nd_registry n') t = registry_Get (nd_registry n) t"
    by (rule put_live_Get [OF assms(2)]) (rule that)
  have lt: "registry_Get (nd_registry n) t = Some l \<Longrightarrow> l_Token l < nd_next n" for t l
    using assms(1) by (simp add: holders_inv_def)
  have get: "registry_Get (nd_registry n') t = Some l \<longleftrightarrow>
      (if t = target then l = l0 else registry_Get (nd_registry n) t = Some l)" for t l
    using l0 by auto
  show ?thesis
    using assms(1,3) l0(2) lt unfolding holders_inv_def get
    by (auto split: if_splits) (metis less_SucI lt less_irrefl)+
qed

lemma holders_inv_keep:
  "holders_inv n \<Longrightarrow> nd_registry n' = nd_registry n \<Longrightarrow> nd_next n \<le> nd_next n' \<Longrightarrow> holders_inv n'"
  unfolding holders_inv_def by (metis less_le_trans)

text \<open>The invariant: publishing and unpublishing, whatever they answer, keep every live mount on a token
  holder of its own.\<close>

theorem holders_stay_apart:
  assumes "holders_inv n"
    and "NodePublishVolume E volumeId target vc n w = (st, n', w') \<or>
      NodeUnpublishVolume E volumeId target n w = (st, n', w')"
  shows "holders_inv n'"
  using assms(2)
proof
  assume p: "NodePublishVolume E volumeId target vc n w = (st, n', w')"
  show ?thesis
  proof (cases "volumeId = [] \<or> target = [] \<or> registry_Get (nd_registry n) target \<noteq> None")
    case True
    with p have "nd_registry n' = nd_registry n" "nd_next n' = nd_next n"
      by (auto simp: NodePublish_defs swapToken_def split: if_splits sum.splits)
    with holders_inv_keep [OF assms(1)] show ?thesis by simp
  next
    case False
    then obtain st1 where "publish E target vc n w = (st1, n', w')"
      using p by (auto simp: NodePublish_defs Let_def split: prod.splits option.splits if_splits)
    from publish_result [OF this] holders_inv_keep [OF assms(1)] holders_inv_put [OF assms(1)]
    show ?thesis by auto
  qed
next
  assume u: "NodeUnpublishVolume E volumeId target n w = (st, n', w')"
  then have "nd_next n' = nd_next n" and "nd_registry n' \<in> {nd_registry n, delete_entry (nd_registry n) target}"
    by (auto simp: NodeUnpublishVolume_def registry_Delete_def tear_down_def Let_def split: if_splits sum.splits prod.splits option.splits)
  then show ?thesis
    using assms(1) by (auto simp: holders_inv_def table.get_del split: if_splits)
qed

lemma RoundTrip_other:
  "a \<noteq> b \<Longrightarrow> RoundTrip (fmupd a tok tokens) b next req = RoundTrip tokens b next req"
  by (simp add: RoundTrip_def)

text \<open>The mount of a first publish, and the client that it was given.\<close>

lemma publish_client:
  assumes "publish E target vc n w = (None, n1, w1)"
  obtains client server ctx opts caps wa wb m where
    "ClientFor (e_inCluster E) (e_newForConfig E) (nd_next n) = Inr client"
    "e_mount E client target opts wa = (Inr (server, caps), wb)"
    "nd_registry n1 = put_entry (nd_registry n) target \<lparr>l_Token = nd_next n, l_Cancel = Some ctx, l_Unmount = Some server\<rparr> m"
proof -
  obtain cfg ns vol holder n2 w2 where a: "authorize E vc n w = (Inr (cfg, ns, vol, holder), n2, w2)"
    and p: "publish_mount E target cfg ns vol holder n2 w2 = (None, n1, w1)"
    using assms by (auto simp: publish_def split: sum.splits prod.splits)
  have c: "ClientFor (e_inCluster E) (e_newForConfig E) (nd_next n) = Inr (snd vol)" "holder = nd_next n"
    "nd_registry n2 = nd_registry n"
    using a by (auto simp: authorize_def Let_def split: if_splits sum.splits prod.splits)
  obtain l m w3 where m: "mount_volume E target cfg ns vol holder w2 = (Inr (l, m), w3)"
    "record_mount E target l m n2 w3 = (None, n1, w1)"
    using p by (auto simp: publish_mount_def split: sum.splits prod.splits)
  have put: "nd_registry n1 = put_entry (nd_registry n) target l m"
    using m(2) c(3) by (auto simp: record_mount_def registry_Put_def Let_def split: sum.splits prod.splits)
  obtain ctx server caps wa wb where "e_mount E (snd vol) target (mountOptions (fst vol)) wa = (Inr (server, caps), wb)"
    "l = \<lparr>l_Token = holder, l_Cancel = Some ctx, l_Unmount = Some server\<rparr>"
    using m(1) by (auto simp: mount_volume_def Mount_def split: sum.splits prod.splits)
  with that [OF c(1)] put c(2) show thesis by blast
qed

text \<open>The headers of a request as client-go sends it for a client of a configuration: through the
  configuration's wrappers, the outermost last.\<close>

definition sent_headers :: "rest_config \<Rightarrow> holders \<Rightarrow> headers \<Rightarrow> headers" where
  "sent_headers cfg tokens = fold (RoundTrip tokens) (Wrappers cfg) id"

text \<open>C33: token rotation reaches the mount's client at once: after a first publish, and whatever happened to
  other targets since, a republish with a new token makes no call, and from then on every request of the very
  client that the target's FUSE server was mounted with carries the new token, while the requests of every
  other live mount carry what they carried before. The in-cluster configuration brings no wrappers of its own.\<close>

theorem rotated_token_is_used:
  assumes "e_inCluster E = Inr cfg0" and "Wrappers cfg0 = []"
    and first: "NodePublishVolume E volumeId target vc n w = (None, n1, w1)" "\<not> WasPublished (nd_registry n) target"
    and later: "registry_Get (nd_registry n2) target = registry_Get (nd_registry n1) target" "holders_inv n2"
    and "volumeId \<noteq> ''''" and "target \<noteq> ''''" and tok: "Extract vc2 = Inr tok" "tok \<noteq> ''''"
  shows "\<exists>n3 cfg client server ctx opts caps wa wb.
    NodePublishVolume E volumeId target vc2 n2 w2 = (None, n3, w2) \<and>
    e_newForConfig E cfg = Inr client \<and> e_mount E client target opts wa = (Inr (server, caps), wb) \<and>
    registry_Get (nd_registry n2) target = Some \<lparr>l_Token = nd_next n, l_Cancel = Some ctx, l_Unmount = Some server\<rparr> \<and>
    (\<forall>req. fmlookup (sent_headers cfg (nd_tokens n3) req) ''Authorization'' = Some (''Bearer '' @ tok)) \<and>
    (\<forall>t l'. registry_Get (nd_registry n2) t = Some l' \<longrightarrow> t \<noteq> target \<longrightarrow>
       RoundTrip (nd_tokens n3) (l_Token l') id = RoundTrip (nd_tokens n2) (l_Token l') id)"
proof -
  have "publish E target vc n w = (None, n1, w1)" using first NodePublish_first assms(7,8) by metis
  then obtain client server ctx opts caps wa wb m where
    c: "ClientFor (e_inCluster E) (e_newForConfig E) (nd_next n) = Inr client"
    and mnt: "e_mount E client target opts wa = (Inr (server, caps), wb)"
    and put: "nd_registry n1 = put_entry (nd_registry n) target \<lparr>l_Token = nd_next n, l_Cancel = Some ctx, l_Unmount = Some server\<rparr> m"
    by (rule publish_client)
  let ?l = "\<lparr>l_Token = nd_next n, l_Cancel = Some ctx, l_Unmount = Some server\<rparr>"
  let ?cfg = "wrapTokenAuth (clearCredentials cfg0) (nd_next n)" and ?n3 = "n2\<lparr>nd_tokens := fmupd (nd_next n) tok (nd_tokens n2)\<rparr>"
  have l: "registry_Get (nd_registry n2) target = Some ?l" using later(1) put by (simp add: table.get_put)
  have p: "NodePublishVolume E volumeId target vc2 n2 w2 = (None, ?n3, w2)"
    using assms(7,8) l tok(1) by (simp add: NodePublish_defs swapToken_def)
  have new: "e_newForConfig E ?cfg = Inr client" using c assms(1) by (simp add: ClientFor_def)
  have sent: "fmlookup (sent_headers ?cfg (nd_tokens ?n3) req) ''Authorization'' = Some (''Bearer '' @ tok)" for req
    using assms(2) tok(2) by (simp add: sent_headers_def wrapTokenAuth_def clearCredentials_def RoundTrip_def)
  have others: "RoundTrip (nd_tokens ?n3) (l_Token l') id = RoundTrip (nd_tokens n2) (l_Token l') id"
    if "registry_Get (nd_registry n2) t = Some l'" "t \<noteq> target" for t l'
  proof -
    have "l_Token ?l \<noteq> l_Token l'" using l later(2) that unfolding holders_inv_def by blast
    then show ?thesis by (simp add: fun_eq_iff RoundTrip_other)
  qed
  show ?thesis
    by (intro exI [of _ ?n3] exI [of _ ?cfg] exI [of _ client] exI [of _ server] exI [of _ ctx] exI [of _ opts] exI [of _ caps]
        exI [of _ wa] exI [of _ wb]) (use p new mnt l sent others in blast)
qed

section \<open>A concrete node\<close>

text \<open>One instance of the surroundings, used by the witnesses only: an API server that answers each read
  with one fixed result, on the concrete system of \<open>Mounts\<close>.\<close>

definition fixed_kube :: "secret result \<Rightarrow> node_world kube" where
  "fixed_kube r =
     \<lparr>api_now = (\<lambda>w. 1000), ctx_err = (\<lambda>w. False), timer_or_done = (\<lambda>d w. (True, w)),
      get_secret = (\<lambda>ns n w. (r, w)), patch_secret = (\<lambda>ns n p w. (Inl Forbidden, w)),
      watch_secret = (\<lambda>ns n rv w. (Inl Forbidden, w)),
      get_configmap = (\<lambda>ns n w. (Inl Forbidden, w)), patch_configmap = (\<lambda>ns n p w. (Inl Forbidden, w)),
      watch_configmap = (\<lambda>ns n rv w. (Inl Forbidden, w)), watch_next = (\<lambda>w. (CtxDone, w)),
      get_lease = (\<lambda>ns n w. (Inl Forbidden, w)), create_lease = (\<lambda>ns n l w. (Inl Forbidden, w)),
      update_lease = (\<lambda>ns n l w. (Inl Forbidden, w))\<rparr>"

definition demo_env :: "secret result \<Rightarrow> node_world env" where
  "demo_env r =
     \<lparr>e_dns = (\<lambda>_. []), e_inCluster = Inr in_cluster,
      e_newForConfig = (\<lambda>cfg. Inr (\<lambda>tokens. fixed_kube r)), e_os = ref_os,
      e_watch = (\<lambda>client vol w. (7, w)), e_mount = (\<lambda>client dir opts w. (Inr (3, 8), w))\<rparr>"

lemma demo_env_sel [simp]:
  "e_dns (demo_env r) = (\<lambda>_. [])"
  "e_inCluster (demo_env r) = Inr in_cluster" "e_newForConfig (demo_env r) = (\<lambda>cfg. Inr (\<lambda>tokens. fixed_kube r))"
  "e_os (demo_env r) = ref_os" "e_watch (demo_env r) = (\<lambda>client vol w. (7, w))"
  "e_mount (demo_env r) = (\<lambda>client dir opts w. (Inr (3, 8), w))"
  by (simp_all add: demo_env_def)

definition demo_vc :: attrs where
  "demo_vc = fmupd KeyTokens demo_payload (fmupd KeyPodNamespace ''app'' (fmupd KeyPodServiceAcct ''web''
     (fmupd KeyPodUID ''uid-1'' (fmupd keyEphemeral ''true'' (fmupd ''objectKind'' ''Secret''
     (fmupd ''objectName'' ''creds'' fmempty))))))"

definition demo_node :: node_server where
  "demo_node = NewNodeServer ''node-1'' (empty_registry ''/state.json'')"

definition live_node :: node_server where
  "live_node = demo_node\<lparr>nd_registry := demo_registry, nd_tokens := fmupd 0 ''old'' fmempty, nd_next := 1\<rparr>"

lemmas demo_keys = KeyTokens_def KeyPodNamespace_def KeyPodServiceAcct_def KeyPodUID_def keyEphemeral_def

lemma demo_Extract: "Extract demo_vc = Inr ''abc''"
proof -
  have "fmlookup demo_vc KeyTokens = Some demo_payload" by (simp add: demo_vc_def)
  then show ?thesis by (simp add: Extract_def demo_payload_tokens sorted_list_of_fset.rep_eq)
qed

lemma demo_vc_config:
  "attr_get demo_vc keyEphemeral = ''true''" "PodIdentity demo_vc = Inr (''app'', ''web'', ''uid-1'')"
  "ParseConfig (\<lambda>_. []) demo_vc ''app'' = Inr (config_min ''creds'' ''app'')"
  by (simp_all add: demo_vc_def demo_keys PodIdentity_def ParseConfig_def KindSecret_def leaseNameOf_def
      parseMode_def parseUint32_def parseSeconds_def config_min_def Let_def)

lemma config_min_sel [simp]:
  "config.ObjectKind (config_min name ns) = ''Secret''" "config.ObjectName (config_min name ns) = name"
  "LeaseName (config_min name ns) = ''roommate-'' @ name" "Namespace (config_min name ns) = ns"
  by (simp_all add: config_min_def)

lemma demo_volume_ok:
  "NewVolume (config_min ''creds'' ''app'') ''uid-1'' = Inr (volume_min ''creds'' ''uid-1'')"
  by (simp add: NewVolume_def config_min_def KindSecret_def volume_min_def)

lemma demo_node_sel [simp]:
  "nd_registry demo_node = empty_registry ''/state.json''" "nd_next demo_node = 0" "nd_tokens demo_node = fmempty"
  by (simp_all add: demo_node_def NewNodeServer_def)

lemma demo_not_published: "\<not> WasPublished (nd_registry demo_node) demo_target"
  by (simp add: WasPublished_def empty_registry_def)

lemma live_node_Get: "registry_Get (nd_registry live_node) demo_target = Some demo_live"
  by (simp add: live_node_def demo_registry_def table.get_put)

theorem republish_never_fails_witness:
  "\<exists>n' w'. NodePublishVolume (demo_env (Inl Forbidden)) ''v1'' demo_target fmempty live_node node_world0 = (None, n', w')"
proof -
  have "WasPublished (nd_registry live_node) demo_target" by (rule table.live_published [OF live_node_Get])
  from republish_never_fails [OF this, of "''v1''"] show ?thesis by (fastforce simp: demo_target_def)
qed

lemma demo_publish:
  "\<exists>n' w'. NodePublishVolume (demo_env (Inr demo_secret)) ''v1'' demo_target demo_vc demo_node node_world0 = (None, n', w')"
proof -
  have t: "demo_target \<noteq> ''''" "''v1'' \<noteq> ''''" by (simp_all add: demo_target_def)
  have "put_entry (empty_registry ''/state.json'') demo_target \<lparr>l_Token = 0, l_Cancel = Some 7, l_Unmount = Some 3\<rparr>
     \<lparr>mt_TargetPath = demo_target, mt_ObjectKind = ''Secret'', mt_ObjectName = ''creds'', mt_Namespace = ''app''\<rparr> = demo_registry"
    by (simp add: demo_registry_def one_record_def demo_target_def demo_live_def)
  then show ?thesis
    unfolding NodePublish_first [OF demo_not_published t(2) t(1)]
    by (simp add: publish_def authorize_def demo_vc_config demo_Extract ClientFor_def demo_volume_ok volume_min_def fixed_kube_def
        cache_Fresh_def NewCache_def secret_Get_def secret_Decode_def publish_mount_def mount_volume_def record_mount_def DetachStale_def isMountpoint_def node_world0_def
        Mount_def Let_def registry_Put_def persist_def demo_put)
qed

theorem no_double_publish_witness:
  "\<exists>n1 w1 n3. publish_locked (demo_env (Inr demo_secret)) demo_target demo_vc demo_node node_world0 = (None, n1, w1) \<and>
    publish_locked (demo_env (Inl Forbidden)) demo_target fmempty n1 w1 = (None, n3, w1) \<and> nd_publishAttempts n3 = 1"
proof -
  have g: "registry_Get (nd_registry demo_node) demo_target = None" by (rule not_published_Get [OF demo_not_published])
  obtain n1 w1 where "NodePublishVolume (demo_env (Inr demo_secret)) ''v1'' demo_target demo_vc demo_node node_world0
      = (None, n1, w1)" using demo_publish by blast
  then have p: "publish_locked (demo_env (Inr demo_secret)) demo_target demo_vc demo_node node_world0 = (None, n1, w1)"
    using g by (simp add: NodePublishVolume_def demo_target_def)
  from no_double_publish [OF g p demo_not_published refl refl, of "demo_env (Inl Forbidden)" fmempty w1] p
  show ?thesis by (auto simp: demo_node_def NewNodeServer_def)
qed

theorem first_publish_witness:
  "\<exists>n' w' l. NodePublishVolume (demo_env (Inr demo_secret)) ''v1'' demo_target demo_vc demo_node node_world0 = (None, n', w') \<and>
    registry_Get (nd_registry n') demo_target = Some l \<and> fmlookup (nd_tokens n') (l_Token l) = Some ''abc''"
proof -
  obtain n' w' where p: "NodePublishVolume (demo_env (Inr demo_secret)) ''v1'' demo_target demo_vc demo_node node_world0
      = (None, n', w')" using demo_publish by blast
  have t: "demo_target \<noteq> ''''" "''v1'' \<noteq> ''''" by (simp_all add: demo_target_def)
  from first_publish [OF demo_not_published t(2) t(1) p] p show ?thesis by (auto simp: demo_Extract)
qed

theorem denied_before_mount_witness:
  "\<exists>n'. NodePublishVolume (demo_env (Inl Forbidden)) ''v1'' demo_target demo_vc demo_node node_world0
    = (Some (PermissionDenied, RBACHint ''app'' ''web'' ''Secret'' ''creds'' ''roommate-creds''), n', node_world0)"
proof -
  have t: "demo_target \<noteq> ''''" "''v1'' \<noteq> ''''" by (simp_all add: demo_target_def)
  have c: "ClientFor (e_inCluster (demo_env (Inl Forbidden))) (e_newForConfig (demo_env (Inl Forbidden))) (nd_next demo_node)
      = Inr (\<lambda>tokens. fixed_kube (Inl Forbidden))" by (simp add: ClientFor_def)
  have f: "cache_Fresh (fixed_kube (Inl Forbidden)) (v_cache (volume_min ''creds'' ''uid-1'')) node_world0
      = (Inl Forbidden, v_cache (volume_min ''creds'' ''uid-1''), node_world0)"
    by (simp add: cache_Fresh_def volume_min_def NewCache_def secret_Get_def fixed_kube_def)
  have "\<exists>n'. NodePublishVolume (demo_env (Inl Forbidden)) ''v1'' demo_target demo_vc demo_node node_world0
    = (Some (PermissionDenied, RBACHint ''app'' ''web'' (config.ObjectKind (config_min ''creds'' ''app''))
        (config.ObjectName (config_min ''creds'' ''app'')) (LeaseName (config_min ''creds'' ''app''))), n', node_world0) \<and>
      nd_registry n' = nd_registry demo_node"
    by (rule denied_before_mount [OF demo_not_published t(2) t(1) demo_vc_config(1,2) _ _ c demo_volume_ok f])
      (simp_all add: demo_vc_config demo_Extract)
  then show ?thesis by auto
qed

theorem unrecorded_mount_looks_live_witness:
  "\<exists>n1 w1 n2. publish_mount (demo_env (Inr demo_secret)) demo_target (config_min ''creds'' ''app'') ''app''
      (volume_min ''creds'' ''uid-1'', \<lambda>tokens. fixed_kube (Inr demo_secret)) 0 demo_node (node_world0\<lparr>nw_full := True\<rparr>)
      = (Some (Internal, ''record mount''), n1, w1) \<and>
    NodePublishVolume (demo_env (Inr demo_secret)) ''v1'' demo_target demo_vc n1 w1 = (None, n2, w1)"
proof -
  let ?p = "publish_mount (demo_env (Inr demo_secret)) demo_target (config_min ''creds'' ''app'') ''app''
      (volume_min ''creds'' ''uid-1'', \<lambda>tokens. fixed_kube (Inr demo_secret)) 0 demo_node (node_world0\<lparr>nw_full := True\<rparr>)"
  have t: "demo_target \<noteq> ''''" "''v1'' \<noteq> ''''" by (simp_all add: demo_target_def)
  have "r_records (put_entry (empty_registry ''/state.json'') demo_target l
     \<lparr>mt_TargetPath = demo_target, mt_ObjectKind = ''Secret'', mt_ObjectName = ''creds'', mt_Namespace = ''app''\<rparr>) = one_record" for l
    by (simp add: put_entry_def empty_registry_def one_record_def demo_target_def)
  then have "fst ?p = Some (Internal, ''record mount'')"
    by (simp add: publish_mount_def mount_volume_def record_mount_def DetachStale_def isMountpoint_def node_world0_def Mount_def Let_def
        registry_Put_def persist_def)
  then obtain n1 w1 where p: "?p = (Some (Internal, ''record mount''), n1, w1)" by (cases ?p) simp
  from unrecorded_mount_looks_live [OF p t(2) t(1)] p show ?thesis by blast
qed

lemma demo_holders_inv: "holders_inv live_node"
proof -
  have "registry_Get (nd_registry live_node) t = (if t = demo_target then Some demo_live else None)" for t
    unfolding live_node_def demo_registry_def
    by (simp add: table.get_put) (simp add: registry_Get_def empty_registry_def)
  then show ?thesis by (auto simp: holders_inv_def live_node_def demo_live_def split: if_splits)
qed

theorem holders_stay_apart_witness:
  "\<exists>st n' w'. NodePublishVolume (demo_env (Inr demo_secret)) ''v1'' demo_target demo_vc live_node node_world0 = (st, n', w') \<and>
    holders_inv n'"
proof -
  obtain st n' w' where p: "NodePublishVolume (demo_env (Inr demo_secret)) ''v1'' demo_target demo_vc live_node node_world0
      = (st, n', w')" by (cases "NodePublishVolume (demo_env (Inr demo_secret)) ''v1'' demo_target demo_vc live_node node_world0")
  from holders_stay_apart [OF demo_holders_inv disjI1 [OF p]] p show ?thesis by blast
qed

theorem rotated_token_is_used_witness:
  "\<exists>n1 w1 n3 cfg.
     NodePublishVolume (demo_env (Inr demo_secret)) ''v1'' demo_target demo_vc demo_node node_world0 = (None, n1, w1) \<and>
     NodePublishVolume (demo_env (Inr demo_secret)) ''v1'' demo_target demo_vc
       (n1\<lparr>nd_tokens := fmupd 0 ''expired'' (nd_tokens n1)\<rparr>) w1 = (None, n3, w1) \<and>
     fmlookup (sent_headers cfg (nd_tokens n3) fmempty) ''Authorization'' = Some ''Bearer abc''"
proof -
  let ?E = "demo_env (Inr demo_secret)"
  obtain n1 w1 where p: "NodePublishVolume ?E ''v1'' demo_target demo_vc demo_node node_world0 = (None, n1, w1)"
    using demo_publish by blast
  let ?n2 = "n1\<lparr>nd_tokens := fmupd 0 ''expired'' (nd_tokens n1)\<rparr>"
  have "holders_inv demo_node" by (simp add: holders_inv_def empty_registry_def registry_Get_def)
  from holders_stay_apart [OF this disjI1 [OF p]] have inv: "holders_inv n1" .
  then have "holders_inv ?n2" by (simp add: holders_inv_def)
  moreover have "Wrappers in_cluster = []" "demo_target \<noteq> ''''" "''v1'' \<noteq> ''''" "''abc'' \<noteq> ''''"
    by (simp_all add: in_cluster_def demo_target_def)
  moreover have "e_inCluster ?E = Inr in_cluster" by simp
  ultimately show ?thesis
    using rotated_token_is_used [OF _ _ p demo_not_published _ _ _ _ demo_Extract, of in_cluster ?n2 w1] p by fastforce
qed

end
