(* ===== verification/LeaseProtocol.thy ===== *)
theory LeaseProtocol
  imports Leases
begin

text \<open>
  The lease protocol with everything interleaved: any number of managers, each with its attempts,
  its renewal loop and its release, against one Lease on an API server with optimistic concurrency.
  Every request is split into the moment its time stamp is taken, with what was read before, and the
  moment it takes effect, with arbitrary steps of others and arbitrary time between; a manager may
  stop for ever at any point; and any request may fail at the client, which then goes on, and still take
  effect at any later time, or never. The decisions and the requests are the functions of \<open>Leases\<close>.

  Time is real time, and manager \<open>i\<close>'s clock reads it plus a constant \<open>lp_skew s i\<close>: clocks may be
  arbitrarily far apart, but they run at the same rate and are not set while the managers run. The field
  \<open>lp_sent\<close> is only for the statements: the time of the manager's last stamp that took effect, as it was
  written, in whole microseconds, put back from the manager's clock to real time. The local mutex of
  \<open>TryAcquire\<close> is left out here: it only keeps back attempts.
\<close>

text \<open>Where a manager is in \<open>TryAcquire\<close> and \<open>Release\<close>, and where its renewal loop is; the time is when
  the request's stamp was taken.\<close>

datatype act =
    Resting
  | Fetched "lease option"
  | Creating time
  | Claiming lease time
  | Owning
  | Giving_up
  | Clearing lease
  | Gone

datatype ren = Asleep | Fetched_own lease | Renewing lease time

datatype req =
    Create_lease time
  | Take_lease lease time
  | Renew_lease lease time
  | Clear_lease lease

text \<open>\<open>lp_late\<close> has the requests that the client has given up.\<close>

record proto =
  lp_now :: time
  lp_lease :: "lease option"
  lp_version :: nat
  lp_mgr :: "nat \<Rightarrow> manager"
  lp_act :: "nat \<Rightarrow> act"
  lp_ren :: "nat \<Rightarrow> ren"
  lp_skew :: "nat \<Rightarrow> time"
  lp_late :: "(nat \<times> req) set"
  lp_sent :: "nat \<Rightarrow> time"

definition clock :: "proto \<Rightarrow> nat \<Rightarrow> time" where
  "clock s i = lp_now s + lp_skew s i"

text \<open>The server: an update takes effect if it carries the stored resource version.\<close>

definition current :: "proto \<Rightarrow> lease \<Rightarrow> bool" where
  "current s l \<longleftrightarrow> (\<exists>cur. lp_lease s = Some cur \<and> lease_rv cur = lease_rv l)"

definition put_lease :: "lease \<Rightarrow> proto \<Rightarrow> proto" where
  "put_lease l s = s\<lparr>lp_lease := Some (l\<lparr>lease_rv := decimal (lp_version s)\<rparr>), lp_version := Suc (lp_version s)\<rparr>"

text \<open>A request with manager \<open>i\<close>'s stamp taken at \<open>t\<close> takes effect.\<close>

definition stamp :: "nat \<Rightarrow> time \<Rightarrow> lease \<Rightarrow> proto \<Rightarrow> proto" where
  "stamp i t l s = (put_lease l s)\<lparr>lp_sent := (lp_sent s)(i := MicroTime (t + lp_skew s i) - lp_skew s i)\<rparr>"

definition give_up_on :: "nat \<Rightarrow> req \<Rightarrow> proto \<Rightarrow> proto" where
  "give_up_on i q s = s\<lparr>lp_late := insert (i, q) (lp_late s)\<rparr>"

definition set_mgr :: "nat \<Rightarrow> manager \<Rightarrow> proto \<Rightarrow> proto" where
  "set_mgr i m s = s\<lparr>lp_mgr := (lp_mgr s)(i := m)\<rparr>"

definition set_act :: "nat \<Rightarrow> act \<Rightarrow> proto \<Rightarrow> proto" where
  "set_act i a s = s\<lparr>lp_act := (lp_act s)(i := a)\<rparr>"

definition set_ren :: "nat \<Rightarrow> ren \<Rightarrow> proto \<Rightarrow> proto" where
  "set_ren i r s = s\<lparr>lp_ren := (lp_ren s)(i := r)\<rparr>"

definition renewed :: "manager \<Rightarrow> bool \<Rightarrow> manager" where
  "renewed m ok = m\<lparr>m_healthy := ok\<rparr>"

definition let_go :: "manager \<Rightarrow> manager" where
  "let_go m = m\<lparr>m_held := False, m_healthy := False, m_renewing := False\<rparr>"

inductive lp_step :: "proto \<Rightarrow> proto \<Rightarrow> bool" where
  tick: "0 < d \<Longrightarrow> lp_step s (s\<lparr>lp_now := lp_now s + d\<rparr>)"
| fetch: "lp_act s i = Resting \<Longrightarrow> \<not> m_held (lp_mgr s i) \<Longrightarrow>
    lp_step s (set_act i (Fetched (lp_lease s)) s)"
| absent: "lp_act s i = Fetched None \<Longrightarrow> lp_step s (set_act i (Creating (lp_now s)) s)"
| claim: "lp_act s i = Fetched (Some l) \<Longrightarrow> claimable (lp_mgr s i) (clock s i) l = (True, m) \<Longrightarrow>
    lp_step s (set_act i (Claiming l (lp_now s)) (set_mgr i m s))"
| wait: "lp_act s i = Fetched (Some l) \<Longrightarrow> claimable (lp_mgr s i) (clock s i) l = (False, m) \<Longrightarrow>
    lp_step s (set_act i Resting (set_mgr i m s))"
| created: "lp_act s i = Creating t \<Longrightarrow> lp_lease s = None \<Longrightarrow>
    lp_step s (set_act i Owning (set_mgr i (startRenewal (lp_mgr s i))
      (stamp i t (create_req (lp_mgr s i) (t + lp_skew s i)) s)))"
| create_fails: "lp_act s i = Creating t \<Longrightarrow> lp_step s (set_act i Resting (give_up_on i (Create_lease t) s))"
| taken: "lp_act s i = Claiming l t \<Longrightarrow> current s l \<Longrightarrow>
    lp_step s (set_act i Owning (set_mgr i (startRenewal (lp_mgr s i))
      (stamp i t (takeOver_req (lp_mgr s i) (t + lp_skew s i) l) s)))"
| claim_fails: "lp_act s i = Claiming l t \<Longrightarrow> lp_step s (set_act i Resting (give_up_on i (Take_lease l t) s))"
| wake: "m_renewing (lp_mgr s i) \<Longrightarrow> lp_ren s i = Asleep \<Longrightarrow> lp_lease s = Some l \<Longrightarrow>
    lp_step s (set_ren i (Fetched_own l) s)"
| wake_fails: "m_renewing (lp_mgr s i) \<Longrightarrow> lp_ren s i = Asleep \<Longrightarrow>
    lp_step s (set_mgr i (renewed (lp_mgr s i) False) s)"
| still_own: "lp_ren s i = Fetched_own l \<Longrightarrow> HolderIdentity l = Some (m_holder (lp_mgr s i)) \<Longrightarrow>
    lp_step s (set_ren i (Renewing l (lp_now s)) s)"
| lost: "lp_ren s i = Fetched_own l \<Longrightarrow> HolderIdentity l \<noteq> Some (m_holder (lp_mgr s i)) \<Longrightarrow>
    lp_step s (set_ren i Asleep (set_mgr i (renewed (lp_mgr s i) False) s))"
| renew: "lp_ren s i = Renewing l t \<Longrightarrow> current s l \<Longrightarrow>
    lp_step s (set_ren i Asleep (set_mgr i (renewed (lp_mgr s i) True)
      (stamp i t (l\<lparr>RenewTime := Some (MicroTime (t + lp_skew s i))\<rparr>) s)))"
| renew_fails: "lp_ren s i = Renewing l t \<Longrightarrow>
    lp_step s (set_ren i Asleep (set_mgr i (renewed (lp_mgr s i) False) (give_up_on i (Renew_lease l t) s)))"
| give_up: "lp_act s i = Owning \<Longrightarrow> lp_step s (set_act i Giving_up (set_mgr i (let_go (lp_mgr s i)) s))"
| fetch_own: "lp_act s i = Giving_up \<Longrightarrow> lp_lease s = Some l \<Longrightarrow> HolderIdentity l = Some (m_holder (lp_mgr s i)) \<Longrightarrow>
    lp_step s (set_act i (Clearing l) s)"
| nothing_to_clear: "lp_act s i = Giving_up \<Longrightarrow> lp_step s (set_act i Gone s)"
| cleared: "lp_act s i = Clearing l \<Longrightarrow> current s l \<Longrightarrow> lp_step s (set_act i Gone (put_lease (clear_holder l) s))"
| clear_fails: "lp_act s i = Clearing l \<Longrightarrow> lp_step s (set_act i Gone (give_up_on i (Clear_lease l) s))"
| late_create: "(i, Create_lease t) \<in> lp_late s \<Longrightarrow> lp_lease s = None \<Longrightarrow>
    lp_step s (stamp i t (create_req (lp_mgr s i) (t + lp_skew s i)) s)"
| late_take: "(i, Take_lease l t) \<in> lp_late s \<Longrightarrow> current s l \<Longrightarrow>
    lp_step s (stamp i t (takeOver_req (lp_mgr s i) (t + lp_skew s i) l) s)"
| late_renew: "(i, Renew_lease l t) \<in> lp_late s \<Longrightarrow> current s l \<Longrightarrow>
    lp_step s (stamp i t (l\<lparr>RenewTime := Some (MicroTime (t + lp_skew s i))\<rparr>) s)"
| late_clear: "(i, Clear_lease l) \<in> lp_late s \<Longrightarrow> current s l \<Longrightarrow> lp_step s (put_lease (clear_holder l) s)"

text \<open>At the start nobody does anything, the managers are new, with identities of their own, and a
  Lease may be there that none of them wrote.\<close>

definition lp_start :: "proto \<Rightarrow> bool" where
  "lp_start s \<longleftrightarrow>
     (\<forall>i. lp_act s i = Resting \<and> lp_ren s i = Asleep \<and> \<not> m_held (lp_mgr s i) \<and> \<not> m_renewing (lp_mgr s i) \<and>
        \<not> o_valid (m_obs (lp_mgr s i)) \<and> m_holder (lp_mgr s i) \<noteq> '''') \<and>
     inj (\<lambda>i. m_holder (lp_mgr s i)) \<and>
     (\<forall>l. lp_lease s = Some l \<longrightarrow> (\<exists>n < lp_version s. lease_rv l = decimal n) \<and>
        (\<forall>i. HolderIdentity l \<noteq> Some (m_holder (lp_mgr s i)))) \<and>
     lp_late s = {}"

inductive lp_reachable :: "proto \<Rightarrow> bool" where
  start: "lp_start s \<Longrightarrow> lp_reachable s"
| step: "lp_reachable s \<Longrightarrow> lp_step s s' \<Longrightarrow> lp_reachable s'"

inductive_cases lp_stepE [consumes 1, case_names tick fetch absent claim wait created create_fails
  taken claim_fails wake wake_fails still_own lost renew renew_fails give_up fetch_own
  nothing_to_clear cleared clear_fails late_create late_take late_renew late_clear]: "lp_step s s'"

section \<open>What is in flight\<close>

fun act_copies :: "act \<Rightarrow> lease set" where
  "act_copies (Fetched (Some l)) = {l}"
| "act_copies (Claiming l t) = {l}"
| "act_copies (Clearing l) = {l}"
| "act_copies _ = {}"

fun ren_copies :: "ren \<Rightarrow> lease set" where
  "ren_copies (Fetched_own l) = {l}"
| "ren_copies (Renewing l t) = {l}"
| "ren_copies Asleep = {}"

fun req_copies :: "req \<Rightarrow> lease set" where
  "req_copies (Create_lease t) = {}"
| "req_copies (Take_lease l t) = {l}"
| "req_copies (Renew_lease l t) = {l}"
| "req_copies (Clear_lease l) = {l}"

text \<open>The stored Lease and every copy of it that some manager, or a late request, still works with.\<close>

definition copies :: "proto \<Rightarrow> lease set" where
  "copies s = (\<Union>i. act_copies (lp_act s i) \<union> ren_copies (lp_ren s i)) \<union> (\<Union>(i, q) \<in> lp_late s. req_copies q) \<union>
     set_option (lp_lease s)"

text \<open>The requests of a manager that may still take effect.\<close>

fun act_reqs :: "act \<Rightarrow> req set" where
  "act_reqs (Creating t) = {Create_lease t}"
| "act_reqs (Claiming l t) = {Take_lease l t}"
| "act_reqs (Clearing l) = {Clear_lease l}"
| "act_reqs _ = {}"

fun ren_reqs :: "ren \<Rightarrow> req set" where
  "ren_reqs (Renewing l t) = {Renew_lease l t}"
| "ren_reqs _ = {}"

definition pending :: "proto \<Rightarrow> nat \<Rightarrow> req set" where
  "pending s i = act_reqs (lp_act s i) \<union> ren_reqs (lp_ren s i) \<union> {q. (i, q) \<in> lp_late s}"

lemma act_reqs_copies: "q \<in> act_reqs a \<Longrightarrow> req_copies q \<subseteq> act_copies a"
  by (cases a rule: act_reqs.cases) auto

lemma ren_reqs_copies: "q \<in> ren_reqs r \<Longrightarrow> req_copies q \<subseteq> ren_copies r"
  by (cases r) auto

lemma copies_act: "act_copies (lp_act s i) \<subseteq> copies s" and copies_ren: "ren_copies (lp_ren s i) \<subseteq> copies s"
  and copies_late: "(i, q) \<in> lp_late s \<Longrightarrow> req_copies q \<subseteq> copies s"
  by (auto simp: copies_def)

lemma copies_pending: "q \<in> pending s i \<Longrightarrow> req_copies q \<subseteq> copies s"
  using act_reqs_copies [of q "lp_act s i"] ren_reqs_copies [of q "lp_ren s i"] copies_act [of s i] copies_ren [of s i]
    copies_late [of i q s] by (auto simp: pending_def)

lemma copies_stored: "lp_lease s = Some l \<Longrightarrow> l \<in> copies s"
  by (simp add: copies_def)

lemma copies_set_act: "copies (set_act i a s) \<subseteq> act_copies a \<union> copies s"
  by (auto simp: copies_def set_act_def split: if_splits)

lemma copies_set_ren: "copies (set_ren i r s) \<subseteq> ren_copies r \<union> copies s"
  by (auto simp: copies_def set_ren_def split: if_splits)

lemma copies_give_up_on: "copies (give_up_on i q s) = req_copies q \<union> copies s"
  by (auto simp: copies_def give_up_on_def)

lemma copies_store: "copies (put_lease l s) \<subseteq> insert (l\<lparr>lease_rv := decimal (lp_version s)\<rparr>) (copies s)"
  by (auto simp: copies_def put_lease_def)

lemma copies_same: "copies (set_mgr i m s) = copies s" "copies (s\<lparr>lp_now := n\<rparr>) = copies s"
  "copies (stamp i t l s) = copies (put_lease l s)"
  by (simp_all add: copies_def set_mgr_def stamp_def)

lemma lp_fields [simp]:
  "lp_lease (set_act i a s) = lp_lease s" "lp_version (set_act i a s) = lp_version s" "lp_now (set_act i a s) = lp_now s"
  "lp_mgr (set_act i a s) = lp_mgr s" "lp_ren (set_act i a s) = lp_ren s" "lp_skew (set_act i a s) = lp_skew s"
  "lp_late (set_act i a s) = lp_late s" "lp_sent (set_act i a s) = lp_sent s"
  "lp_act (set_act i a s) = (lp_act s)(i := a)"
  "lp_lease (set_ren i r s) = lp_lease s" "lp_version (set_ren i r s) = lp_version s" "lp_now (set_ren i r s) = lp_now s"
  "lp_mgr (set_ren i r s) = lp_mgr s" "lp_act (set_ren i r s) = lp_act s" "lp_skew (set_ren i r s) = lp_skew s"
  "lp_late (set_ren i r s) = lp_late s" "lp_sent (set_ren i r s) = lp_sent s"
  "lp_ren (set_ren i r s) = (lp_ren s)(i := r)"
  "lp_lease (set_mgr i m s) = lp_lease s" "lp_version (set_mgr i m s) = lp_version s" "lp_now (set_mgr i m s) = lp_now s"
  "lp_act (set_mgr i m s) = lp_act s" "lp_ren (set_mgr i m s) = lp_ren s" "lp_skew (set_mgr i m s) = lp_skew s"
  "lp_late (set_mgr i m s) = lp_late s" "lp_sent (set_mgr i m s) = lp_sent s"
  "lp_mgr (set_mgr i m s) = (lp_mgr s)(i := m)"
  by (simp_all add: set_act_def set_ren_def set_mgr_def)

lemma late_fields [simp]:
  "lp_lease (give_up_on i q s) = lp_lease s" "lp_version (give_up_on i q s) = lp_version s"
  "lp_now (give_up_on i q s) = lp_now s" "lp_mgr (give_up_on i q s) = lp_mgr s" "lp_act (give_up_on i q s) = lp_act s"
  "lp_ren (give_up_on i q s) = lp_ren s" "lp_skew (give_up_on i q s) = lp_skew s" "lp_sent (give_up_on i q s) = lp_sent s"
  "lp_late (give_up_on i q s) = insert (i, q) (lp_late s)"
  by (simp_all add: give_up_on_def)

lemma store_fields [simp]:
  "lp_lease (put_lease l s) = Some (l\<lparr>lease_rv := decimal (lp_version s)\<rparr>)" "lp_version (put_lease l s) = Suc (lp_version s)"
  "lp_now (put_lease l s) = lp_now s" "lp_mgr (put_lease l s) = lp_mgr s" "lp_act (put_lease l s) = lp_act s"
  "lp_ren (put_lease l s) = lp_ren s" "lp_skew (put_lease l s) = lp_skew s" "lp_late (put_lease l s) = lp_late s"
  "lp_sent (put_lease l s) = lp_sent s"
  "lp_lease (stamp i t l s) = Some (l\<lparr>lease_rv := decimal (lp_version s)\<rparr>)" "lp_version (stamp i t l s) = Suc (lp_version s)"
  "lp_now (stamp i t l s) = lp_now s" "lp_mgr (stamp i t l s) = lp_mgr s" "lp_act (stamp i t l s) = lp_act s"
  "lp_ren (stamp i t l s) = lp_ren s" "lp_skew (stamp i t l s) = lp_skew s" "lp_late (stamp i t l s) = lp_late s"
  "lp_sent (stamp i t l s) = (lp_sent s)(i := MicroTime (t + lp_skew s i) - lp_skew s i)"
  by (simp_all add: put_lease_def stamp_def)

lemma current_same [simp]: "current (set_act i a s) = current s" "current (set_ren i r s) = current s"
  "current (set_mgr i m s) = current s" "current (s\<lparr>lp_now := n\<rparr>) = current s" "current (give_up_on i q s) = current s"
  by (auto simp: current_def fun_eq_iff set_act_def set_ren_def set_mgr_def)

lemma current_store: "current (put_lease l s) c \<longleftrightarrow> lease_rv c = decimal (lp_version s)"
  "current (stamp i t l s) c \<longleftrightarrow> lease_rv c = decimal (lp_version s)"
  by (auto simp: current_def)

text \<open>The manager's attempt has succeeded; it takes no other Lease.\<close>

fun past :: "act \<Rightarrow> bool" where
  "past Owning = True"
| "past Giving_up = True"
| "past (Clearing l) = True"
| "past Gone = True"
| "past _ = False"

section \<open>The invariants\<close>

text \<open>Identities: managers keep their holder and duration, and no two share a holder.\<close>

definition inv_ids :: "proto \<Rightarrow> bool" where
  "inv_ids s \<longleftrightarrow> inj (\<lambda>i. m_holder (lp_mgr s i)) \<and> (\<forall>i. m_holder (lp_mgr s i) \<noteq> '''')"

text \<open>Copies: versions are from the past, and a copy with the stored version is the stored Lease; what they
  carry was stamped in the past; and a Lease with a manager's name carries its duration.\<close>

definition inv_versions :: "proto \<Rightarrow> bool" where
  "inv_versions s \<longleftrightarrow> (\<forall>c \<in> copies s. (\<exists>n < lp_version s. lease_rv c = decimal n) \<and>
     (current s c \<longrightarrow> lp_lease s = Some c))"

definition inv_stamps :: "proto \<Rightarrow> bool" where
  "inv_stamps s \<longleftrightarrow> (\<forall>c \<in> copies s. \<forall>i r. HolderIdentity c = Some (m_holder (lp_mgr s i)) \<longrightarrow> RenewTime c = Some r \<longrightarrow>
     r \<le> lp_now s + lp_skew s i)"

definition inv_durations :: "proto \<Rightarrow> bool" where
  "inv_durations s \<longleftrightarrow> (\<forall>c \<in> copies s. \<forall>i. HolderIdentity c = Some (m_holder (lp_mgr s i)) \<longrightarrow>
     LeaseDurationSeconds c = Some (duration_secs (lp_mgr s i)))"

text \<open>Times are in the past, and the requests of a renewal or a release are for the own Lease.\<close>

definition inv_times :: "proto \<Rightarrow> bool" where
  "inv_times s \<longleftrightarrow> (\<forall>i l t. Create_lease t \<in> pending s i \<or> Take_lease l t \<in> pending s i \<or> Renew_lease l t \<in> pending s i \<longrightarrow>
     t \<le> lp_now s)"

definition inv_own :: "proto \<Rightarrow> bool" where
  "inv_own s \<longleftrightarrow> (\<forall>i l t. Renew_lease l t \<in> pending s i \<or> Clear_lease l \<in> pending s i \<longrightarrow>
     HolderIdentity l = Some (m_holder (lp_mgr s i)))"

text \<open>Only a manager whose attempt succeeded and that has not let go is marked as holding; who clears the
  Lease has let go; and once the attempt has succeeded, no other attempt of the manager takes effect.\<close>

definition inv_held :: "proto \<Rightarrow> bool" where
  "inv_held s \<longleftrightarrow> (\<forall>i. m_held (lp_mgr s i) \<longrightarrow> lp_act s i = Owning) \<and>
     (\<forall>i l. Clear_lease l \<in> pending s i \<longrightarrow> past (lp_act s i) \<and> lp_act s i \<noteq> Owning)"

definition inv_late :: "proto \<Rightarrow> bool" where
  "inv_late s \<longleftrightarrow> (\<forall>i. past (lp_act s i) \<longrightarrow> lp_lease s \<noteq> None \<and>
     (\<forall>c t. Take_lease c t \<in> pending s i \<longrightarrow> \<not> current s c))"

text \<open>An observation of a manager's stamp was made after the stamp was taken.\<close>

definition inv_observed :: "proto \<Rightarrow> bool" where
  "inv_observed s \<longleftrightarrow> (\<forall>j i. o_valid (m_obs (lp_mgr s j)) \<longrightarrow> o_holder (m_obs (lp_mgr s j)) = m_holder (lp_mgr s i) \<longrightarrow>
     o_renewTime (m_obs (lp_mgr s j)) - lp_skew s i + lp_skew s j \<le> o_at (m_obs (lp_mgr s j)))"

text \<open>Whoever is about to take a Lease that a manager has stamped took the time of its own stamp after the
  duration of that one.\<close>

definition inv_claims :: "proto \<Rightarrow> bool" where
  "inv_claims s \<longleftrightarrow> (\<forall>j c t i r. Take_lease c t \<in> pending s j \<longrightarrow> foreign (lp_mgr s j) c \<longrightarrow>
     HolderIdentity c = Some (m_holder (lp_mgr s i)) \<longrightarrow> RenewTime c = Some r \<longrightarrow>
     r - lp_skew s i + lease_dur (lp_mgr s j) c < t)"

text \<open>Who holds is named by the stored Lease, with its last stamp, or its last stamp has run out.\<close>

definition run_out :: "proto \<Rightarrow> nat \<Rightarrow> bool" where
  "run_out s i \<longleftrightarrow> lp_sent s i + duration_secs (lp_mgr s i) * second < lp_now s"

definition inv_window :: "proto \<Rightarrow> bool" where
  "inv_window s \<longleftrightarrow> (\<forall>i. m_held (lp_mgr s i) \<longrightarrow> run_out s i \<or>
     (\<exists>l r. lp_lease s = Some l \<and> HolderIdentity l = Some (m_holder (lp_mgr s i)) \<and>
        RenewTime l = Some r \<and> lp_sent s i = r - lp_skew s i))"

lemmas lp_inv_defs = inv_ids_def inv_versions_def inv_stamps_def inv_durations_def inv_times_def inv_own_def
  inv_held_def inv_observed_def inv_claims_def inv_late_def inv_window_def

definition lp_inv :: "proto \<Rightarrow> bool" where
  "lp_inv s \<longleftrightarrow> inv_ids s \<and> inv_versions s \<and> inv_stamps s \<and> inv_durations s \<and> inv_times s \<and> inv_own s \<and>
     inv_held s \<and> inv_observed s \<and> inv_claims s \<and> inv_late s \<and> inv_window s"

lemma lp_inv_start: "lp_start s \<Longrightarrow> lp_inv s"
  unfolding lp_inv_def lp_inv_defs
  by (intro conjI) (fastforce simp: lp_start_def copies_def pending_def current_def)+

text \<open>A manager's identity is what no step changes.\<close>

definition same_id :: "manager \<Rightarrow> manager \<Rightarrow> bool" where
  "same_id m m' \<longleftrightarrow> m_holder m' = m_holder m \<and> m_duration m' = m_duration m"

lemma same_id_simps [simp]:
  "same_id m m" "same_id m (startRenewal m)" "same_id m (renewed m b)" "same_id m (let_go m)"
  "same_id m (snd (claimable m now l))"
  by (simp_all add: same_id_def startRenewal_def renewed_def let_go_def)

lemma same_id_duration: "same_id m m' \<Longrightarrow> duration_secs m' = duration_secs m"
  by (simp add: same_id_def duration_secs_def)

lemma same_id_foreign: "same_id m m' \<Longrightarrow> foreign m' l = foreign m l"
  by (simp add: same_id_def foreign_def)

lemma same_id_dur: "same_id m m' \<Longrightarrow> lease_dur m' l = lease_dur m l"
  by (simp add: same_id_def lease_dur_def split: option.split)

section \<open>The kinds of steps\<close>

lemma step_same_id:
  assumes "lp_step s s'"
  shows "same_id (lp_mgr s k) (lp_mgr s' k)" "lp_skew s' = lp_skew s" "lp_now s \<le> lp_now s'"
proof -
  have "same_id (lp_mgr s k) (lp_mgr s' k) \<and> lp_skew s' = lp_skew s \<and> lp_now s \<le> lp_now s'"
    using assms same_id_simps(5)
    by (cases rule: lp_stepE) (auto dest: arg_cong [where f = snd], (metis same_id_simps(5) snd_conv)+)
  then show "same_id (lp_mgr s k) (lp_mgr s' k)" "lp_skew s' = lp_skew s" "lp_now s \<le> lp_now s'" by simp_all
qed

text \<open>A step either leaves the stored Lease alone, or stamps it, or clears it.\<close>

definition quiet :: "proto \<Rightarrow> proto \<Rightarrow> bool" where
  "quiet s s' \<longleftrightarrow> lp_lease s' = lp_lease s \<and> lp_version s' = lp_version s \<and> lp_sent s' = lp_sent s \<and>
     copies s' \<subseteq> copies s"

text \<open>What a stamped Lease was made of.\<close>

definition made :: "proto \<Rightarrow> nat \<Rightarrow> time \<Rightarrow> lease \<Rightarrow> bool" where
  "made s i t l \<longleftrightarrow>
     Create_lease t \<in> pending s i \<and> lp_lease s = None \<and> l = create_req (lp_mgr s i) (t + lp_skew s i) \<or>
     (\<exists>c. Take_lease c t \<in> pending s i \<and> current s c \<and> l = takeOver_req (lp_mgr s i) (t + lp_skew s i) c) \<or>
     (\<exists>c. Renew_lease c t \<in> pending s i \<and> current s c \<and> l = c\<lparr>RenewTime := Some (MicroTime (t + lp_skew s i))\<rparr>)"

definition stamped_by :: "nat \<Rightarrow> time \<Rightarrow> lease \<Rightarrow> proto \<Rightarrow> proto \<Rightarrow> bool" where
  "stamped_by i t l s s' \<longleftrightarrow> made s i t l \<and>
     lp_lease s' = Some (l\<lparr>lease_rv := decimal (lp_version s)\<rparr>) \<and> lp_version s' = Suc (lp_version s) \<and>
     lp_now s' = lp_now s \<and> lp_sent s' = (lp_sent s)(i := MicroTime (t + lp_skew s i) - lp_skew s i) \<and>
     copies s' \<subseteq> insert (l\<lparr>lease_rv := decimal (lp_version s)\<rparr>) (copies s) \<and>
     (\<forall>j. j \<noteq> i \<longrightarrow> m_held (lp_mgr s' j) = m_held (lp_mgr s j)) \<and> (\<forall>j. pending s' j \<subseteq> pending s j)"

definition cleared_by :: "nat \<Rightarrow> lease \<Rightarrow> proto \<Rightarrow> proto \<Rightarrow> bool" where
  "cleared_by i c s s' \<longleftrightarrow> Clear_lease c \<in> pending s i \<and> current s c \<and>
     lp_lease s' = Some ((clear_holder c)\<lparr>lease_rv := decimal (lp_version s)\<rparr>) \<and> lp_version s' = Suc (lp_version s) \<and>
     lp_now s' = lp_now s \<and> lp_sent s' = lp_sent s \<and>
     copies s' \<subseteq> insert ((clear_holder c)\<lparr>lease_rv := decimal (lp_version s)\<rparr>) (copies s) \<and>
     lp_mgr s' = lp_mgr s \<and> (\<forall>j. pending s' j \<subseteq> pending s j)"

lemma copies_set_act_le: "act_copies a \<subseteq> copies s \<Longrightarrow> copies (set_act i a s) \<subseteq> copies s"
  using copies_set_act [of i a s] by blast

lemma copies_set_ren_le: "ren_copies r \<subseteq> copies s \<Longrightarrow> copies (set_ren i r s) \<subseteq> copies s"
  using copies_set_ren [of i r s] by blast

lemma quiet_act: "act_copies a \<subseteq> copies s \<Longrightarrow> quiet s (set_act i a s)"
  and quiet_act_mgr: "act_copies a \<subseteq> copies s \<Longrightarrow> quiet s (set_act i a (set_mgr i m s))"
  and quiet_ren: "ren_copies r \<subseteq> copies s \<Longrightarrow> quiet s (set_ren i r s)"
  and quiet_ren_mgr: "ren_copies r \<subseteq> copies s \<Longrightarrow> quiet s (set_ren i r (set_mgr i m s))"
  using copies_set_act_le [of a s i] copies_set_act_le [of a "set_mgr i m s" i]
    copies_set_ren_le [of r s i] copies_set_ren_le [of r "set_mgr i m s" i]
  by (simp_all add: quiet_def copies_same)

lemma quiet_late: "req_copies q \<subseteq> copies s \<Longrightarrow> quiet s (give_up_on i q s)"
  by (simp add: quiet_def copies_give_up_on)

lemma quiet_trans: "quiet s s1 \<Longrightarrow> quiet s1 s2 \<Longrightarrow> quiet s s2"
  by (auto simp: quiet_def)

lemma quiet_fails: "req_copies q \<subseteq> copies s \<Longrightarrow> act_copies a = {} \<Longrightarrow> quiet s (set_act i a (give_up_on i q s))"
  "req_copies q \<subseteq> copies s \<Longrightarrow> quiet s (set_ren i Asleep (set_mgr i m (give_up_on i q s)))"
  by (rule quiet_trans [OF quiet_late [of q s i] quiet_act] quiet_trans [OF quiet_late [of q s i] quiet_ren_mgr]; simp)+

lemma copies_stamp_act: "copies (set_act i Owning (set_mgr i m (stamp i t l s))) \<subseteq>
    insert (l\<lparr>lease_rv := decimal (lp_version s)\<rparr>) (copies s)"
  using copies_set_act [of i Owning "set_mgr i m (stamp i t l s)"] copies_store [of l s] by (auto simp: copies_same)

lemma copies_stamp_ren: "copies (set_ren i Asleep (set_mgr i m (stamp i t l s))) \<subseteq>
    insert (l\<lparr>lease_rv := decimal (lp_version s)\<rparr>) (copies s)"
  using copies_set_ren [of i Asleep "set_mgr i m (stamp i t l s)"] copies_store [of l s] by (auto simp: copies_same)

lemma made_intros:
  "Create_lease t \<in> pending s i \<Longrightarrow> lp_lease s = None \<Longrightarrow> made s i t (create_req (lp_mgr s i) (t + lp_skew s i))"
  "Take_lease l t \<in> pending s i \<Longrightarrow> current s l \<Longrightarrow> made s i t (takeOver_req (lp_mgr s i) (t + lp_skew s i) l)"
  "Renew_lease l t \<in> pending s i \<Longrightarrow> current s l \<Longrightarrow> made s i t (l\<lparr>RenewTime := Some (MicroTime (t + lp_skew s i))\<rparr>)"
  by (auto simp: made_def)

lemma pendingI:
  "lp_act s i = Creating t \<Longrightarrow> Create_lease t \<in> pending s i" "lp_act s i = Claiming l t \<Longrightarrow> Take_lease l t \<in> pending s i"
  "lp_ren s i = Renewing l t \<Longrightarrow> Renew_lease l t \<in> pending s i" "lp_act s i = Clearing l \<Longrightarrow> Clear_lease l \<in> pending s i"
  "(i, q) \<in> lp_late s \<Longrightarrow> q \<in> pending s i"
  by (auto simp: pending_def)

lemma stamped_act: "made s i t l \<Longrightarrow>
    stamped_by i t l s (set_act i Owning (set_mgr i (startRenewal (lp_mgr s i)) (stamp i t l s)))"
  and stamped_ren: "made s i t l \<Longrightarrow>
    stamped_by i t l s (set_ren i Asleep (set_mgr i (renewed (lp_mgr s i) b) (stamp i t l s)))"
  and stamped_late: "made s i t l \<Longrightarrow> stamped_by i t l s (stamp i t l s)"
  using copies_stamp_act copies_stamp_ren copies_store [of l s]
  by (auto simp: stamped_by_def startRenewal_def renewed_def pending_def copies_same)

lemma cleared_gone:
  "lp_act s i = Clearing l \<Longrightarrow> current s l \<Longrightarrow> cleared_by i l s (set_act i Gone (put_lease (clear_holder l) s))"
  "(i, Clear_lease l) \<in> lp_late s \<Longrightarrow> current s l \<Longrightarrow> cleared_by i l s (put_lease (clear_holder l) s)"
  using copies_set_act [of i Gone "put_lease (clear_holder l) s"] copies_store [of "clear_holder l" s]
  by (auto simp: cleared_by_def pending_def)

lemma step_kinds:
  assumes "lp_step s s'"
  shows "quiet s s' \<or> (\<exists>i t l. stamped_by i t l s s') \<or> (\<exists>i c. cleared_by i c s s')"
  using assms
proof (cases rule: lp_stepE)
  case (fetch i)
  have "act_copies (Fetched (lp_lease s)) \<subseteq> copies s" by (cases "lp_lease s") (simp_all add: copies_stored)
  with fetch show ?thesis by (simp add: quiet_act)
next
  case (claim i l m)
  with copies_act [of s i] show ?thesis by (simp add: quiet_act_mgr)
next
  case (create_fails i t)
  then show ?thesis by (simp add: quiet_fails)
next
  case (claim_fails i l t)
  with copies_act [of s i] show ?thesis by (simp add: quiet_fails)
next
  case (wake i l)
  then have "ren_copies (Fetched_own l) \<subseteq> copies s" by (simp add: copies_stored)
  with wake show ?thesis by (simp add: quiet_ren)
next
  case (still_own i l)
  with copies_ren [of s i] show ?thesis by (simp add: quiet_ren)
next
  case (renew_fails i l t)
  with copies_ren [of s i] show ?thesis by (simp add: quiet_fails)
next
  case (fetch_own i l)
  then have "act_copies (Clearing l) \<subseteq> copies s" by (simp add: copies_stored)
  with fetch_own show ?thesis by (simp add: quiet_act)
next
  case (cleared i l)
  with cleared_gone(1) show ?thesis by blast
next
  case (clear_fails i l)
  with copies_act [of s i] show ?thesis by (simp add: quiet_fails)
next
  case (late_clear i l)
  with cleared_gone(2) show ?thesis by blast
qed ((simp add: quiet_act quiet_act_mgr quiet_ren_mgr; fail) | (simp add: quiet_def copies_same; fail)
  | blast intro: made_intros pendingI stamped_act stamped_late stamped_ren)+


section \<open>What one step can change\<close>

lemma claimable_obs:
  "m_obs (snd (claimable m now l)) = m_obs m \<or>
   (foreign m l \<and> m_obs (snd (claimable m now l)) = \<lparr>o_holder = the (HolderIdentity l),
      o_renewTime = the (RenewTime l), o_at = now, o_valid = True\<rparr>)"
  by (cases "foreign m l") (simp_all add: claimable_not_foreign claimable_foreign)

lemma claimable_keeps: "claimable m now l = (b, m') \<Longrightarrow> m_held m' = m_held m \<and> b = fst (claimable m now l) \<and>
    (m_obs m' = m_obs m \<or> (foreign m l \<and> m_obs m' = \<lparr>o_holder = the (HolderIdentity l),
      o_renewTime = the (RenewTime l), o_at = now, o_valid = True\<rparr>))"
  using claimable_obs [of m now l] by (metis claimable_fields(2) fst_conv snd_conv)

text \<open>An observation is only made of a Lease that was read, at the manager's present time.\<close>

lemma step_obs:
  assumes "lp_step s s'"
  shows "m_obs (lp_mgr s' j) = m_obs (lp_mgr s j) \<or>
    (lp_now s' = lp_now s \<and> (\<exists>l \<in> copies s. foreign (lp_mgr s j) l \<and>
       m_obs (lp_mgr s' j) = \<lparr>o_holder = the (HolderIdentity l), o_renewTime = the (RenewTime l),
         o_at = clock s j, o_valid = True\<rparr>))"
  using assms
proof (cases rule: lp_stepE)
  case (claim i l m)
  with copies_act [of s i] claimable_keeps [OF claim(3)]
  show ?thesis by (cases "i = j") auto
next
  case (wait i l m)
  with copies_act [of s i] claimable_keeps [OF wait(3)]
  show ?thesis by (cases "i = j") auto
qed (simp_all add: startRenewal_def renewed_def let_go_def)

text \<open>A takeover is only prepared when the claim rule allows it at that moment.\<close>

lemma step_claiming:
  assumes "lp_step s s'" and "Take_lease c t \<in> pending s' j"
  shows "Take_lease c t \<in> pending s j \<or>
    (t = lp_now s \<and> c \<in> copies s \<and> fst (claimable (lp_mgr s j) (clock s j) c) \<and> \<not> past (lp_act s' j))"
  using assms(1)
proof (cases rule: lp_stepE)
  case (claim i l m)
  with assms(2) copies_act [of s i] claimable_keeps [OF claim(3)] show ?thesis
    by (cases "i = j") (auto simp: pending_def)
qed (use assms(2) in \<open>auto simp: pending_def split: if_splits\<close>)

text \<open>The other requests are new at the time of their stamp, and for the own Lease.\<close>

lemma step_creating:
  assumes "lp_step s s'" and "Create_lease t \<in> pending s' j"
  shows "Create_lease t \<in> pending s j \<or> t = lp_now s"
  using assms(1) by (cases rule: lp_stepE) (use assms(2) in \<open>auto simp: pending_def split: if_splits\<close>)

lemma step_renewing:
  assumes "lp_step s s'" and "Renew_lease l t \<in> pending s' j"
  shows "Renew_lease l t \<in> pending s j \<or> t = lp_now s \<and> HolderIdentity l = Some (m_holder (lp_mgr s j))"
  using assms(1) by (cases rule: lp_stepE) (use assms(2) in \<open>auto simp: pending_def split: if_splits\<close>)

lemma step_clearing:
  assumes "lp_step s s'" and "Clear_lease l \<in> pending s' j"
  shows "Clear_lease l \<in> pending s j \<or>
    lp_act s j = Giving_up \<and> lp_act s' j = Clearing l \<and> HolderIdentity l = Some (m_holder (lp_mgr s j))"
  using assms(1) by (cases rule: lp_stepE) (use assms(2) in \<open>auto simp: pending_def split: if_splits\<close>)

lemma past_stays: "lp_step s s' \<Longrightarrow> past (lp_act s j) \<Longrightarrow> past (lp_act s' j) \<and> (lp_act s' j = Owning \<longrightarrow> lp_act s j = Owning)"
  by (cases rule: lp_stepE) (auto split: if_splits)

lemma step_past: "lp_step s s' \<Longrightarrow> past (lp_act s' j) \<Longrightarrow> past (lp_act s j) \<or> lp_version s' = Suc (lp_version s)"
  by (cases rule: lp_stepE) (auto split: if_splits)

text \<open>Nobody becomes a holder except by a stamp of his that takes effect.\<close>

lemma step_held:
  assumes "lp_step s s'" and "m_held (lp_mgr s' j)"
  shows "m_held (lp_mgr s j) \<or> lp_version s' = Suc (lp_version s)"
  using assms(1)
proof (cases rule: lp_stepE)
  case (claim i l m)
  with assms(2) claimable_keeps [OF claim(3)] show ?thesis by (cases "i = j") auto
next
  case (wait i l m)
  with assms(2) claimable_keeps [OF wait(3)] show ?thesis by (cases "i = j") auto
qed (use assms(2) in \<open>auto simp: renewed_def let_go_def split: if_splits\<close>)

section \<open>The invariants are preserved\<close>

lemma lp_invD:
  assumes "lp_inv s"
  shows "inv_ids s" "inv_versions s" "inv_stamps s" "inv_durations s" "inv_times s" "inv_own s" "inv_held s"
    "inv_observed s" "inv_claims s" "inv_window s" "inv_late s"
  using assms by (simp_all add: lp_inv_def)

lemma step_holder [simp]: "lp_step s s' \<Longrightarrow> m_holder (lp_mgr s' k) = m_holder (lp_mgr s k)"
  using step_same_id(1) [of s s' k] by (simp add: same_id_def)

lemma step_duration: "lp_step s s' \<Longrightarrow> duration_secs (lp_mgr s' k) = duration_secs (lp_mgr s k)"
  by (rule same_id_duration) (rule step_same_id(1))

lemma keep_ids: "lp_step s s' \<Longrightarrow> inv_ids s \<Longrightarrow> inv_ids s'"
  by (simp add: inv_ids_def)

lemma keep_held:
  assumes "lp_step s s'" and "inv_held s"
  shows "inv_held s'"
proof -
  have h: "m_held (lp_mgr s' k) \<longrightarrow> lp_act s' k = Owning" for k
    using assms(1)
  proof (cases rule: lp_stepE)
    case (claim i l m)
    with assms(2) claimable_keeps [OF claim(3)] show ?thesis by (auto simp: inv_held_def)
  next
    case (wait i l m)
    with assms(2) claimable_keeps [OF wait(3)] show ?thesis by (auto simp: inv_held_def)
  qed (use assms(2) in \<open>auto simp: inv_held_def renewed_def let_go_def\<close>)
  moreover have "past (lp_act s' k) \<and> lp_act s' k \<noteq> Owning" if "Clear_lease l \<in> pending s' k" for k l
    using step_clearing [OF assms(1) that] assms(2) past_stays [OF assms(1), of k] by (auto simp: inv_held_def)
  ultimately show ?thesis by (simp add: inv_held_def)
qed

lemma keep_own:
  assumes "lp_step s s'" and "inv_own s"
  shows "inv_own s'"
  using step_renewing [OF assms(1)] step_clearing [OF assms(1)] assms unfolding inv_own_def by (simp, blast)

lemma keep_times:
  assumes "lp_step s s'" and "inv_times s"
  shows "inv_times s'"
proof -
  have old: "Create_lease t \<in> pending s i \<or> Take_lease l t \<in> pending s i \<or> Renew_lease l t \<in> pending s i \<Longrightarrow> t \<le> lp_now s'"
    for i l t using assms(2) step_same_id(3) [OF assms(1)] unfolding inv_times_def by fastforce
  have new: "t = lp_now s \<Longrightarrow> t \<le> lp_now s'" for t using step_same_id(3) [OF assms(1)] by simp
  show ?thesis
    unfolding inv_times_def
    using step_claiming [OF assms(1)] step_creating [OF assms(1)] step_renewing [OF assms(1)] old new by blast
qed

lemma made_copy:
  assumes "inv_versions s" and "made s i t l"
  shows "lp_lease s = None \<and> Create_lease t \<in> pending s i \<and> l = create_req (lp_mgr s i) (t + lp_skew s i) \<or>
    (\<exists>c. lp_lease s = Some c \<and> c \<in> copies s \<and>
      (Take_lease c t \<in> pending s i \<and> l = takeOver_req (lp_mgr s i) (t + lp_skew s i) c \<or>
       Renew_lease c t \<in> pending s i \<and> l = c\<lparr>RenewTime := Some (MicroTime (t + lp_skew s i))\<rparr>))"
  using assms(2) copies_pending [of _ s i] assms(1)
  by (fastforce simp: made_def inv_versions_def)

text \<open>A stamped Lease names its manager, with the stamp and the duration.\<close>

lemma made_fields:
  assumes "inv_versions s" "inv_own s" "inv_durations s" and "made s i t l"
  shows "HolderIdentity l = Some (m_holder (lp_mgr s i))" "RenewTime l = Some (MicroTime (t + lp_skew s i))"
    "LeaseDurationSeconds l = Some (duration_secs (lp_mgr s i))"
proof -
  have own: "HolderIdentity c = Some (m_holder (lp_mgr s i))" if "Renew_lease c t \<in> pending s i" for c
    using assms(2) that unfolding inv_own_def by blast
  show "HolderIdentity l = Some (m_holder (lp_mgr s i))" "RenewTime l = Some (MicroTime (t + lp_skew s i))"
    "LeaseDurationSeconds l = Some (duration_secs (lp_mgr s i))"
    using made_copy [OF assms(1,4)] assms(3) own by (auto simp: create_req_def takeOver_req_def inv_durations_def)
qed

lemma made_time: "inv_times s \<Longrightarrow> made s i t l \<Longrightarrow> t \<le> lp_now s"
  by (auto simp: made_def inv_times_def)

lemma keep_versions:
  assumes "lp_step s s'" and "inv_versions s"
  shows "inv_versions s'"
proof -
  have old: "(\<exists>n < Suc (lp_version s). lease_rv c = decimal n) \<and> lease_rv c \<noteq> decimal (lp_version s)"
    if "c \<in> copies s" for c
    using assms(2) that by (auto simp: inv_versions_def decimal_inject intro: less_SucI)
  have new: "inv_versions s'" if "lp_lease s' = Some (l\<lparr>lease_rv := decimal (lp_version s)\<rparr>)"
      "lp_version s' = Suc (lp_version s)" "copies s' \<subseteq> insert (l\<lparr>lease_rv := decimal (lp_version s)\<rparr>) (copies s)" for l
    unfolding inv_versions_def
  proof
    fix c assume "c \<in> copies s'"
    with that(3) consider "c = l\<lparr>lease_rv := decimal (lp_version s)\<rparr>" | "c \<in> copies s" by blast
    then show "(\<exists>n < lp_version s'. lease_rv c = decimal n) \<and> (current s' c \<longrightarrow> lp_lease s' = Some c)"
      using old [of c] by cases (auto simp: that(1,2) current_def)
  qed
  from step_kinds [OF assms(1)] show ?thesis
  proof (elim disjE exE)
    assume "quiet s s'"
    with assms(2) show ?thesis by (auto simp: quiet_def inv_versions_def current_def)
  qed (auto simp: stamped_by_def cleared_by_def intro: new)
qed

lemma clear_holder_fields [simp]: "HolderIdentity (clear_holder c) = None" "RenewTime (clear_holder c) = None"
  by (simp_all add: clear_holder_def)

lemma keep_durations:
  assumes "lp_step s s'" and "lp_inv s"
  shows "inv_durations s'"
proof -
  note inv = lp_invD [OF assms(2)]
  have "\<forall>i. HolderIdentity c = Some (m_holder (lp_mgr s i)) \<longrightarrow> LeaseDurationSeconds c = Some (duration_secs (lp_mgr s i))"
    if "c \<in> copies s'" for c
    using step_kinds [OF assms(1)]
  proof (elim disjE exE)
    assume "quiet s s'"
    with that inv(4) show ?thesis by (auto simp: quiet_def inv_durations_def)
  next
    fix i t l assume st: "stamped_by i t l s s'"
    then have "made s i t l" by (simp add: stamped_by_def)
    from made_fields [OF inv(2,6,4) this] inv(1)
    have "\<forall>j. HolderIdentity l = Some (m_holder (lp_mgr s j)) \<longrightarrow> LeaseDurationSeconds l = Some (duration_secs (lp_mgr s j))"
      by (auto simp: inv_ids_def dest: injD)
    with st that inv(4) show ?thesis by (auto simp: stamped_by_def inv_durations_def)
  next
    fix i l assume "cleared_by i l s s'"
    with that inv(4) show ?thesis by (auto simp: cleared_by_def inv_durations_def)
  qed
  with assms(1) show ?thesis by (simp add: inv_durations_def step_duration)
qed


lemma keep_stamps:
  assumes "lp_step s s'" and "lp_inv s"
  shows "inv_stamps s'"
proof -
  note inv = lp_invD [OF assms(2)]
  have old: "r \<le> lp_now s' + lp_skew s k"
    if "c \<in> copies s" "HolderIdentity c = Some (m_holder (lp_mgr s k))" "RenewTime c = Some r" for c k r
    using that inv(3) step_same_id(3) [OF assms(1)] unfolding inv_stamps_def by fastforce
  have "r \<le> lp_now s' + lp_skew s k"
    if "c \<in> copies s'" "HolderIdentity c = Some (m_holder (lp_mgr s k))" "RenewTime c = Some r" for c k r
    using step_kinds [OF assms(1)]
  proof (elim disjE exE)
    assume "quiet s s'"
    with that old [of c k r] show ?thesis by (auto simp: quiet_def)
  next
    fix i t l assume st: "stamped_by i t l s s'"
    then have m: "made s i t l" by (simp add: stamped_by_def)
    note f = made_fields [OF inv(2,6,4) m] and t = made_time [OF inv(5) m] and q = MicroTime_le(1) [of "t + lp_skew s i"]
    show ?thesis
    proof (cases "c \<in> copies s")
      case False
      then have c: "c = l\<lparr>lease_rv := decimal (lp_version s)\<rparr>" using st that(1) by (auto simp: stamped_by_def)
      then have "k = i" using f(1) that(2) inv(1) by (auto simp: inv_ids_def dest: injD)
      with c f(2) that(3) t q st show ?thesis by (simp add: stamped_by_def)
    qed (rule old [OF _ that(2,3)])
  next
    fix i l assume "cleared_by i l s s'"
    with that old [of c k r] show ?thesis by (auto simp: cleared_by_def)
  qed
  then show ?thesis using assms(1) by (simp add: inv_stamps_def step_same_id(2))
qed

lemma keep_observed:
  assumes "lp_step s s'" and "lp_inv s"
  shows "inv_observed s'"
  unfolding inv_observed_def
proof (intro allI impI)
  fix j i assume v: "o_valid (m_obs (lp_mgr s' j))" and h: "o_holder (m_obs (lp_mgr s' j)) = m_holder (lp_mgr s' i)"
  note inv = lp_invD [OF assms(2)]
  have "o_renewTime (m_obs (lp_mgr s' j)) - lp_skew s i + lp_skew s j \<le> o_at (m_obs (lp_mgr s' j))"
    using step_obs [OF assms(1), of j]
  proof
    assume "m_obs (lp_mgr s' j) = m_obs (lp_mgr s j)"
    with v h inv(8) assms(1) show ?thesis by (simp add: inv_observed_def)
  next
    assume "lp_now s' = lp_now s \<and> (\<exists>c \<in> copies s. foreign (lp_mgr s j) c \<and>
      m_obs (lp_mgr s' j) = \<lparr>o_holder = the (HolderIdentity c), o_renewTime = the (RenewTime c),
        o_at = clock s j, o_valid = True\<rparr>)"
    then obtain c where c: "c \<in> copies s" "foreign (lp_mgr s j) c" and
      o: "m_obs (lp_mgr s' j) = \<lparr>o_holder = the (HolderIdentity c), o_renewTime = the (RenewTime c),
        o_at = clock s j, o_valid = True\<rparr>" by blast
    obtain r where r: "HolderIdentity c = Some (m_holder (lp_mgr s i))" "RenewTime c = Some r"
      using c(2) o h assms(1) by (auto simp: foreign_def)
    with inv(3) c(1) have "r \<le> lp_now s + lp_skew s i" by (auto simp: inv_stamps_def)
    with o r show ?thesis by (simp add: clock_def)
  qed
  then show "o_renewTime (m_obs (lp_mgr s' j)) - lp_skew s' i + lp_skew s' j \<le> o_at (m_obs (lp_mgr s' j))"
    using step_same_id(2) [OF assms(1)] by simp
qed

lemma no_old_current:
  assumes "inv_versions s" and "c \<in> copies s" and "lp_lease s' = Some (l\<lparr>lease_rv := decimal (lp_version s)\<rparr>)"
  shows "\<not> current s' c"
  using assms by (auto simp: inv_versions_def current_def decimal_inject)

lemma keep_claims:
  assumes "lp_step s s'" and "lp_inv s"
  shows "inv_claims s'"
  unfolding inv_claims_def
proof (intro allI impI)
  fix j c t i r assume a: "Take_lease c t \<in> pending s' j" and f: "foreign (lp_mgr s' j) c"
    and h: "HolderIdentity c = Some (m_holder (lp_mgr s' i))" and r: "RenewTime c = Some r"
  note inv = lp_invD [OF assms(2)]
  note same = step_same_id(1) [OF assms(1), of j]
  have f': "foreign (lp_mgr s j) c" and d: "lease_dur (lp_mgr s' j) c = lease_dur (lp_mgr s j) c"
    and h': "HolderIdentity c = Some (m_holder (lp_mgr s i))"
    using f h assms(1) by (simp_all add: same_id_foreign [OF same] same_id_dur [OF same])
  have "r - lp_skew s i + lease_dur (lp_mgr s j) c < t"
    using step_claiming [OF assms(1) a]
  proof
    assume "Take_lease c t \<in> pending s j"
    with inv(9) f' h' r show ?thesis unfolding inv_claims_def by blast
  next
    assume n: "t = lp_now s \<and> c \<in> copies s \<and> fst (claimable (lp_mgr s j) (clock s j) c) \<and> \<not> past (lp_act s' j)"
    then have "observed (lp_mgr s j) c" and late: "clock s j - o_at (m_obs (lp_mgr s j)) > lease_dur (lp_mgr s j) c"
      using f' by (simp_all add: claimable_foreign split: if_splits)
    then have "r - lp_skew s i + lp_skew s j \<le> o_at (m_obs (lp_mgr s j))"
      using inv(8) h' r by (auto simp: inv_observed_def observed_def)
    with n late show ?thesis by (simp add: clock_def)
  qed
  then show "r - lp_skew s' i + lease_dur (lp_mgr s' j) c < t" using step_same_id(2) [OF assms(1)] d by simp
qed

lemma keep_late:
  assumes "lp_step s s'" and "lp_inv s"
  shows "inv_late s'"
  unfolding inv_late_def
proof (intro allI impI)
  fix i assume p: "past (lp_act s' i)"
  note inv = lp_invD [OF assms(2)]
  have new: "lp_lease s' \<noteq> None \<and> (\<forall>c t. Take_lease c t \<in> pending s' i \<longrightarrow> \<not> current s' c)"
    if "lp_lease s' = Some (l\<lparr>lease_rv := decimal (lp_version s)\<rparr>)" "\<And>j. pending s' j \<subseteq> pending s j" for l
    using that copies_pending [of _ s i] no_old_current [OF inv(2) _ that(1)] by fastforce
  from step_kinds [OF assms(1)]
  show "lp_lease s' \<noteq> None \<and> (\<forall>c t. Take_lease c t \<in> pending s' i \<longrightarrow> \<not> current s' c)"
  proof (elim disjE exE)
    assume q: "quiet s s'"
    with step_past [OF assms(1) p] have "past (lp_act s i)" by (simp add: quiet_def)
    with inv(11) have "lp_lease s \<noteq> None" and c: "Take_lease c t \<in> pending s i \<Longrightarrow> \<not> current s c" for c t
      by (auto simp: inv_late_def)
    moreover have "current s' = current s" using q by (auto simp: quiet_def current_def fun_eq_iff)
    moreover have "Take_lease d t \<in> pending s i" if "Take_lease d t \<in> pending s' i" for d t
      using step_claiming [OF assms(1) that] p by blast
    ultimately show ?thesis using q by (auto simp: quiet_def)
  next
    fix k t l assume "stamped_by k t l s s'"
    then have "lp_lease s' = Some (l\<lparr>lease_rv := decimal (lp_version s)\<rparr>)" "\<And>j. pending s' j \<subseteq> pending s j"
      by (simp_all add: stamped_by_def)
    then show ?thesis by (rule new)
  next
    fix k l assume "cleared_by k l s s'"
    then have "lp_lease s' = Some ((clear_holder l)\<lparr>lease_rv := decimal (lp_version s)\<rparr>)"
      "\<And>j. pending s' j \<subseteq> pending s j" by (simp_all add: cleared_by_def)
    then show ?thesis by (rule new)
  qed
qed


lemma stamped_newcomer: "lp_step s s' \<Longrightarrow> stamped_by i t l s s' \<Longrightarrow> j \<noteq> i \<Longrightarrow> m_held (lp_mgr s' j) = m_held (lp_mgr s j)"
  by (simp add: stamped_by_def)

lemma later_run_out:
  assumes "lp_step s s'" and "lp_sent s' i = lp_sent s i" and "run_out s i"
  shows "run_out s' i"
  using assms(2,3) step_same_id(3) [OF assms(1)] by (simp add: run_out_def step_duration [OF assms(1)])

text \<open>The step that matters: when someone takes or renews the Lease, everyone else's window is over.\<close>

lemma stamp_ends_windows:
  assumes "lp_inv s" and st: "stamped_by i t l s s'" and "j \<noteq> i" and "m_held (lp_mgr s j)"
  shows "run_out s j"
proof (rule ccontr)
  note inv = lp_invD [OF assms(1)]
  assume "\<not> run_out s j"
  with assms(4) inv(10) obtain c r where c: "lp_lease s = Some c" "HolderIdentity c = Some (m_holder (lp_mgr s j))"
    "RenewTime c = Some r" "lp_sent s j = r - lp_skew s j" by (auto simp: inv_window_def)
  have ne: "m_holder (lp_mgr s j) \<noteq> m_holder (lp_mgr s i)" using inv(1) assms(3) by (auto simp: inv_ids_def dest: injD)
  have m: "made s i t l" using st by (simp add: stamped_by_def)
  from made_copy [OF inv(2) m] c have k: "c \<in> copies s"
    "Take_lease c t \<in> pending s i \<or> Renew_lease c t \<in> pending s i" by auto
  have "HolderIdentity c = Some (m_holder (lp_mgr s i))" if "Renew_lease c t \<in> pending s i"
    using inv(6) that unfolding inv_own_def by blast
  with k c(2) ne have a: "Take_lease c t \<in> pending s i" by auto
  have "foreign (lp_mgr s i) c" using c ne inv(1) by (auto simp: foreign_def inv_ids_def)
  with inv(9) a c have "r - lp_skew s j + lease_dur (lp_mgr s i) c < t" unfolding inv_claims_def by blast
  moreover have "lease_dur (lp_mgr s i) c = duration_secs (lp_mgr s j) * second"
    using inv(4) k(1) c(2) by (simp add: inv_durations_def lease_dur_def)
  moreover have "t \<le> lp_now s" by (rule made_time [OF inv(5) m])
  ultimately have "run_out s j" using c(4) by (simp add: run_out_def)
  with \<open>\<not> run_out s j\<close> show False ..
qed

lemma keep_window:
  assumes "lp_step s s'" and "lp_inv s"
  shows "inv_window s'"
  unfolding inv_window_def
proof (intro allI impI)
  fix j assume h: "m_held (lp_mgr s' j)"
  note inv = lp_invD [OF assms(2)] and skew = step_same_id(2) [OF assms(1)]
  show "run_out s' j \<or> (\<exists>l r. lp_lease s' = Some l \<and> HolderIdentity l = Some (m_holder (lp_mgr s' j)) \<and>
    RenewTime l = Some r \<and> lp_sent s' j = r - lp_skew s' j)"
    using step_kinds [OF assms(1)]
  proof (elim disjE exE)
    assume q: "quiet s s'"
    with step_held [OF assms(1) h] have "m_held (lp_mgr s j)" by (simp add: quiet_def)
    with inv(10) q assms(1) later_run_out [OF assms(1), of j] show ?thesis
      by (auto simp: inv_window_def quiet_def skew)
  next
    fix i t l assume st: "stamped_by i t l s s'"
    show ?thesis
    proof (cases "j = i")
      case True
      have m: "made s i t l" using st by (simp add: stamped_by_def)
      with made_fields [OF inv(2,6,4) m] True st assms(1) skew show ?thesis by (simp add: stamped_by_def)
    next
      case False
      with h st have "m_held (lp_mgr s j)" by (simp add: stamped_by_def)
      from stamp_ends_windows [OF assms(2) st False this] False st show ?thesis
        by (auto simp: stamped_by_def intro!: later_run_out [OF assms(1)])
    qed
  next
    fix i c assume cl: "cleared_by i c s s'"
    then have hs: "m_held (lp_mgr s j)" using h by (simp add: cleared_by_def)
    have p: "Clear_lease c \<in> pending s i" using cl by (simp add: cleared_by_def)
    then have "c \<in> copies s" using copies_pending [of _ s i] by fastforce
    with cl inv(2) have c: "lp_lease s = Some c" by (auto simp: cleared_by_def inv_versions_def)
    from p inv(6) have own: "HolderIdentity c = Some (m_holder (lp_mgr s i))" unfolding inv_own_def by blast
    have "j \<noteq> i" using hs inv(7) p unfolding inv_held_def by blast
    then have "m_holder (lp_mgr s j) \<noteq> m_holder (lp_mgr s i)" using inv(1) by (auto simp: inv_ids_def dest: injD)
    then have "\<not> (\<exists>l. lp_lease s = Some l \<and> HolderIdentity l = Some (m_holder (lp_mgr s j)))" using c own by simp
    with inv(10) hs have "run_out s j" unfolding inv_window_def by blast
    moreover have "lp_sent s' j = lp_sent s j" using cl by (simp add: cleared_by_def)
    ultimately have "run_out s' j" using later_run_out [OF assms(1)] by blast
    then show ?thesis ..
  qed
qed

lemma lp_inv_step: "lp_step s s' \<Longrightarrow> lp_inv s \<Longrightarrow> lp_inv s'"
  by (simp add: lp_inv_def [of s'] keep_ids keep_versions keep_stamps keep_durations keep_times keep_own keep_held
      keep_observed keep_claims keep_late keep_window lp_invD)

lemma lp_reachable_inv: "lp_reachable s \<Longrightarrow> lp_inv s"
  by (induction rule: lp_reachable.induct) (auto intro: lp_inv_start lp_inv_step)

section \<open>Mutual exclusion\<close>

text \<open>C3: However the requests of any number of managers interleave, late ones included, however far their
  clocks are apart and whoever stops for ever at any point: while a manager holds the lease within the
  duration of its last stamp that took effect, every other manager that is still marked as holding it is
  past the duration of its own last stamp, by real time, a stamp counting from the microsecond it shows.\<close>

theorem one_holder_within_the_window:
  assumes "lp_reachable s" and "m_held (lp_mgr s i)" and "m_held (lp_mgr s j)" and "i \<noteq> j"
    and "lp_now s \<le> lp_sent s i + duration_secs (lp_mgr s i) * second"
  shows "lp_sent s j + duration_secs (lp_mgr s j) * second < lp_now s"
proof -
  note inv = lp_invD [OF lp_reachable_inv [OF assms(1)]]
  have "run_out s j"
  proof (rule ccontr)
    assume "\<not> run_out s j"
    moreover have "\<not> run_out s i" using assms(5) by (simp add: run_out_def)
    ultimately obtain l l' where "lp_lease s = Some l" "HolderIdentity l = Some (m_holder (lp_mgr s i))"
      "lp_lease s = Some l'" "HolderIdentity l' = Some (m_holder (lp_mgr s j))"
      using inv(10) assms(2,3) unfolding inv_window_def by blast
    then have "m_holder (lp_mgr s i) = m_holder (lp_mgr s j)" by simp
    with inv(1) assms(4) show False by (auto simp: inv_ids_def dest: injD)
  qed
  then show ?thesis by (simp add: run_out_def)
qed

text \<open>A run: manager 0 creates the Lease and stops for ever; manager 2 sees it, waits out its 15
  seconds on its own clock, which is an hour ahead, and takes it over.\<close>

definition run_start :: proto where
  "run_start = \<lparr>lp_now = 0, lp_lease = None, lp_version = 0,
     lp_mgr = (\<lambda>i. NewLeaseManager ''ns'' ''lease'' (''pod:'' @ decimal i) (15 * second)),
     lp_act = (\<lambda>i. Resting), lp_ren = (\<lambda>i. Asleep), lp_skew = (\<lambda>i. if i = 2 then 3600 * second else 0),
     lp_late = {}, lp_sent = (\<lambda>i. 0)\<rparr>"

definition run_made :: proto where
  "run_made = set_act 0 Owning (set_mgr 0 (startRenewal (lp_mgr run_start 0))
     (stamp 0 0 (create_req (lp_mgr run_start 0) 0) (set_act 0 (Creating 0) run_start)))"

definition made_lease :: lease where
  "made_lease = (create_req (lp_mgr run_start 0) 0)\<lparr>lease_rv := decimal 0\<rparr>"

definition watcher :: manager where
  "watcher = (lp_mgr run_start 2)\<lparr>m_obs := \<lparr>o_holder = ''pod:'' @ decimal 0, o_renewTime = 0,
     o_at = 3600 * second, o_valid = True\<rparr>\<rparr>"

definition run_seen :: proto where
  "run_seen = (set_act 2 Resting (set_mgr 2 watcher run_made))\<lparr>lp_now := 16 * second\<rparr>"

definition run_taken :: proto where
  "run_taken = set_act 2 Owning (set_mgr 2 (startRenewal watcher)
     (stamp 2 (16 * second) (takeOver_req watcher (3616 * second) made_lease)
        (set_act 2 (Claiming made_lease (16 * second)) (set_mgr 2 watcher run_seen))))"


lemma run_start_ok: "lp_start run_start"
  by (auto simp: lp_start_def run_start_def NewLeaseManager_def inj_def decimal_inject)

lemma run_start_fields [simp]:
  "lp_lease run_start = None" "lp_act run_start i = Resting" "lp_now run_start = 0" "lp_version run_start = 0"
  "lp_late run_start = {}" "lp_skew run_start i = (if i = 2 then 3600 * second else 0)"
  by (simp_all add: run_start_def)

lemma run_mgr: "lp_mgr run_start i = NewLeaseManager ''ns'' ''lease'' (''pod:'' @ decimal i) (15 * second)"
  by (simp add: run_start_def)

lemma run_mgr_held [simp]: "m_held (lp_mgr run_start i) = False"
  by (simp add: run_mgr NewLeaseManager_def)

lemma set_act_again [simp]: "set_act i a (set_act i b s) = set_act i a s"
  "set_act i a (set_mgr j m (set_act i b s)) = set_act i a (set_mgr j m s)"
  by (simp_all add: set_act_def set_mgr_def)

lemma lp_next: "lp_step\<^sup>*\<^sup>* r s \<Longrightarrow> lp_step s s' \<Longrightarrow> s' = s'' \<Longrightarrow> lp_step\<^sup>*\<^sup>* r s''"
  by (auto intro: rtranclp.rtrancl_into_rtrancl)

lemma lp_reachable_steps: "lp_step\<^sup>*\<^sup>* s s' \<Longrightarrow> lp_reachable s \<Longrightarrow> lp_reachable s'"
  by (induction rule: rtranclp_induct) (auto intro: lp_reachable.step)

lemma run_made_fields [simp]:
  "lp_lease run_made = Some made_lease" "lp_act run_made 2 = Resting" "lp_mgr run_made 2 = lp_mgr run_start 2"
  "lp_now run_made = 0" "lp_skew run_made 2 = 3600 * second" "lp_act run_made 0 = Owning"
  "lp_version run_made = 1"
  "lp_mgr run_made 0 = startRenewal (lp_mgr run_start 0)"
  by (simp_all add: run_made_def made_lease_def run_mgr NewLeaseManager_def)

lemma run_made_steps: "lp_step\<^sup>*\<^sup>* run_start run_made"
proof -
  have "lp_step\<^sup>*\<^sup>* run_start (set_act 0 (Fetched None) run_start)"
    by (rule lp_next [OF rtranclp.rtrancl_refl lp_step.fetch [where i = 0]]) simp_all
  then have "lp_step\<^sup>*\<^sup>* run_start (set_act 0 (Creating 0) run_start)"
    by (rule lp_next [OF _ lp_step.absent [where i = 0]]) simp_all
  then show ?thesis
    by (rule lp_next [OF _ lp_step.created [where i = 0 and t = 0]]) (simp_all add: run_made_def)
qed

lemma made_lease_foreign: "foreign (lp_mgr run_start 2) made_lease" "foreign watcher made_lease"
  by (simp_all add: foreign_def made_lease_def create_req_def watcher_def run_mgr NewLeaseManager_def decimal_inject)

lemma first_look: "claimable (lp_mgr run_start 2) (3600 * second) made_lease = (False, watcher)"
  using made_lease_foreign(1)
  by (simp add: claimable_foreign observed_def watcher_def made_lease_def create_req_def run_mgr NewLeaseManager_def)

lemma second_look: "claimable watcher (3616 * second) made_lease = (True, watcher)"
  using made_lease_foreign(2)
  by (simp add: claimable_foreign observed_def watcher_def made_lease_def create_req_def run_mgr NewLeaseManager_def
      lease_dur_def duration_secs_def second_def wrap32_def)

lemma run_seen_steps: "lp_step\<^sup>*\<^sup>* run_made run_seen"
proof -
  have "lp_step\<^sup>*\<^sup>* run_made (set_act 2 (Fetched (Some made_lease)) run_made)"
    by (rule lp_next [OF rtranclp.rtrancl_refl lp_step.fetch [where i = 2]]) simp_all
  then have "lp_step\<^sup>*\<^sup>* run_made (set_act 2 Resting (set_mgr 2 watcher run_made))"
    by (rule lp_next [OF _ lp_step.wait [where i = 2 and l = made_lease and m = watcher]])
      (simp_all add: clock_def first_look)
  then show ?thesis
    by (rule lp_next [OF _ lp_step.tick [where d = "16 * second"]]) (simp_all add: run_seen_def second_def)
qed

lemma run_seen_fields [simp]:
  "lp_lease run_seen = Some made_lease" "lp_act run_seen 2 = Resting" "lp_mgr run_seen 2 = watcher"
  "lp_now run_seen = 16 * second" "lp_skew run_seen 2 = 3600 * second"
  "lp_mgr run_seen 0 = startRenewal (lp_mgr run_start 0)"
  "lp_version run_seen = 1"
  by (simp_all add: run_seen_def)

lemma watcher_fields [simp]: "m_held watcher = False" "m_holder watcher = ''pod:'' @ decimal 2"
  by (simp_all add: watcher_def run_mgr NewLeaseManager_def)

lemma run_taken_steps: "lp_step\<^sup>*\<^sup>* run_seen run_taken"
proof -
  have "lp_step\<^sup>*\<^sup>* run_seen (set_act 2 (Fetched (Some made_lease)) run_seen)"
    by (rule lp_next [OF rtranclp.rtrancl_refl lp_step.fetch [where i = 2]]) simp_all
  then have "lp_step\<^sup>*\<^sup>* run_seen (set_act 2 (Claiming made_lease (16 * second)) (set_mgr 2 watcher run_seen))"
    by (rule lp_next [OF _ lp_step.claim [where i = 2 and l = made_lease and m = watcher]])
      (simp_all add: clock_def second_look)
  then show ?thesis
    by (rule lp_next [OF _ lp_step.taken [where i = 2 and l = made_lease and t = "16 * second"]])
      (simp_all add: run_taken_def current_def decimal_inject)
qed

lemma run_taken_reachable: "lp_reachable run_taken"
  by (rule lp_reachable_steps [OF _ lp_reachable.start [OF run_start_ok]])
    (rule rtranclp_trans [OF run_made_steps rtranclp_trans [OF run_seen_steps run_taken_steps]])

lemma run_taken_fields:
  "lp_mgr run_taken 0 = startRenewal (lp_mgr run_start 0)" "lp_mgr run_taken 2 = startRenewal watcher"
  "lp_now run_taken = 16 * second" "lp_sent run_taken 2 = 16 * second" "lp_sent run_taken 0 = 0"
  by (simp_all add: run_taken_def run_seen_def run_made_def run_start_def)

lemma run_duration: "duration_secs (startRenewal (lp_mgr run_start 0)) = 15" "duration_secs (startRenewal watcher) = 15"
  by (simp_all add: startRenewal_def duration_secs_def watcher_def run_mgr NewLeaseManager_def second_def wrap32_def)

theorem one_holder_within_the_window_witness:
  "lp_sent run_taken 0 + duration_secs (lp_mgr run_taken 0) * second < lp_now run_taken"
  by (rule one_holder_within_the_window [where i = 2, OF run_taken_reachable])
    (simp_all only: run_taken_fields run_duration, simp_all add: startRenewal_def second_def)

text \<open>The fence is the success of the last renewal, not its age: in that run the manager that
  stopped, whose lease has been taken over, still passes the fence of \<open>Commit\<close>, beside the new
  holder. A renewal that hangs, its context having no deadline, has the same effect.\<close>

theorem stalled_holder_passes_the_fence:
  "\<exists>s. lp_reachable s \<and> Healthy (lp_mgr s 0) \<and> Healthy (lp_mgr s 2) \<and>
     lp_sent s 0 + duration_secs (lp_mgr s 0) * second < lp_now s \<and>
     (\<exists>l. lp_lease s = Some l \<and> HolderIdentity l = Some (m_holder (lp_mgr s 2)) \<and>
        m_holder (lp_mgr s 2) \<noteq> m_holder (lp_mgr s 0))"
proof (intro exI conjI)
  show "lp_reachable run_taken" by (rule run_taken_reachable)
  show "Healthy (lp_mgr run_taken 0)" "Healthy (lp_mgr run_taken 2)"
    by (simp_all add: run_taken_fields Healthy_def startRenewal_def)
  show "lp_sent run_taken 0 + duration_secs (lp_mgr run_taken 0) * second < lp_now run_taken"
    by (simp add: run_taken_fields run_duration second_def)
  show "lp_lease run_taken = Some ((takeOver_req watcher (3616 * second) made_lease)\<lparr>lease_rv := decimal 1\<rparr>)"
    by (simp add: run_taken_def)
  show "HolderIdentity ((takeOver_req watcher (3616 * second) made_lease)\<lparr>lease_rv := decimal 1\<rparr>) =
      Some (m_holder (lp_mgr run_taken 2))"
    by (simp add: takeOver_req_def run_taken_fields startRenewal_def)
  show "m_holder (lp_mgr run_taken 2) \<noteq> m_holder (lp_mgr run_taken 0)"
    by (simp add: run_taken_fields startRenewal_def run_mgr NewLeaseManager_def decimal_inject)
qed

end
