(* ===== verification/LeaseRuns.thy ===== *)
theory LeaseRuns
  imports LeaseProtocol
begin

text \<open>
  The functions of \<open>Leases\<close> are runs of the protocol: on the protocol's server, an attempt, a renewal and
  a release that nobody disturbs go through the steps of \<open>lp_step\<close> and end where the functions say. So
  the step relation has every behaviour of the code, and its interleavings are those of the code's own
  requests.
\<close>

text \<open>The protocol's state as the API server that manager \<open>i\<close> talks to.\<close>

definition proto_kube :: "nat \<Rightarrow> proto kube" where
  "proto_kube i =
     \<lparr>api_now = (\<lambda>s. clock s i), ctx_err = (\<lambda>s. False), timer_or_done = (\<lambda>d s. (True, s)),
      get_secret = (\<lambda>ns n s. (Inl Forbidden, s)), patch_secret = (\<lambda>ns n p s. (Inl Forbidden, s)),
      watch_secret = (\<lambda>ns n rv s. (Inl Forbidden, s)),
      get_configmap = (\<lambda>ns n s. (Inl Forbidden, s)), patch_configmap = (\<lambda>ns n p s. (Inl Forbidden, s)),
      watch_configmap = (\<lambda>ns n rv s. (Inl Forbidden, s)), watch_next = (\<lambda>s. (CtxDone, s)),
      get_lease = (\<lambda>ns n s. (case lp_lease s of None \<Rightarrow> Inl NotFound | Some l \<Rightarrow> Inr l, s)),
      create_lease = (\<lambda>ns n l s. if lp_lease s \<noteq> None then (Inl AlreadyExists, s)
        else (Inr (), stamp i (lp_now s) l s)),
      update_lease = (\<lambda>ns n l s. if \<not> current s l then (Inl (if lp_lease s = None then NotFound else Conflict), s)
        else (Inr (), if HolderIdentity l = None then put_lease l s else stamp i (lp_now s) l s))\<rparr>"

lemma proto_kube_sel [simp]:
  "api_now (proto_kube i) s = clock s i"
  "get_lease (proto_kube i) ns n s = (case lp_lease s of None \<Rightarrow> Inl NotFound | Some l \<Rightarrow> Inr l, s)"
  "create_lease (proto_kube i) ns n l s =
     (if lp_lease s \<noteq> None then (Inl AlreadyExists, s) else (Inr (), stamp i (lp_now s) l s))"
  "update_lease (proto_kube i) ns n l s =
     (if \<not> current s l then (Inl (if lp_lease s = None then NotFound else Conflict), s)
      else (Inr (), if HolderIdentity l = None then put_lease l s else stamp i (lp_now s) l s))"
  by (simp_all add: proto_kube_def)

text \<open>Only the manager's own fields are set on the way, so their order does not matter.\<close>

lemma set_commute:
  "set_mgr i m (set_act i a s) = set_act i a (set_mgr i m s)"
  "set_mgr i m (set_ren i r s) = set_ren i r (set_mgr i m s)"
  "set_act i a (set_act i b s) = set_act i a s" "set_mgr i m (set_mgr i n s) = set_mgr i m s"
  "set_ren i q (set_ren i r s) = set_ren i q s"
  "stamp i t l (set_act i a s) = set_act i a (stamp i t l s)" "stamp i t l (set_ren i r s) = set_ren i r (stamp i t l s)"
  "put_lease l (set_act i a s) = set_act i a (put_lease l s)" "put_lease l (set_mgr i m s) = set_mgr i m (put_lease l s)"
  "m_holder m = m_holder (lp_mgr s i) \<Longrightarrow> stamp i t l (set_mgr i m s) = set_mgr i m (stamp i t l s)"
  by (simp_all add: set_mgr_def set_act_def set_ren_def stamp_def put_lease_def)

lemma set_same: "lp_act s i = a \<Longrightarrow> set_act i a s = s" "lp_ren s i = r \<Longrightarrow> set_ren i r s = s"
  "lp_mgr s i = m \<Longrightarrow> set_mgr i m s = s"
  by (auto simp: set_mgr_def set_act_def set_ren_def)

lemma one_more: "lp_step\<^sup>*\<^sup>* s s1 \<Longrightarrow> lp_step s1 s2 \<Longrightarrow> s2 = s3 \<Longrightarrow> lp_step\<^sup>*\<^sup>* s s3"
  by (auto intro: rtranclp.rtrancl_into_rtrancl)

lemma TryAcquire_run:
  assumes "lp_act s i = Resting" "\<not> m_held (lp_mgr s i)"
    and "TryAcquire (proto_kube i) None (lp_mgr s i) s = (r, m', s')"
  shows "lp_step\<^sup>*\<^sup>* s (set_act i (if r = Inr True then Owning else Resting) (set_mgr i m' s'))"
proof -
  have f: "lp_step\<^sup>*\<^sup>* s (set_act i (Fetched (lp_lease s)) s)"
    by (rule one_more [OF rtranclp.rtrancl_refl lp_step.fetch [OF assms(1,2)]]) simp
  show ?thesis
  proof (cases "lp_lease s")
    case None
    from f None have "lp_step\<^sup>*\<^sup>* s (set_act i (Creating (lp_now s)) s)"
      by (intro one_more [OF f lp_step.absent [where i = i]]) (simp_all add: set_commute)
    then have "lp_step\<^sup>*\<^sup>* s (set_act i Owning (set_mgr i (startRenewal (lp_mgr s i))
        (stamp i (lp_now s) (create_req (lp_mgr s i) (clock s i)) s)))"
      by (rule one_more [OF _ lp_step.created [where i = i and t = "lp_now s"]])
        (use None in \<open>simp_all add: set_commute clock_def\<close>)
    with assms(2,3) None show ?thesis
      by (auto simp: TryAcquire_def lease_create_def)
  next
    case (Some l)
    obtain ok m where c: "claimable (lp_mgr s i) (clock s i) l = (ok, m)" by fastforce
    have h: "m_holder m = m_holder (lp_mgr s i)" using claimable_fields(1) [of "lp_mgr s i" "clock s i" l] c by simp
    show ?thesis
    proof (cases ok)
      case False
      from f Some have "lp_step\<^sup>*\<^sup>* s (set_act i Resting (set_mgr i m s))"
        by (intro one_more [OF f lp_step.wait [where i = i and l = l and m = m]])
          (use c False in \<open>simp_all add: set_commute clock_def\<close>)
      with assms(2,3) Some c False show ?thesis by (auto simp: TryAcquire_def)
    next
      case True
      have cur: "current s (takeOver_req m (clock s i) l)" "current s l"
        using Some by (simp_all add: current_def takeOver_req_def)
      from f Some have "lp_step\<^sup>*\<^sup>* s (set_act i (Claiming l (lp_now s)) (set_mgr i m s))"
        by (intro one_more [OF f lp_step.claim [where i = i and l = l and m = m]])
          (use c True in \<open>simp_all add: set_commute clock_def\<close>)
      then have "lp_step\<^sup>*\<^sup>* s (set_act i Owning (set_mgr i (startRenewal m)
          (stamp i (lp_now s) (takeOver_req m (clock s i) l) s)))"
        by (rule one_more [OF _ lp_step.taken [where i = i and l = l and t = "lp_now s"]])
          (use h cur in \<open>simp_all add: set_commute clock_def\<close>)
      with assms(2,3) Some c True cur show ?thesis
        by (auto simp: TryAcquire_def takeOver_def takeOver_req_def)
    qed
  qed
qed

lemma renew_run:
  assumes "m_renewing (lp_mgr s i)" "lp_ren s i = Asleep"
    and "renew_tick (proto_kube i) (lp_mgr s i) s = (m', s')"
  shows "lp_step\<^sup>*\<^sup>* s (set_mgr i m' s')"
proof (cases "lp_lease s")
  case None
  with assms(3) have "m' = renewed (lp_mgr s i) False" "s' = s"
    by (auto simp: renew_tick_def renewOnce_def renewed_def)
  with one_more [OF rtranclp.rtrancl_refl lp_step.wake_fails [OF assms(1,2)] refl] show ?thesis by simp
next
  case (Some l)
  have w: "lp_step\<^sup>*\<^sup>* s (set_ren i (Fetched_own l) s)"
    by (rule one_more [OF rtranclp.rtrancl_refl lp_step.wake [OF assms(1,2) Some]]) simp
  show ?thesis
  proof (cases "HolderIdentity l = Some (m_holder (lp_mgr s i))")
    case False
    with Some assms(3) have "m' = renewed (lp_mgr s i) False" "s' = s"
      by (auto simp: renew_tick_def renewOnce_def renewed_def)
    then show ?thesis
      by (intro one_more [OF w lp_step.lost [where i = i and l = l]])
        (use False assms(2) in \<open>simp_all add: set_commute set_same\<close>)
  next
    case True
    let ?l = "l\<lparr>RenewTime := Some (MicroTime (clock s i))\<rparr>"
    have c: "current s ?l" "current s l" using Some by (simp_all add: current_def)
    have r: "m' = renewed (lp_mgr s i) True" "s' = stamp i (lp_now s) ?l s"
      using True Some c assms(3) by (auto simp: renew_tick_def renewOnce_def renewed_def)
    from w have "lp_step\<^sup>*\<^sup>* s (set_ren i (Renewing l (lp_now s)) s)"
      by (rule one_more [OF _ lp_step.still_own [where i = i and l = l]])
        (use True in \<open>simp_all add: set_commute\<close>)
    then show ?thesis
      by (rule one_more [OF _ lp_step.renew [where i = i and l = l and t = "lp_now s"]])
        (use c assms(2) in \<open>simp_all add: set_commute set_same clock_def r\<close>)
  qed
qed

lemma Release_run:
  assumes "m_held (lp_mgr s i)" "lp_act s i = Owning"
    and "lease_Release (proto_kube i) (lp_mgr s i) s = (r, m', s')"
  shows "lp_step\<^sup>*\<^sup>* s (set_act i Gone (set_mgr i m' s'))"
proof -
  have g: "lp_step\<^sup>*\<^sup>* s (set_act i Giving_up (set_mgr i (let_go (lp_mgr s i)) s))"
    by (rule one_more [OF rtranclp.rtrancl_refl lp_step.give_up [OF assms(2)]]) simp
  have m': "m' = let_go (lp_mgr s i)"
    using assms(1,3) by (auto simp: lease_Release_def let_go_def Let_def split: sum.splits prod.splits if_splits)
  show ?thesis
  proof (cases "\<exists>l. lp_lease s = Some l \<and> HolderIdentity l = Some (m_holder (lp_mgr s i))")
    case False
    with assms(1,3) have "s' = s" by (auto simp: lease_Release_def Let_def split: option.splits if_splits)
    with m' show ?thesis
      by (intro one_more [OF g lp_step.nothing_to_clear [where i = i]]) (simp_all add: set_commute)
  next
    case True
    then obtain l where l: "lp_lease s = Some l" "HolderIdentity l = Some (m_holder (lp_mgr s i))" by blast
    have c: "current s (clear_holder l)" "current s l" using l by (simp_all add: current_def clear_holder_def)
    with l assms(1,3) have s': "s' = put_lease (clear_holder l) s" by (auto simp: lease_Release_def Let_def)
    have "m_holder (let_go (lp_mgr s i)) = m_holder (lp_mgr s i)" by (simp add: let_go_def)
    with l have "lp_step\<^sup>*\<^sup>* s (set_act i (Clearing l) (set_mgr i (let_go (lp_mgr s i)) s))"
      by (intro one_more [OF g lp_step.fetch_own [where i = i and l = l]]) (simp_all add: set_commute)
    then show ?thesis
      by (rule one_more [OF _ lp_step.cleared [where i = i and l = l]]) (use c in \<open>simp_all add: set_commute m' s'\<close>)
  qed
qed

text \<open>C18: an attempt, a renewal and a release as the code makes them are runs of the protocol's steps: from
  a state where the manager is at the point where it calls the function, undisturbed steps lead to the
  state that the function computes, with the manager and the reply that it computes.\<close>

theorem operations_are_runs:
  "(lp_act s i = Resting \<and> \<not> m_held (lp_mgr s i) \<longrightarrow>
      TryAcquire (proto_kube i) None (lp_mgr s i) s = (r1, m1, s1) \<longrightarrow>
      lp_step\<^sup>*\<^sup>* s (set_act i (if r1 = Inr True then Owning else Resting) (set_mgr i m1 s1))) \<and>
    (m_renewing (lp_mgr s i) \<and> lp_ren s i = Asleep \<longrightarrow>
      renew_tick (proto_kube i) (lp_mgr s i) s = (m2, s2) \<longrightarrow> lp_step\<^sup>*\<^sup>* s (set_mgr i m2 s2)) \<and>
    (m_held (lp_mgr s i) \<and> lp_act s i = Owning \<longrightarrow>
      lease_Release (proto_kube i) (lp_mgr s i) s = (r3, m3, s3) \<longrightarrow> lp_step\<^sup>*\<^sup>* s (set_act i Gone (set_mgr i m3 s3)))"
  using TryAcquire_run [of s i] renew_run [of s i] Release_run [of s i] by blast

theorem operations_are_runs_witness:
  "\<exists>m1 s1. TryAcquire (proto_kube 0) None (lp_mgr run_start 0) run_start = (Inr True, m1, s1) \<and>
    lp_step\<^sup>*\<^sup>* run_start (set_act 0 Owning (set_mgr 0 m1 s1))"
proof -
  obtain m1 s1 where t: "TryAcquire (proto_kube 0) None (lp_mgr run_start 0) run_start = (Inr True, m1, s1)"
    by (simp add: TryAcquire_def lease_create_def)
  with operations_are_runs [of run_start 0 "Inr True" m1 s1] show ?thesis by auto
qed

end
