(* ===== verification/Buffers.thy ===== *)
theory Buffers
  imports Nodes
begin

text \<open>
  The buffers of \<open>handle.go\<close> and \<open>snapshot.go\<close> as what they are, slices of shared arrays: \<open>Read\<close> hands a
  part of the handle's array to the FUSE server, which reads it after the call has returned, while other
  calls on the handle go on; snapshots are shared by the cache, the handles and their successors. The
  functions here are those of \<open>Handles\<close> and \<open>Snapshots\<close> once more, on an explicit heap of arrays. They are
  shown to refine the ones on values, and under any interleaving nothing that was handed out changes.
\<close>

unbundle bit_operations_syntax

section \<open>Arrays and slices\<close>

record heap =
  cells :: "nat \<Rightarrow> bytes"
  brk :: nat

record part =
  p_array :: nat
  p_off :: nat
  p_len :: nat

text \<open>A \<open>[]byte\<close>: nil, or a part of an array.\<close>

type_synonym ref = "part option"

definition view_part :: "heap \<Rightarrow> part \<Rightarrow> bytes" where
  "view_part hp s = take (p_len s) (drop (p_off s) (cells hp (p_array s)))"

definition view :: "heap \<Rightarrow> ref \<Rightarrow> bytes" where
  "view hp s = (case s of None \<Rightarrow> [] | Some p \<Rightarrow> view_part hp p)"

definition ref_len :: "ref \<Rightarrow> nat" where
  "ref_len s = (case s of None \<Rightarrow> 0 | Some p \<Rightarrow> p_len p)"

text \<open>\<open>make([]byte, n)\<close>, \<open>s[i:j]\<close>, and \<open>copy(dst, src)\<close>, which writes into the array of \<open>dst\<close>.\<close>

definition alloc :: "bytes \<Rightarrow> heap \<Rightarrow> part \<times> heap" where
  "alloc b hp = (\<lparr>p_array = brk hp, p_off = 0, p_len = length b\<rparr>,
     hp\<lparr>cells := (cells hp)(brk hp := b), brk := Suc (brk hp)\<rparr>)"

definition make_part :: "int \<Rightarrow> heap \<Rightarrow> (part \<times> heap) option" where
  "make_part n hp = map_option (\<lambda>b. alloc b hp) (make_bytes n)"

definition reslice :: "part \<Rightarrow> nat \<Rightarrow> nat \<Rightarrow> part" where
  "reslice p i j = p\<lparr>p_off := p_off p + i, p_len := j - i\<rparr>"

definition copy_into :: "part \<Rightarrow> bytes \<Rightarrow> heap \<Rightarrow> heap" where
  "copy_into dst src hp =
     (let c = cells hp (p_array dst) in
      hp\<lparr>cells := (cells hp)(p_array dst := take (p_off dst) c @ copy_bytes (view_part hp dst) src
        @ drop (p_off dst + p_len dst) c)\<rparr>)"

text \<open>\<open>out := make([]byte, len(v)); copy(out, v)\<close>.\<close>

definition clone :: "ref \<Rightarrow> heap \<Rightarrow> (part \<times> heap) option" where
  "clone v hp = map_option (\<lambda>(out, hp1). (out, copy_into out (view hp1 v) hp1)) (make_part (int (ref_len v)) hp)"

section \<open>Snapshots and handles on the heap\<close>

record rsnapshot =
  rs_Data :: "(string, ref) fmap"
  rs_ResourceVersion :: string
  rs_FetchedAt :: time

record rhandle =
  rh_key :: string
  rh_snap :: "rsnapshot option"
  rh_buf :: ref
  rh_dirty :: bool
  rh_lease :: "manager option"

definition ref_Get :: "rsnapshot \<Rightarrow> string \<Rightarrow> heap \<Rightarrow> (part option \<times> heap) option" where
  "ref_Get s key hp =
     (case fmlookup (rs_Data s) key of
        None \<Rightarrow> Some (None, hp)
      | Some v \<Rightarrow> map_option (\<lambda>(out, hp1). (Some out, hp1)) (clone v hp))"

text \<open>The new map shares the arrays of the old one and of the values that are set.\<close>

definition ref_With :: "rsnapshot \<Rightarrow> (string, ref) fmap \<Rightarrow> string list \<Rightarrow> rsnapshot" where
  "ref_With s puts del =
     \<lparr>rs_Data = fold fmdrop del (fmadd (rs_Data s) puts), rs_ResourceVersion = '''', rs_FetchedAt = rs_FetchedAt s\<rparr>"

definition ref_newHandle :: "string \<Rightarrow> rsnapshot option \<Rightarrow> ref \<Rightarrow> rhandle" where
  "ref_newHandle key snap v =
     \<lparr>rh_key = key, rh_snap = snap, rh_buf = v, rh_dirty = False, rh_lease = None\<rparr>"

text \<open>\<open>Read\<close> returns a part of the buffer itself.\<close>

definition ref_Read :: "rhandle \<Rightarrow> nat \<Rightarrow> int \<Rightarrow> ref" where
  "ref_Read h n off =
     (case rh_buf h of
        None \<Rightarrow> None
      | Some p \<Rightarrow>
          if off < 0 \<or> off \<ge> int (p_len p) then None
          else let e = off + int n;
                   e' = (if e > int (p_len p) then int (p_len p) else e)
               in Some (reslice p (nat off) (nat e')))"

definition ref_Write :: "rhandle \<Rightarrow> bytes \<Rightarrow> int \<Rightarrow> heap \<Rightarrow> (rhandle \<times> 32 word \<times> errno \<times> heap) option" where
  "ref_Write h data off hp =
     (if off < 0 then Some (h, 0, EINVAL, hp)
      else let e = wrap64 (off + int (length data));
               sz = (if e > int (ref_len (rh_buf h)) then e else int (ref_len (rh_buf h)))
           in case make_part sz hp of
             None \<Rightarrow> None
           | Some (next, hp1) \<Rightarrow>
               (let hp2 = copy_into next (view hp1 (rh_buf h)) hp1
                in if off > sz then None
                   else Some (h\<lparr>rh_buf := Some next, rh_dirty := True\<rparr>, of_nat (length data), OK,
                     copy_into (reslice next (nat off) (p_len next)) data hp2)))"

definition ref_truncate :: "rhandle \<Rightarrow> 64 word \<Rightarrow> heap \<Rightarrow> (rhandle \<times> heap) option" where
  "ref_truncate h sz hp =
     (if wrap64 (uint sz) = int (ref_len (rh_buf h)) then Some (h, hp)
      else case make_part (uint sz) hp of
        None \<Rightarrow> None
      | Some (next, hp1) \<Rightarrow>
          Some (h\<lparr>rh_buf := Some next, rh_dirty := True\<rparr>, copy_into next (view hp1 (rh_buf h)) hp1))"

text \<open>The first critical section of \<open>commit\<close>: the value is a copy.\<close>

definition ref_commit_begin :: "rhandle \<Rightarrow> heap \<Rightarrow> ((part \<times> manager option) option \<times> heap) option" where
  "ref_commit_begin h hp =
     (if \<not> rh_dirty h then Some (None, hp)
      else map_option (\<lambda>(v, hp1). (Some (v, rh_lease h), hp1)) (clone (rh_buf h) hp))"

definition ref_commit_end :: "rhandle \<Rightarrow> rhandle" where
  "ref_commit_end h = h\<lparr>rh_dirty := False\<rparr>"

definition ref_pin_fresh :: "rhandle \<Rightarrow> manager \<Rightarrow> rsnapshot \<Rightarrow> heap \<Rightarrow> (rhandle \<times> heap) option" where
  "ref_pin_fresh h lease snap hp =
     (let h1 = h\<lparr>rh_lease := Some lease\<rparr> in
      if rh_dirty h then Some (h1, hp)
      else map_option (\<lambda>(v, hp1). (h1\<lparr>rh_snap := Some snap, rh_buf := v\<rparr>, hp1)) (ref_Get snap (rh_key h) hp))"

text \<open>\<open>Open\<close> with the snapshot that \<open>MaybeFresh\<close> gave.\<close>

definition ref_Open :: "rsnapshot \<Rightarrow> string \<Rightarrow> 32 word \<Rightarrow> heap \<Rightarrow> (rhandle option \<times> heap) option" where
  "ref_Open snap key flags hp =
     map_option (\<lambda>(v, hp1).
       ((case v of
           None \<Rightarrow> None
         | Some p \<Rightarrow>
             if flags AND O_TRUNC \<noteq> 0 then Some ((ref_newHandle key (Some snap) None)\<lparr>rh_dirty := True\<rparr>)
             else Some (ref_newHandle key (Some snap) (Some p))), hp1)) (ref_Get snap key hp)"

section \<open>Growing heaps\<close>

text \<open>The discipline: an operation writes only into arrays it has just made.\<close>

definition grows :: "heap \<Rightarrow> heap \<Rightarrow> bool" where
  "grows hp hp' \<longleftrightarrow> brk hp \<le> brk hp' \<and> (\<forall>a < brk hp. cells hp' a = cells hp a)"

definition part_ok :: "heap \<Rightarrow> part \<Rightarrow> bool" where
  "part_ok hp p \<longleftrightarrow> p_array p < brk hp \<and> p_off p + p_len p \<le> length (cells hp (p_array p))"

definition ref_ok :: "heap \<Rightarrow> ref \<Rightarrow> bool" where
  "ref_ok hp s \<longleftrightarrow> (\<forall>p. s = Some p \<longrightarrow> part_ok hp p)"

lemma grows_refl [simp]: "grows hp hp"
  by (simp add: grows_def)

lemma grows_trans: "grows hp1 hp2 \<Longrightarrow> grows hp2 hp3 \<Longrightarrow> grows hp1 hp3"
  by (auto simp: grows_def)

lemma part_ok_grows: "part_ok hp p \<Longrightarrow> grows hp hp' \<Longrightarrow> part_ok hp' p \<and> view_part hp' p = view_part hp p"
  by (simp add: part_ok_def grows_def view_part_def)

lemma ref_ok_simps [simp]: "ref_ok hp None" "ref_ok hp (Some p) = part_ok hp p"
  by (simp_all add: ref_ok_def)

lemma view_simps [simp]: "view hp None = []" "view hp (Some p) = view_part hp p"
  by (simp_all add: view_def)

lemma ref_ok_grows: "ref_ok hp s \<Longrightarrow> grows hp hp' \<Longrightarrow> ref_ok hp' s"
  and view_grows: "ref_ok hp s \<Longrightarrow> grows hp hp' \<Longrightarrow> view hp' s = view hp s"
  using part_ok_grows [of hp _ hp'] by (cases s; simp)+

lemma length_view: "ref_ok hp s \<Longrightarrow> length (view hp s) = ref_len s"
  by (cases s) (auto simp: view_part_def part_ok_def ref_len_def)

lemma alloc_result:
  assumes "alloc b hp = (p, hp')"
  shows "grows hp hp'" "part_ok hp' p" "view_part hp' p = b" "p_array p = brk hp" "p_off p = 0" "p_len p = length b"
    "length (cells hp' (p_array p)) = length b" "brk hp < brk hp'"
  using assms by (auto simp: alloc_def grows_def part_ok_def view_part_def)

text \<open>Copying into a part whose array is new.\<close>

lemma copy_into_result:
  assumes "part_ok hp dst" and "brk hp0 \<le> p_array dst" and "grows hp0 hp"
  shows "grows hp0 (copy_into dst src hp)" "view_part (copy_into dst src hp) dst = copy_bytes (view_part hp dst) src"
    "\<And>p. part_ok hp p \<Longrightarrow> part_ok (copy_into dst src hp) p"
proof -
  have len: "length (copy_bytes (view_part hp dst) src) = p_len dst"
    using assms(1) by (auto simp: part_ok_def view_part_def)
  show "grows hp0 (copy_into dst src hp)"
    using assms(2,3) by (auto simp: grows_def copy_into_def Let_def)
  show "view_part (copy_into dst src hp) dst = copy_bytes (view_part hp dst) src"
    using assms(1) len unfolding view_part_def [of "copy_into dst src hp"]
    by (simp add: copy_into_def Let_def part_ok_def)
  show "part_ok (copy_into dst src hp) p" if "part_ok hp p" for p
    using that assms(1) len by (auto simp: copy_into_def Let_def part_ok_def)
qed


lemma make_bytes_length: "make_bytes n = Some b \<Longrightarrow> int (length b) = n"
  by (auto simp: make_bytes_def split: if_splits)

lemma make_part_result:
  assumes "make_part n hp = Some (p, hp')"
  shows "grows hp hp'" "part_ok hp' p" "p_array p = brk hp" "p_off p = 0" "make_bytes n = Some (view_part hp' p)"
    "int (p_len p) = n" "length (cells hp' (p_array p)) = p_len p"
proof -
  obtain b where b: "make_bytes n = Some b" "alloc b hp = (p, hp')"
    using assms by (auto simp: make_part_def)
  from alloc_result [OF b(2)] b(1) make_bytes_length [OF b(1)] show "grows hp hp'" "part_ok hp' p" "p_array p = brk hp" "p_off p = 0"
    "make_bytes n = Some (view_part hp' p)" "int (p_len p) = n" "length (cells hp' (p_array p)) = p_len p"
    by auto
qed

lemma make_part_None: "make_part n hp = None \<longleftrightarrow> make_bytes n = None"
  by (simp add: make_part_def)

text \<open>A fresh array filled from a slice.\<close>

lemma fill_result:
  assumes "make_part n hp = Some (p, hp1)" and "ref_ok hp v"
  shows "grows hp (copy_into p (view hp1 v) hp1)" "part_ok (copy_into p (view hp1 v) hp1) p"
    "make_bytes n = Some (view_part hp1 p)"
    "view_part (copy_into p (view hp1 v) hp1) p = copy_bytes (view_part hp1 p) (view hp v)"
    "p_array p = brk hp" "length (view_part hp1 p) = p_len p"
proof -
  note m = make_part_result [OF assms(1)]
  have v: "view hp1 v = view hp v" by (rule view_grows [OF assms(2) m(1)])
  note c = copy_into_result [OF m(2) _ m(1), where src = "view hp1 v"]
  show "grows hp (copy_into p (view hp1 v) hp1)" "part_ok (copy_into p (view hp1 v) hp1) p"
    "make_bytes n = Some (view_part hp1 p)" "p_array p = brk hp"
    using m c by auto
  show "view_part (copy_into p (view hp1 v) hp1) p = copy_bytes (view_part hp1 p) (view hp v)"
    using m c by (simp add: v)
  show "length (view_part hp1 p) = p_len p"
    using length_view [of hp1 "Some p"] m(2) by (simp add: ref_len_def)
qed

lemma clone_result:
  assumes "clone v hp = Some (out, hp')" and "ref_ok hp v"
  shows "grows hp hp'" "part_ok hp' out" "view_part hp' out = view hp v"
proof -
  obtain hp1 where m: "make_part (int (ref_len v)) hp = Some (out, hp1)" "hp' = copy_into out (view hp1 v) hp1"
    using assms(1) by (auto simp: clone_def)
  note f = fill_result [OF m(1) assms(2)]
  have "length (view_part hp1 out) = length (view hp v)"
    using make_bytes_length [OF f(3)] length_view [OF assms(2)] by simp
  with f m show "grows hp hp'" "part_ok hp' out" "view_part hp' out = view hp v" by simp_all
qed

section \<open>Refinement of the operations on values\<close>

definition abs_snap :: "heap \<Rightarrow> rsnapshot \<Rightarrow> snapshot" where
  "abs_snap hp s = \<lparr>Data = fmmap (view hp) (rs_Data s), ResourceVersion = rs_ResourceVersion s,
     FetchedAt = rs_FetchedAt s\<rparr>"

definition abs_handle :: "heap \<Rightarrow> rhandle \<Rightarrow> handle" where
  "abs_handle hp h = \<lparr>h_key = rh_key h, h_snap = map_option (abs_snap hp) (rh_snap h), h_buf = view hp (rh_buf h),
     h_dirty = rh_dirty h, h_lease = rh_lease h\<rparr>"

definition snap_ok :: "heap \<Rightarrow> rsnapshot \<Rightarrow> bool" where
  "snap_ok hp s \<longleftrightarrow> (\<forall>k v. fmlookup (rs_Data s) k = Some v \<longrightarrow> ref_ok hp v)"

definition handle_ok :: "heap \<Rightarrow> rhandle \<Rightarrow> bool" where
  "handle_ok hp h \<longleftrightarrow> ref_ok hp (rh_buf h) \<and> (\<forall>s. rh_snap h = Some s \<longrightarrow> snap_ok hp s)"

lemma abs_handle_sel [simp]:
  "h_key (abs_handle hp h) = rh_key h" "h_snap (abs_handle hp h) = map_option (abs_snap hp) (rh_snap h)"
  "h_buf (abs_handle hp h) = view hp (rh_buf h)" "h_dirty (abs_handle hp h) = rh_dirty h"
  "h_lease (abs_handle hp h) = rh_lease h"
  by (simp_all add: abs_handle_def)

lemma abs_snap_grows:
  assumes "snap_ok hp s" "grows hp hp'"
  shows "abs_snap hp' s = abs_snap hp s" "snap_ok hp' s"
proof -
  have "fmmap (view hp') (rs_Data s) = fmmap (view hp) (rs_Data s)"
    using assms by (auto simp: fmap_eq_iff snap_ok_def view_grows intro!: option.map_cong)
  then show "abs_snap hp' s = abs_snap hp s" by (simp add: abs_snap_def)
  show "snap_ok hp' s" using assms by (auto simp: snap_ok_def intro: ref_ok_grows)
qed

lemma abs_opt_grows:
  assumes "handle_ok hp h" "grows hp hp'"
  shows "map_option (abs_snap hp') (rh_snap h) = map_option (abs_snap hp) (rh_snap h)"
  using assms by (cases "rh_snap h") (simp_all add: handle_ok_def abs_snap_grows(1) [OF _ assms(2)])

lemma abs_handle_grows:
  assumes "handle_ok hp h" "grows hp hp'"
  shows "abs_handle hp' h = abs_handle hp h" "handle_ok hp' h"
proof -
  have "view hp' (rh_buf h) = view hp (rh_buf h)"
    using assms(1) by (simp add: handle_ok_def view_grows [OF _ assms(2)])
  then show "abs_handle hp' h = abs_handle hp h" by (simp add: abs_handle_def abs_opt_grows [OF assms])
  show "handle_ok hp' h"
    using assms(1) by (simp add: handle_ok_def ref_ok_grows [OF _ assms(2)] abs_snap_grows(2) [OF _ assms(2)])
qed

text \<open>An operation that returns a changed handle: it follows the function on values and only adds to the
  heap.\<close>

definition follows :: "heap \<Rightarrow> (rhandle \<times> heap) option \<Rightarrow> handle option \<Rightarrow> bool" where
  "follows hp r a \<longleftrightarrow> map_option (\<lambda>(h', hp'). abs_handle hp' h') r = a \<and>
     (\<forall>h' hp'. r = Some (h', hp') \<longrightarrow> grows hp hp' \<and> handle_ok hp' h')"

text \<open>The handle with a new buffer.\<close>

lemma abs_new_buf:
  assumes "handle_ok hp h" "grows hp hp'" "part_ok hp' p"
  shows "abs_handle hp' (h\<lparr>rh_buf := Some p, rh_dirty := True\<rparr>) =
      (abs_handle hp h)\<lparr>h_buf := view_part hp' p, h_dirty := True\<rparr>"
    "handle_ok hp' (h\<lparr>rh_buf := Some p, rh_dirty := True\<rparr>)"
proof -
  show "abs_handle hp' (h\<lparr>rh_buf := Some p, rh_dirty := True\<rparr>) =
      (abs_handle hp h)\<lparr>h_buf := view_part hp' p, h_dirty := True\<rparr>"
    by (simp add: abs_handle_def abs_opt_grows [OF assms(1,2)])
  show "handle_ok hp' (h\<lparr>rh_buf := Some p, rh_dirty := True\<rparr>)"
    using assms abs_handle_grows(2) [OF assms(1,2)] by (simp add: handle_ok_def)
qed

lemma view_reslice: "part_ok hp p \<Longrightarrow> j \<le> p_len p \<Longrightarrow> view_part hp (reslice p i j) = take (j - i) (drop i (view_part hp p))"
  by (auto simp: view_part_def reslice_def drop_take min_def add.commute)

lemma Read_follows:
  assumes "handle_ok hp h"
  shows "view hp (ref_Read h n off) = handle_Read (abs_handle hp h) n off \<and> ref_ok hp (ref_Read h n off)"
proof (cases "rh_buf h")
  case None
  then show ?thesis by (simp add: ref_Read_def handle_Read_def)
next
  case (Some p)
  then have ok: "part_ok hp p" and len: "length (view_part hp p) = p_len p"
    using assms length_view [of hp "Some p"] by (simp_all add: handle_ok_def ref_len_def)
  have sub: "part_ok hp (reslice p i j)" if "j \<le> p_len p" "i \<le> p_len p" for i j
    using ok that by (auto simp: part_ok_def reslice_def)
  show ?thesis
    using Some ok len
    by (auto simp: ref_Read_def handle_Read_def Let_def view_reslice intro!: sub)
qed


lemma copy_into_length: "part_ok hp dst \<Longrightarrow> length (cells (copy_into dst src hp) a) = length (cells hp a)"
  by (auto simp: copy_into_def Let_def part_ok_def view_part_def)

lemma whole_view: "p_off p = 0 \<Longrightarrow> length (cells hp (p_array p)) = p_len p \<Longrightarrow> view_part hp p = cells hp (p_array p)"
  by (simp add: view_part_def)

text \<open>\<open>copy(next[off:], data)\<close> on an array of its own.\<close>

lemma copy_into_suffix:
  assumes "p_off p = 0" "length (cells hp (p_array p)) = p_len p" "p_array p < brk hp" "i \<le> p_len p"
  shows "view_part (copy_into (reslice p i (p_len p)) src hp) p = copy_at (view_part hp p) i src"
    "part_ok (copy_into (reslice p i (p_len p)) src hp) p"
proof -
  have ok: "part_ok hp (reslice p i (p_len p))" using assms by (simp add: part_ok_def reslice_def)
  note len = copy_into_length [OF ok, of src "p_array p"]
  show "part_ok (copy_into (reslice p i (p_len p)) src hp) p"
    using assms len by (simp add: part_ok_def copy_into_def Let_def)
  have "view_part hp (reslice p i (p_len p)) = drop i (cells hp (p_array p))"
    using assms by (simp add: view_part_def reslice_def)
  then show "view_part (copy_into (reslice p i (p_len p)) src hp) p = copy_at (view_part hp p) i src"
    using assms len by (simp add: whole_view) (simp add: copy_into_def Let_def reslice_def copy_at_def)
qed

text \<open>The length of the buffer after a write.\<close>

definition write_size :: "ref \<Rightarrow> bytes \<Rightarrow> int \<Rightarrow> int" where
  "write_size buf data off =
     (let e = wrap64 (off + int (length data)) in if e > int (ref_len buf) then e else int (ref_len buf))"

lemma handle_Write_abs:
  assumes "ref_ok hp (rh_buf h)" "0 \<le> off"
  shows "handle_Write (abs_handle hp h) data off =
      (let sz = write_size (rh_buf h) data off in
       case make_bytes sz of None \<Rightarrow> None
       | Some next \<Rightarrow> if off > sz then None else Some ((abs_handle hp h)\<lparr>h_buf :=
          copy_at (copy_bytes next (view hp (rh_buf h))) (nat off) data, h_dirty := True\<rparr>, of_nat (length data), OK))"
  using assms(2) unfolding handle_Write_def Let_def abs_handle_sel length_view [OF assms(1)] write_size_def by simp

lemma ref_Write_size:
  assumes "0 \<le> off"
  shows "ref_Write h data off hp =
      (let sz = write_size (rh_buf h) data off in
       case make_part sz hp of None \<Rightarrow> None
       | Some (next, hp1) \<Rightarrow> if off > sz then None
          else Some (h\<lparr>rh_buf := Some next, rh_dirty := True\<rparr>, of_nat (length data), OK,
            copy_into (reslice next (nat off) (p_len next)) data (copy_into next (view hp1 (rh_buf h)) hp1)))"
  using assms unfolding ref_Write_def Let_def write_size_def by simp

text \<open>The case that writes: the octets go into the array that was made for them.\<close>

lemma Write_follows_new:
  fixes h data off
  defines "sz \<equiv> write_size (rh_buf h) data off"
  assumes "handle_ok hp h" and off: "0 \<le> off" "off \<le> sz" and m: "make_part sz hp = Some (p, hp1)"
  obtains hp3 where "ref_Write h data off hp = Some (h\<lparr>rh_buf := Some p, rh_dirty := True\<rparr>, of_nat (length data), OK, hp3)"
    "handle_Write (abs_handle hp h) data off = Some (abs_handle hp3 (h\<lparr>rh_buf := Some p, rh_dirty := True\<rparr>), of_nat (length data), OK)"
    "grows hp hp3" "handle_ok hp3 (h\<lparr>rh_buf := Some p, rh_dirty := True\<rparr>)"
proof -
  have buf: "ref_ok hp (rh_buf h)" using assms(2) by (simp add: handle_ok_def)
  define hp2 where "hp2 = copy_into p (view hp1 (rh_buf h)) hp1"
  note mr = make_part_result [OF m] and fr = fill_result [OF m buf, folded hp2_def]
  have len2: "length (cells hp2 (p_array p)) = p_len p" using mr by (simp add: hp2_def copy_into_length)
  define hp3 where "hp3 = copy_into (reslice p (nat off) (p_len p)) data hp2"
  have i: "nat off \<le> p_len p" using off(2) mr(6) by linarith
  have brk: "p_array p < brk hp2" using fr(2) by (simp add: part_ok_def)
  note s = copy_into_suffix [OF mr(4) len2 brk i, of data, folded hp3_def]
  have ok2: "part_ok hp2 (reslice p (nat off) (p_len p))" "brk hp \<le> p_array (reslice p (nat off) (p_len p))"
    using fr(2,5) i by (auto simp: part_ok_def reslice_def)
  have g: "grows hp hp3" unfolding hp3_def by (rule copy_into_result(1) [OF ok2 fr(1)])
  have r: "ref_Write h data off hp = Some (h\<lparr>rh_buf := Some p, rh_dirty := True\<rparr>, of_nat (length data), OK, hp3)"
    using m off by (simp add: ref_Write_size sz_def [symmetric] hp2_def [symmetric] hp3_def [symmetric])
  have a: "handle_Write (abs_handle hp h) data off = Some ((abs_handle hp h)\<lparr>h_buf :=
      copy_at (copy_bytes (view_part hp1 p) (view hp (rh_buf h))) (nat off) data, h_dirty := True\<rparr>, of_nat (length data), OK)"
    using off fr(3) by (simp add: handle_Write_abs [OF buf off(1)] sz_def [symmetric])
  show thesis
    by (rule that [OF r _ g]) (use abs_new_buf [OF assms(2) g s(2)] in \<open>simp_all add: a s(1) fr(4)\<close>)
qed

lemma Write_follows:
  assumes "handle_ok hp h"
  shows "map_option (\<lambda>(h', n, e, hp'). (abs_handle hp' h', n, e)) (ref_Write h data off hp) =
      handle_Write (abs_handle hp h) data off"
    "\<And>h' n e hp'. ref_Write h data off hp = Some (h', n, e, hp') \<Longrightarrow> grows hp hp' \<and> handle_ok hp' h'"
proof -
  let ?sz = "write_size (rh_buf h) data off"
  have buf: "ref_ok hp (rh_buf h)" using assms by (simp add: handle_ok_def)
  consider "off < 0" | "0 \<le> off" "make_bytes ?sz = None" "make_part ?sz hp = None"
    | v p hp1 where "0 \<le> off" "?sz < off" "make_bytes ?sz = Some v" "make_part ?sz hp = Some (p, hp1)"
    | p hp1 where "0 \<le> off" "off \<le> ?sz" "make_part ?sz hp = Some (p, hp1)"
    using make_part_None [of ?sz hp] by (cases "make_part ?sz hp"; cases "make_bytes ?sz") (force simp: not_less)+
  then have "map_option (\<lambda>(h', n, e, hp'). (abs_handle hp' h', n, e)) (ref_Write h data off hp) =
      handle_Write (abs_handle hp h) data off \<and>
    (\<forall>h' n e hp'. ref_Write h data off hp = Some (h', n, e, hp') \<longrightarrow> grows hp hp' \<and> handle_ok hp' h')"
  proof cases
    case 1
    with assms show ?thesis by (simp add: ref_Write_def handle_Write_def)
  next
    case (4 p hp1)
    obtain hp3 where w: "ref_Write h data off hp = Some (h\<lparr>rh_buf := Some p, rh_dirty := True\<rparr>, of_nat (length data), OK, hp3)"
      "handle_Write (abs_handle hp h) data off = Some (abs_handle hp3 (h\<lparr>rh_buf := Some p, rh_dirty := True\<rparr>), of_nat (length data), OK)"
      "grows hp hp3" "handle_ok hp3 (h\<lparr>rh_buf := Some p, rh_dirty := True\<rparr>)"
      by (rule Write_follows_new [OF assms 4])
    then show ?thesis by simp
  qed (simp_all add: ref_Write_size handle_Write_abs [OF buf])
  then show "map_option (\<lambda>(h', n, e, hp'). (abs_handle hp' h', n, e)) (ref_Write h data off hp) =
      handle_Write (abs_handle hp h) data off"
    "\<And>h' n e hp'. ref_Write h data off hp = Some (h', n, e, hp') \<Longrightarrow> grows hp hp' \<and> handle_ok hp' h'" by blast+
qed

lemma truncate_follows:
  assumes "handle_ok hp h"
  shows "follows hp (ref_truncate h sz hp) (handle_truncate (abs_handle hp h) sz)"
proof -
  have buf: "ref_ok hp (rh_buf h)" using assms by (simp add: handle_ok_def)
  show ?thesis
  proof (cases "wrap64 (uint sz) = int (ref_len (rh_buf h)) \<or> make_bytes (uint sz) = None")
    case True
    then consider "wrap64 (uint sz) = int (ref_len (rh_buf h))"
      | "wrap64 (uint sz) \<noteq> int (ref_len (rh_buf h))" "make_bytes (uint sz) = None" "make_part (uint sz) hp = None"
      by (auto simp: make_part_None)
    then show ?thesis
      by cases (use assms length_view [OF buf] in \<open>simp_all add: follows_def ref_truncate_def handle_truncate_def\<close>)
  next
    case False
    then obtain p hp1 where m: "make_part (uint sz) hp = Some (p, hp1)" by (cases "make_part (uint sz) hp") (auto simp: make_part_None)
    note fr = fill_result [OF m buf]
    show ?thesis
      using False m fr(3) length_view [OF buf] abs_new_buf [OF assms fr(1,2)] fr(1)
      by (simp add: follows_def ref_truncate_def handle_truncate_def fr(4))
  qed
qed


lemma Get_follows:
  assumes "snap_ok hp s" and "ref_Get s key hp = Some (r, hp')"
  shows "grows hp hp'" "ref_ok hp' r" "map_option (view_part hp') r = snap_Get (abs_snap hp s) key"
proof -
  have *: "grows hp hp' \<and> ref_ok hp' r \<and> map_option (view_part hp') r = snap_Get (abs_snap hp s) key"
  proof (cases "fmlookup (rs_Data s) key")
    case None
    with assms(2) show ?thesis by (auto simp: ref_Get_def snap_Get_def abs_snap_def)
  next
    case (Some v)
    with assms obtain out where r: "r = Some out" "clone v hp = Some (out, hp')" and v: "ref_ok hp v"
      by (auto simp: ref_Get_def snap_ok_def)
    from clone_result [OF r(2) v] Some r(1) show ?thesis by (simp add: snap_Get_def abs_snap_def)
  qed
  then show "grows hp hp'" "ref_ok hp' r" "map_option (view_part hp') r = snap_Get (abs_snap hp s) key" by auto
qed

lemma Open_follows:
  assumes "snap_ok hp s" and "ref_Open s key flags hp = Some (r, hp')"
  shows "grows hp hp'" "\<And>h. r = Some h \<Longrightarrow> handle_ok hp' h"
    "map_option (abs_handle hp') r =
      (case snap_Get (abs_snap hp s) key of
         None \<Rightarrow> None
       | Some value \<Rightarrow>
           Some (if flags AND O_TRUNC \<noteq> 0 then (newHandle key (Some (abs_snap hp s)) [])\<lparr>h_dirty := True\<rparr>
             else newHandle key (Some (abs_snap hp s)) value))"
proof -
  obtain v where g: "ref_Get s key hp = Some (v, hp')"
    and r: "r = (case v of None \<Rightarrow> None
      | Some p \<Rightarrow>
          if flags AND O_TRUNC \<noteq> 0 then Some ((ref_newHandle key (Some s) None)\<lparr>rh_dirty := True\<rparr>)
          else Some (ref_newHandle key (Some s) (Some p)))"
    using assms(2) by (auto simp: ref_Open_def)
  note gf = Get_follows [OF assms(1) g] and sg = abs_snap_grows [OF assms(1) Get_follows(1) [OF assms(1) g]]
  show "grows hp hp'" by (rule gf(1))
  show "handle_ok hp' h" if "r = Some h" for h
    using that r gf(2) sg(2) by (auto simp: handle_ok_def ref_newHandle_def split: option.splits if_splits)
  show "map_option (abs_handle hp') r =
      (case snap_Get (abs_snap hp s) key of
         None \<Rightarrow> None
       | Some value \<Rightarrow>
           Some (if flags AND O_TRUNC \<noteq> 0 then (newHandle key (Some (abs_snap hp s)) [])\<lparr>h_dirty := True\<rparr>
             else newHandle key (Some (abs_snap hp s)) value))"
    unfolding r gf(3) [symmetric]
    by (cases v) (simp_all add: abs_handle_def ref_newHandle_def newHandle_def sg(1))
qed

lemma commit_begin_follows:
  assumes "handle_ok hp h" and "ref_commit_begin h hp = Some (r, hp')"
  shows "grows hp hp'" "\<And>v l. r = Some (v, l) \<Longrightarrow> part_ok hp' v"
    "map_option (\<lambda>(v, l). (view_part hp' v, l)) r = commit_begin (abs_handle hp h)"
proof -
  have *: "grows hp hp' \<and> (\<forall>v l. r = Some (v, l) \<longrightarrow> part_ok hp' v) \<and>
    map_option (\<lambda>(v, l). (view_part hp' v, l)) r = commit_begin (abs_handle hp h)"
  proof (cases "rh_dirty h")
    case False
    with assms(2) show ?thesis by (auto simp: ref_commit_begin_def commit_begin_def)
  next
    case True
    with assms(2) obtain v where c: "clone (rh_buf h) hp = Some (v, hp')" "r = Some (v, rh_lease h)"
      by (auto simp: ref_commit_begin_def)
    have "ref_ok hp (rh_buf h)" using assms(1) by (simp add: handle_ok_def)
    from clone_result [OF c(1) this] c(2) True show ?thesis by (simp add: commit_begin_def)
  qed
  then show "grows hp hp'" "\<And>v l. r = Some (v, l) \<Longrightarrow> part_ok hp' v"
    "map_option (\<lambda>(v, l). (view_part hp' v, l)) r = commit_begin (abs_handle hp h)" by auto
qed

lemma pin_fresh_follows:
  assumes "handle_ok hp h" "snap_ok hp s" and "ref_pin_fresh h lease s hp = Some (h', hp')"
  shows "grows hp hp'" "handle_ok hp' h'"
    "abs_handle hp' h' = pin_fresh (abs_handle hp h) lease (abs_snap hp s)"
proof -
  have *: "grows hp hp' \<and> handle_ok hp' h' \<and> abs_handle hp' h' = pin_fresh (abs_handle hp h) lease (abs_snap hp s)"
  proof (cases "rh_dirty h")
    case True
    with assms show ?thesis by (auto simp: ref_pin_fresh_def pin_fresh_def handle_ok_def abs_handle_def)
  next
    case False
    with assms(3) obtain v where g: "ref_Get s (rh_key h) hp = Some (v, hp')"
      and h': "h' = h\<lparr>rh_lease := Some lease, rh_snap := Some s, rh_buf := v\<rparr>"
      by (auto simp: ref_pin_fresh_def Let_def)
    note gf = Get_follows [OF assms(2) g] and sg = abs_snap_grows [OF assms(2) Get_follows(1) [OF assms(2) g]]
    have "view hp' v = (case snap_Get (abs_snap hp s) (rh_key h) of Some value \<Rightarrow> value | None \<Rightarrow> [])"
      using gf(3) by (cases v) (auto simp flip: gf(3))
    with False gf sg show ?thesis
      by (simp add: h' pin_fresh_def Let_def handle_ok_def abs_handle_def)
  qed
  then show "grows hp hp'" "handle_ok hp' h'"
    "abs_handle hp' h' = pin_fresh (abs_handle hp h) lease (abs_snap hp s)" by auto
qed

definition abs_slice :: "heap \<Rightarrow> ref \<Rightarrow> slice" where
  "abs_slice hp s = map_option (view_part hp) s"

lemma slice_bytes_abs [simp]: "slice_bytes (abs_slice hp s) = view hp s"
  by (cases s) (simp_all add: abs_slice_def)

lemma fmmap_fold_fmdrop: "fmmap f (fold fmdrop ks m) = fold fmdrop ks (fmmap f m)"
  by (induction ks arbitrary: m) (simp_all add: fmap_eq_iff)

lemma With_follows:
  "abs_snap hp (ref_With s puts del) = snap_With (abs_snap hp s) (fmmap (abs_slice hp) puts) del"
proof -
  have "fmmap slice_bytes (fmmap (abs_slice hp) puts) = fmmap (view hp) puts"
    by (simp add: fmap_eq_iff option.map_comp comp_def)
  moreover have "fmmap (view hp) (fmadd (rs_Data s) puts) = fmadd (fmmap (view hp) (rs_Data s)) (fmmap (view hp) puts)"
    by (simp add: fmap_eq_iff)
  ultimately show ?thesis by (simp add: abs_snap_def ref_With_def snap_With_def fmmap_fold_fmdrop)
qed

lemma With_ok:
  assumes "snap_ok hp s" "\<And>k v. fmlookup puts k = Some v \<Longrightarrow> ref_ok hp v"
  shows "snap_ok hp (ref_With s puts del)"
  using assms by (auto simp: snap_ok_def ref_With_def fmlookup_fold_fmdrop split: if_splits)


section \<open>Any interleaving of operations\<close>

text \<open>A decoded object: every value in an array of its own.\<close>

definition load_entry :: "string \<Rightarrow> bytes \<Rightarrow> (string, ref) fmap \<times> heap \<Rightarrow> (string, ref) fmap \<times> heap" where
  "load_entry k v mh = (case alloc v (snd mh) of (p, hp1) \<Rightarrow> (fmupd k (Some p) (fst mh), hp1))"

definition load_snapshot :: "snapshot \<Rightarrow> heap \<Rightarrow> rsnapshot \<times> heap" where
  "load_snapshot s hp =
     (case fold (\<lambda>k. load_entry k (the (fmlookup (Data s) k))) (snap_Keys s) (fmempty, hp) of
        (m, hp1) \<Rightarrow> (\<lparr>rs_Data = m, rs_ResourceVersion = ResourceVersion s, rs_FetchedAt = FetchedAt s\<rparr>, hp1))"

text \<open>One volume: the heap, the cached snapshot, the open handles and, for each commit under way (a handle
  may have several), the handle and the value it has copied, with what the buffer held then; the replies that the FUSE server has not yet written out, with what they held when \<open>Read\<close>
  returned; and every snapshot that ever was the current one, with what it held then.\<close>

record bufs =
  b_heap :: heap
  b_cur :: "rsnapshot option"
  b_handles :: "nat \<Rightarrow> rhandle option"
  b_commits :: "nat \<Rightarrow> (nat \<times> part \<times> bytes) option"
  b_replies :: "(ref \<times> bytes) set"
  b_seen :: "(rsnapshot \<times> snapshot) set"

definition install :: "rsnapshot \<Rightarrow> heap \<Rightarrow> bufs \<Rightarrow> bufs" where
  "install s hp st = st\<lparr>b_heap := hp, b_cur := Some s, b_seen := insert (s, abs_snap hp s) (b_seen st)\<rparr>"

definition put_handle :: "nat \<Rightarrow> rhandle \<Rightarrow> heap \<Rightarrow> bufs \<Rightarrow> bufs" where
  "put_handle i h hp st = st\<lparr>b_heap := hp, b_handles := (b_handles st)(i := Some h)\<rparr>"

inductive buf_step :: "bufs \<Rightarrow> bufs \<Rightarrow> bool" where
  event: "load_snapshot sn (b_heap st) = (s, hp') \<Longrightarrow> buf_step st (install s hp' st)"
| opened: "b_cur st = Some s \<Longrightarrow> b_handles st i = None \<Longrightarrow>
    ref_Open s key flags (b_heap st) = Some (Some h, hp') \<Longrightarrow> buf_step st (put_handle i h hp' st)"
| created: "b_handles st i = None \<Longrightarrow>
    buf_step st (put_handle i ((ref_newHandle key (b_cur st) None)\<lparr>rh_dirty := True\<rparr>) (b_heap st) st)"
| read: "b_handles st i = Some h \<Longrightarrow> ref_Read h n off = r \<Longrightarrow>
    buf_step st (st\<lparr>b_replies := insert (r, view (b_heap st) r) (b_replies st)\<rparr>)"
| replied: "buf_step st (st\<lparr>b_replies := b_replies st - {r}\<rparr>)"
| wrote: "b_handles st i = Some h \<Longrightarrow> ref_Write h data off (b_heap st) = Some (h', n, e, hp') \<Longrightarrow>
    buf_step st (put_handle i h' hp' st)"
| truncated: "b_handles st i = Some h \<Longrightarrow> ref_truncate h sz (b_heap st) = Some (h', hp') \<Longrightarrow>
    buf_step st (put_handle i h' hp' st)"
| committing: "b_handles st i = Some h \<Longrightarrow> b_commits st j = None \<Longrightarrow>
    ref_commit_begin h (b_heap st) = Some (Some (v, lease), hp') \<Longrightarrow>
    buf_step st (st\<lparr>b_heap := hp', b_commits := (b_commits st)(j := Some (i, v, view (b_heap st) (rh_buf h)))\<rparr>)"
| committed: "b_commits st j = Some (i, v, b) \<Longrightarrow> b_handles st i = Some h \<Longrightarrow> b_cur st = Some s \<Longrightarrow>
    buf_step st (put_handle i (ref_commit_end h) (b_heap st)
      (install (ref_With s (fmupd (rh_key h) (Some v) fmempty) []) (b_heap st)
        (st\<lparr>b_commits := (b_commits st)(j := None)\<rparr>)))"
| committed_uncached: "b_commits st j = Some (i, v, b) \<Longrightarrow> b_handles st i = Some h \<Longrightarrow> b_cur st = None \<Longrightarrow>
    buf_step st (put_handle i (ref_commit_end h) (b_heap st) (st\<lparr>b_commits := (b_commits st)(j := None)\<rparr>))"
| commit_failed: "buf_step st (st\<lparr>b_commits := (b_commits st)(j := None)\<rparr>)"
| locked: "b_handles st i = Some h \<Longrightarrow> load_snapshot sn (b_heap st) = (s, hp1) \<Longrightarrow>
    ref_pin_fresh h lease s hp1 = Some (h', hp') \<Longrightarrow> buf_step st (put_handle i h' hp' (install s hp1 st))"
| unlocked: "b_handles st i = Some h \<Longrightarrow>
    buf_step st (put_handle i (h\<lparr>rh_lease := None\<rparr>) (b_heap st) st)"
| closed: "buf_step st (st\<lparr>b_handles := (b_handles st)(i := None)\<rparr>)"

definition buf_start :: bufs where
  "buf_start = \<lparr>b_heap = \<lparr>cells = (\<lambda>_. []), brk = 0\<rparr>, b_cur = None, b_handles = (\<lambda>_. None),
     b_commits = (\<lambda>_. None), b_replies = {}, b_seen = {}\<rparr>"

inductive buf_reachable :: "bufs \<Rightarrow> bool" where
  start: "buf_reachable buf_start"
| step: "buf_reachable st \<Longrightarrow> buf_step st st' \<Longrightarrow> buf_reachable st'"

definition buf_inv :: "bufs \<Rightarrow> bool" where
  "buf_inv st \<longleftrightarrow>
     (\<forall>s. b_cur st = Some s \<longrightarrow> snap_ok (b_heap st) s) \<and>
     (\<forall>i h. b_handles st i = Some h \<longrightarrow> handle_ok (b_heap st) h) \<and>
     (\<forall>j i v b. b_commits st j = Some (i, v, b) \<longrightarrow> part_ok (b_heap st) v \<and> view_part (b_heap st) v = b) \<and>
     (\<forall>(r, b) \<in> b_replies st. ref_ok (b_heap st) r \<and> view (b_heap st) r = b) \<and>
     (\<forall>(s, a) \<in> b_seen st. snap_ok (b_heap st) s \<and> abs_snap (b_heap st) s = a)"

text \<open>The invariant holds on any larger heap.\<close>

lemma buf_inv_grows:
  assumes "buf_inv st" "grows (b_heap st) hp'"
  shows "buf_inv (st\<lparr>b_heap := hp'\<rparr>)"
  using assms(1) part_ok_grows [OF _ assms(2)] ref_ok_grows [OF _ assms(2)] view_grows [OF _ assms(2)] abs_snap_grows [OF _ assms(2)]
    abs_handle_grows(2) [OF _ assms(2)]
  unfolding buf_inv_def by fastforce

lemma inv_put_handle:
  assumes "buf_inv st" "grows (b_heap st) hp'" "handle_ok hp' h"
  shows "buf_inv (put_handle i h hp' st)"
  using buf_inv_grows [OF assms(1,2)] assms(3) by (auto simp: buf_inv_def put_handle_def)

lemma inv_install:
  assumes "buf_inv st" "grows (b_heap st) hp'" "snap_ok hp' s"
  shows "buf_inv (install s hp' st)"
  using buf_inv_grows [OF assms(1,2)] assms(3) by (auto simp: buf_inv_def install_def)

lemma inv_cur: "buf_inv st \<Longrightarrow> b_cur st = Some s \<Longrightarrow> snap_ok (b_heap st) s"
  and inv_handle: "buf_inv st \<Longrightarrow> b_handles st i = Some h \<Longrightarrow> handle_ok (b_heap st) h"
  and inv_commit: "buf_inv st \<Longrightarrow> b_commits st j = Some (i, v, b) \<Longrightarrow> part_ok (b_heap st) v \<and> view_part (b_heap st) v = b"
  by (simp_all add: buf_inv_def)

lemma load_result:
  assumes "load_snapshot sn hp = (s, hp')"
  shows "grows hp hp'" "snap_ok hp' s" "abs_snap hp' s = sn"
proof -
  let ?f = "\<lambda>k. load_entry k (the (fmlookup (Data sn) k))"
  have *: "grows hp (snd (fold ?f ks (m, hq))) \<and>
      (\<forall>k v. fmlookup (fst (fold ?f ks (m, hq))) k = Some v \<longrightarrow> ref_ok (snd (fold ?f ks (m, hq))) v) \<and>
      (\<forall>k. map_option (view (snd (fold ?f ks (m, hq)))) (fmlookup (fst (fold ?f ks (m, hq))) k) =
        (if k \<in> set ks then Some (the (fmlookup (Data sn) k)) else map_option (view hq) (fmlookup m k)))"
    if "grows hp hq" "\<And>k v. fmlookup m k = Some v \<Longrightarrow> ref_ok hq v" for ks m hq
    using that
  proof (induction ks arbitrary: m hq)
    case (Cons k ks)
    obtain p hp1 where a: "alloc (the (fmlookup (Data sn) k)) hq = (p, hp1)" by fastforce
    note ar = alloc_result [OF a]
    have g: "grows hp hp1" using Cons.prems(1) ar(1) by (rule grows_trans)
    have ok: "ref_ok hp1 v" if "fmlookup (fmupd k (Some p) m) j = Some v" for j v
      using that Cons.prems(2) ar(1,2) by (auto split: if_splits intro: ref_ok_grows)
    have v: "map_option (view hp1) (fmlookup (fmupd k (Some p) m) j) =
        (if j = k then Some (the (fmlookup (Data sn) k)) else map_option (view hq) (fmlookup m j))" for j
      using Cons.prems(2) ar(1,3) by (auto intro!: option.map_cong view_grows)
    have step: "fold ?f (k # ks) (m, hq) = fold ?f ks (fmupd k (Some p) m, hp1)" by (simp add: load_entry_def a)
    from Cons.IH [where m = "fmupd k (Some p) m" and hq = hp1, OF g] ok v show ?case
      unfolding step by (simp del: fmupd_lookup)
  qed simp
  obtain m where f: "fold ?f (snap_Keys sn) (fmempty, hp) = (m, hp')"
    and s: "s = \<lparr>rs_Data = m, rs_ResourceVersion = ResourceVersion sn, rs_FetchedAt = FetchedAt sn\<rparr>"
    using assms by (auto simp: load_snapshot_def split: prod.splits)
  from * [of hp fmempty "snap_Keys sn"] f have r: "grows hp hp'" "\<And>k v. fmlookup m k = Some v \<Longrightarrow> ref_ok hp' v"
    "\<And>k. map_option (view hp') (fmlookup m k) = (if k \<in> set (snap_Keys sn) then Some (the (fmlookup (Data sn) k)) else None)"
    by simp_all
  have "fmmap (view hp') m = Data sn"
    by (rule fmap_ext) (auto simp: r(3) snap_Get_def)
  with r(1,2) show "grows hp hp'" "snap_ok hp' s" "abs_snap hp' s = sn"
    by (auto simp: s snap_ok_def abs_snap_def)
qed


lemma committed_inv:
  assumes inv: "buf_inv st" and "b_commits st j = Some (i, v, b)" "b_handles st i = Some h" "b_cur st = Some s"
  shows "buf_inv (put_handle i (ref_commit_end h) (b_heap st)
      (install (ref_With s (fmupd (rh_key h) (Some v) fmempty) []) (b_heap st) (st\<lparr>b_commits := (b_commits st)(j := None)\<rparr>)))"
proof -
  let ?st = "st\<lparr>b_commits := (b_commits st)(j := None)\<rparr>"
  let ?s = "ref_With s (fmupd (rh_key h) (Some v) fmempty) []"
  have "ref_ok (b_heap st) (Some v)" using inv_commit [OF inv assms(2)] by simp
  then have "snap_ok (b_heap st) ?s"
    by (intro With_ok inv_cur [OF inv assms(4)]) (auto split: if_splits)
  moreover have "buf_inv ?st" using inv by (simp add: buf_inv_def)
  ultimately have "buf_inv (install ?s (b_heap st) ?st)" by (intro inv_install) simp_all
  moreover have "handle_ok (b_heap st) (ref_commit_end h)"
    using inv_handle [OF inv assms(3)] by (simp add: handle_ok_def ref_commit_end_def)
  ultimately show ?thesis by (intro inv_put_handle) (simp_all add: install_def)
qed

lemma buf_inv_step:
  assumes "buf_step st st'" and inv: "buf_inv st"
  shows "buf_inv st'"
  using assms(1)
proof cases
  case (event sn s hp')
  from load_result [OF event(2)] inv show ?thesis by (simp add: event(1) inv_install)
next
  case (opened s i key flags h hp')
  from Open_follows [OF inv_cur [OF inv opened(2)] opened(4)] inv show ?thesis
    by (simp add: opened(1) inv_put_handle)
next
  case (created i key)
  have "handle_ok (b_heap st) ((ref_newHandle key (b_cur st) None)\<lparr>rh_dirty := True\<rparr>)"
    using inv_cur [OF inv] by (simp add: handle_ok_def ref_newHandle_def)
  with inv show ?thesis by (simp add: created(1) inv_put_handle)
next
  case (read i h n off r)
  have "ref_ok (b_heap st) r" using Read_follows [OF inv_handle [OF inv read(2)], of n off] read(3) by simp
  with inv show ?thesis by (simp add: read(1) buf_inv_def)
next
  case (wrote i h data off h' n e hp')
  from Write_follows(2) [OF inv_handle [OF inv wrote(2)] wrote(3)] inv show ?thesis
    by (simp add: wrote(1) inv_put_handle)
next
  case (truncated i h sz h' hp')
  from truncate_follows [OF inv_handle [OF inv truncated(2)], of sz] truncated(3) inv show ?thesis
    by (simp add: truncated(1) inv_put_handle follows_def)
next
  case (committing i h j v lease hp')
  note c = commit_begin_follows [OF inv_handle [OF inv committing(2)] committing(4)]
  have "view_part hp' v = view (b_heap st) (rh_buf h)" using c(3) by (simp add: commit_begin_def split: if_splits)
  with buf_inv_grows [OF inv c(1)] c(2) show ?thesis by (simp add: committing(1) buf_inv_def)
next
  case (committed j i v b h s)
  show ?thesis unfolding committed(1) by (rule committed_inv [OF inv committed(2-4)])
next
  case (committed_uncached j i v b h)
  have "handle_ok (b_heap st) (ref_commit_end h)"
    using inv_handle [OF inv committed_uncached(3)] by (simp add: handle_ok_def ref_commit_end_def)
  then show ?thesis unfolding committed_uncached(1)
    by (intro inv_put_handle) (use inv in \<open>simp_all add: buf_inv_def\<close>)
next
  case (locked i h sn s hp1 lease h' hp')
  note l = load_result [OF locked(3)]
  have "handle_ok hp1 h" by (rule abs_handle_grows(2) [OF inv_handle [OF inv locked(2)] l(1)])
  note p = pin_fresh_follows [OF this l(2) locked(4)]
  show ?thesis unfolding locked(1)
    by (rule inv_put_handle [OF inv_install [OF inv l(1,2)] _ p(2)]) (simp add: install_def p(1))
next
  case (unlocked i h)
  have "handle_ok (b_heap st) (h\<lparr>rh_lease := None\<rparr>)"
    using inv_handle [OF inv unlocked(2)] by (simp add: handle_ok_def)
  with inv show ?thesis by (simp add: unlocked(1) inv_put_handle)
qed (use inv in \<open>auto simp: buf_inv_def\<close>)

lemma buf_inv_reachable: "buf_reachable st \<Longrightarrow> buf_inv st"
proof (induction rule: buf_reachable.induct)
  case start
  show ?case by (simp add: buf_start_def buf_inv_def)
qed (rule buf_inv_step)

text \<open>C7: Nothing that was handed out changes: however reads, writes, truncates, commits, locks, opens and
  watch events interleave, a reply that the FUSE server has not yet written out still holds the octets it
  held when \<open>Read\<close> returned, the value that a commit under way sends is still what the handle's buffer held
  when the commit took it, and every snapshot that ever was current still holds its contents.\<close>

theorem handed_out_never_changes:
  assumes "buf_reachable st"
  shows "(\<forall>(r, b) \<in> b_replies st. view (b_heap st) r = b) \<and>
    (\<forall>j i v b. b_commits st j = Some (i, v, b) \<longrightarrow> view_part (b_heap st) v = b) \<and>
    (\<forall>(s, a) \<in> b_seen st. abs_snap (b_heap st) s = a)"
  using buf_inv_reachable [OF assms] by (auto simp: buf_inv_def)

text \<open>Copying fails, as \<open>make\<close> panics, only for a length that cannot be allocated.\<close>

lemma clone_None: "clone v hp = None \<longleftrightarrow> max_alloc < int (ref_len v)"
  by (auto simp: clone_def make_part_None make_bytes_def)

lemma commit_begin_abs:
  assumes "handle_ok hp h"
  shows "map_option (\<lambda>(r, hp'). map_option (\<lambda>(v, l). (view_part hp' v, l)) r) (ref_commit_begin h hp) =
    (if rh_dirty h \<and> max_alloc < int (length (view hp (rh_buf h))) then None else Some (commit_begin (abs_handle hp h)))"
proof (cases "ref_commit_begin h hp")
  case None
  then show ?thesis
    using assms by (auto simp: ref_commit_begin_def clone_None length_view handle_ok_def split: if_splits)
next
  case (Some x)
  obtain r hp' where x: "x = (r, hp')" by (cases x)
  have "\<not> (rh_dirty h \<and> max_alloc < int (length (view hp (rh_buf h))))"
    using Some assms clone_None [of "rh_buf h" hp] by (auto simp: ref_commit_begin_def length_view handle_ok_def)
  with commit_begin_follows(3) [OF assms Some [unfolded x]] Some x show ?thesis by simp
qed

lemma pin_fresh_abs:
  assumes "handle_ok hp h" "snap_ok hp s"
  shows "map_option (\<lambda>(h', hp'). abs_handle hp' h') (ref_pin_fresh h lease s hp) =
    (if \<not> rh_dirty h \<and> (\<exists>v. snap_Get (abs_snap hp s) (rh_key h) = Some v \<and> max_alloc < int (length v)) then None
     else Some (pin_fresh (abs_handle hp h) lease (abs_snap hp s)))"
proof -
  have len: "length (view hp v) = ref_len v" if "fmlookup (rs_Data s) (rh_key h) = Some v" for v
    using assms(2) that by (auto simp: snap_ok_def intro!: length_view)
  have fails: "ref_pin_fresh h lease s hp = None \<longleftrightarrow>
      \<not> rh_dirty h \<and> (\<exists>v. snap_Get (abs_snap hp s) (rh_key h) = Some v \<and> max_alloc < int (length v))"
    using len by (auto simp: ref_pin_fresh_def Let_def ref_Get_def snap_Get_def abs_snap_def clone_None split: option.splits)
  show ?thesis
  proof (cases "ref_pin_fresh h lease s hp")
    case None
    with fails show ?thesis by simp
  next
    case (Some x)
    then obtain h' hp' where x: "x = (h', hp')" by (cases x)
    with pin_fresh_follows(3) [OF assms Some [unfolded x]] Some fails show ?thesis by auto
  qed
qed

text \<open>C17: The functions on values are what the functions on shared arrays compute, on any handle of any
  reachable state: reads, writes, truncates, the value and the lease that a commit takes, and the pinning of
  the current snapshot under a lock. The last two copy a slice that is there already, and panic, as the copy of
  what is longer than can be allocated does.\<close>

theorem buffers_refine_values:
  assumes "buf_reachable st" and "b_handles st i = Some h"
  shows "view (b_heap st) (ref_Read h n off) = handle_Read (abs_handle (b_heap st) h) n off \<and>
    map_option (\<lambda>(h', n, e, hp'). (abs_handle hp' h', n, e)) (ref_Write h data off (b_heap st)) =
      handle_Write (abs_handle (b_heap st) h) data off \<and>
    map_option (\<lambda>(h', hp'). abs_handle hp' h') (ref_truncate h sz (b_heap st)) =
      handle_truncate (abs_handle (b_heap st) h) sz \<and>
    map_option (\<lambda>(r, hp'). map_option (\<lambda>(v, l). (view_part hp' v, l)) r) (ref_commit_begin h (b_heap st)) =
      (if rh_dirty h \<and> max_alloc < int (length (view (b_heap st) (rh_buf h))) then None
       else Some (commit_begin (abs_handle (b_heap st) h))) \<and>
    (\<forall>s. b_cur st = Some s \<longrightarrow>
      map_option (\<lambda>(h', hp'). abs_handle hp' h') (ref_pin_fresh h lease s (b_heap st)) =
        (if \<not> rh_dirty h \<and> (\<exists>v. snap_Get (abs_snap (b_heap st) s) (rh_key h) = Some v \<and> max_alloc < int (length v)) then None
         else Some (pin_fresh (abs_handle (b_heap st) h) lease (abs_snap (b_heap st) s))))"
proof -
  note inv = buf_inv_reachable [OF assms(1)]
  note ok = inv_handle [OF inv assms(2)]
  have "\<forall>s. b_cur st = Some s \<longrightarrow>
      map_option (\<lambda>(h', hp'). abs_handle hp' h') (ref_pin_fresh h lease s (b_heap st)) =
        (if \<not> rh_dirty h \<and> (\<exists>v. snap_Get (abs_snap (b_heap st) s) (rh_key h) = Some v \<and> max_alloc < int (length v)) then None
         else Some (pin_fresh (abs_handle (b_heap st) h) lease (abs_snap (b_heap st) s)))"
    by (intro allI impI pin_fresh_abs [OF ok] inv_cur [OF inv])
  with commit_begin_abs [OF ok] Read_follows [OF ok, of n off] Write_follows(1) [OF ok, of data off]
    truncate_follows [OF ok, of sz]
  show ?thesis by (simp only: follows_def)
qed


section \<open>A run\<close>

text \<open>A snapshot is loaded, a file opened, read, and written while the reply is under way.\<close>

definition loaded_snap :: rsnapshot where
  "loaded_snap = fst (load_snapshot demo_snap (b_heap buf_start))"

definition loaded :: bufs where
  "loaded = install loaded_snap (snd (load_snapshot demo_snap (b_heap buf_start))) buf_start"

definition old_part :: part where
  "old_part = \<lparr>p_array = 1, p_off = 0, p_len = 3\<rparr>"

definition open_handle :: rhandle where
  "open_handle = ref_newHandle ''k'' (Some loaded_snap) (Some old_part)"

definition read_state :: bufs where
  "read_state = (put_handle 4 open_handle \<lparr>cells = (\<lambda>_. [])(0 := ''old'', 1 := ''old''), brk = 2\<rparr> loaded)
     \<lparr>b_replies := {(Some old_part, ''old'')}\<rparr>"

lemma loaded_reachable: "buf_reachable loaded"
  unfolding loaded_def loaded_snap_def
  by (rule buf_reachable.step [OF buf_reachable.start buf_step.event]) (rule prod.collapse [symmetric])

lemma demo_snap_Keys: "snap_Keys demo_snap = [''k'']"
  by (simp add: snap_Keys_def demo_snap_def sorted_list_of_fset.rep_eq)

lemma loaded_sel: "b_cur loaded = Some loaded_snap" "b_handles loaded = (\<lambda>_. None)" "b_replies loaded = {}"
  "loaded_snap = \<lparr>rs_Data = fmupd ''k'' (Some \<lparr>p_array = 0, p_off = 0, p_len = 3\<rparr>) fmempty,
     rs_ResourceVersion = ResourceVersion demo_snap, rs_FetchedAt = FetchedAt demo_snap\<rparr>"
  "b_heap loaded = \<lparr>cells = (\<lambda>_. [])(0 := ''old''), brk = 1\<rparr>" "b_seen loaded = {(loaded_snap, demo_snap)}"
proof -
  have l: "load_snapshot demo_snap (b_heap buf_start) =
    (\<lparr>rs_Data = fmupd ''k'' (Some \<lparr>p_array = 0, p_off = 0, p_len = 3\<rparr>) fmempty,
     rs_ResourceVersion = ResourceVersion demo_snap, rs_FetchedAt = FetchedAt demo_snap\<rparr>,
     \<lparr>cells = (\<lambda>_. [])(0 := ''old''), brk = 1\<rparr>)"
    by (simp add: load_snapshot_def demo_snap_Keys load_entry_def alloc_def buf_start_def)
      (simp add: demo_snap_def numeral_3_eq_3)
  from load_result(3) [OF l]
  show "b_cur loaded = Some loaded_snap" "b_handles loaded = (\<lambda>_. None)" "b_replies loaded = {}"
    "loaded_snap = \<lparr>rs_Data = fmupd ''k'' (Some \<lparr>p_array = 0, p_off = 0, p_len = 3\<rparr>) fmempty,
     rs_ResourceVersion = ResourceVersion demo_snap, rs_FetchedAt = FetchedAt demo_snap\<rparr>"
    "b_heap loaded = \<lparr>cells = (\<lambda>_. [])(0 := ''old''), brk = 1\<rparr>" "b_seen loaded = {(loaded_snap, demo_snap)}"
    by (simp_all add: loaded_def loaded_snap_def install_def l) (simp_all add: buf_start_def)
qed


lemma demo_open:
  "ref_Open loaded_snap ''k'' 0 (b_heap loaded) =
     Some (Some open_handle, \<lparr>cells = (\<lambda>_. [])(0 := ''old'', 1 := ''old''), brk = 2\<rparr>)"
  by (simp add: ref_Open_def ref_Get_def loaded_sel clone_def make_part_def make_bytes_def max_alloc_def ref_len_def
      alloc_def copy_into_def view_part_def copy_bytes_def open_handle_def old_part_def numeral_3_eq_3 numeral_2_eq_2)

lemma read_state_reachable: "buf_reachable read_state"
proof -
  let ?o = "put_handle 4 open_handle \<lparr>cells = (\<lambda>_. [])(0 := ''old'', 1 := ''old''), brk = 2\<rparr> loaded"
  have "buf_reachable ?o"
    by (rule buf_reachable.step [OF loaded_reachable buf_step.opened [OF _ _ demo_open]]) (simp_all add: loaded_sel)
  moreover have "buf_step ?o read_state"
  proof -
    have "ref_Read open_handle 3 0 = Some old_part"
      by (simp add: ref_Read_def open_handle_def ref_newHandle_def old_part_def reslice_def)
    from buf_step.read [of ?o 4, OF _ this] show ?thesis
      by (simp add: put_handle_def read_state_def loaded_sel view_part_def old_part_def numeral_3_eq_3)
  qed
  ultimately show ?thesis by (rule buf_reachable.step)
qed

text \<open>A first write, a commit that takes its value, and a second write: the writes take effect on the
  handle, the reply is what it was, and so is the value of the commit.\<close>

lemma read_state_sel:
  "b_handles read_state 4 = Some open_handle" "b_replies read_state = {(Some old_part, ''old'')}"
  "(loaded_snap, demo_snap) \<in> b_seen read_state" "b_commits read_state j = None"
  "b_heap read_state = \<lparr>cells = (\<lambda>_. [])(0 := ''old'', 1 := ''old''), brk = 2\<rparr>"
proof -
  have "b_commits loaded = (\<lambda>_. None)" by (simp add: loaded_def install_def buf_start_def)
  then show "b_commits read_state j = None" by (simp add: read_state_def put_handle_def)
qed (simp_all add: read_state_def put_handle_def loaded_sel)

lemma put_handle_sel [simp]:
  "b_heap (put_handle i h hp st) = hp" "b_handles (put_handle i h hp st) i = Some h"
  "b_replies (put_handle i h hp st) = b_replies st" "b_seen (put_handle i h hp st) = b_seen st"
  "b_commits (put_handle i h hp st) = b_commits st"
  by (simp_all add: put_handle_def)

lemma write_at_start:
  assumes "buf_reachable st" "b_handles st i = Some h" "length (view (b_heap st) (rh_buf h)) = 3"
    "length data = 2"
  obtains h' n hp where "ref_Write h data 0 (b_heap st) = Some (h', n, OK, hp)" "rh_dirty h'"
    "view hp (rh_buf h') = data @ [view (b_heap st) (rh_buf h) ! 2]" "buf_reachable (put_handle i h' hp st)"
proof -
  let ?a = "abs_handle (b_heap st) h"
  obtain x y z where b: "view (b_heap st) (rh_buf h) = [x, y, z]"
    using assms(3) by (auto simp: numeral_3_eq_3 length_Suc_conv)
  have "handle_Write ?a data 0 = Some (?a\<lparr>h_buf := data @ [z], h_dirty := True\<rparr>, 2, OK)"
    using assms(4) by (subst handle_Write_ok) (simp_all add: b max_alloc_def copy_at_def copy_bytes_def numeral_3_eq_3 numeral_2_eq_2)
  with Write_follows(1) [OF inv_handle [OF buf_inv_reachable [OF assms(1)] assms(2)], of data 0]
  obtain h' hp where w: "ref_Write h data 0 (b_heap st) = Some (h', 2, OK, hp)"
    "abs_handle hp h' = ?a\<lparr>h_buf := data @ [z], h_dirty := True\<rparr>" by auto
  show thesis
    by (rule that [OF w(1) _ _ buf_reachable.step [OF assms(1) buf_step.wrote [OF assms(2) w(1)]]])
      (use arg_cong [where f = h_buf, OF w(2)] arg_cong [where f = h_dirty, OF w(2)] b in simp_all)
qed

theorem handed_out_never_changes_witness:
  "\<exists>st h v. buf_reachable st \<and> b_handles st 4 = Some h \<and> view (b_heap st) (rh_buf h) = ''PQd'' \<and>
    b_commits st 9 = Some (4, v, ''XYd'') \<and> view_part (b_heap st) v = ''XYd'' \<and>
    view (b_heap st) (Some old_part) = ''old'' \<and> abs_snap (b_heap st) loaded_snap = demo_snap"
proof -
  have old: "view (b_heap read_state) (rh_buf open_handle) = ''old''"
    by (simp add: read_state_sel open_handle_def ref_newHandle_def old_part_def view_part_def)
  obtain h1 n hp1 where 1: "rh_dirty h1" "view hp1 (rh_buf h1) = ''XYd''" "buf_reachable (put_handle 4 h1 hp1 read_state)"
    by (rule write_at_start [OF read_state_reachable read_state_sel(1), where data = "''XY''"]) (simp_all add: old numeral_3_eq_3)
  let ?s1 = "put_handle 4 h1 hp1 read_state"
  have ok: "handle_ok hp1 h1" using inv_handle [OF buf_inv_reachable [OF 1(3)], of 4 h1] by simp
  obtain v l hp2 where c: "ref_commit_begin h1 hp1 = Some (Some (v, l), hp2)" "view_part hp2 v = ''XYd''"
    using commit_begin_abs [OF ok] 1(1,2) by (fastforce simp: commit_begin_def max_alloc_def)
  let ?s2 = "?s1\<lparr>b_heap := hp2, b_commits := (b_commits ?s1)(9 := Some (4, v, ''XYd''))\<rparr>"
  have r2: "buf_reachable ?s2"
    using buf_reachable.step [OF 1(3) buf_step.committing [of ?s1 4 h1 9 v l hp2]] c(1) 1(2) by (simp add: read_state_sel)
  have "view hp2 (rh_buf h1) = ''XYd''"
    using view_grows [OF _ commit_begin_follows(1) [OF ok c(1)]] ok 1(2) by (simp add: handle_ok_def)
  then have "view (b_heap ?s2) (rh_buf h1) = ''XYd''" by simp
  then obtain h3 n3 hp3 where 3: "view hp3 (rh_buf h3) = ''PQd''" "buf_reachable (put_handle 4 h3 hp3 ?s2)"
    by - (rule write_at_start [OF r2, of 4 h1 "''PQ''"], simp_all add: numeral_3_eq_3 numeral_2_eq_2)
  let ?s3 = "put_handle 4 h3 hp3 ?s2"
  have s3: "b_commits ?s3 9 = Some (4, v, ''XYd'')" "(Some old_part, ''old'') \<in> b_replies ?s3"
    "(loaded_snap, demo_snap) \<in> b_seen ?s3" using read_state_sel(2,3) by simp_all
  have "view_part hp3 v = ''XYd'' \<and> view hp3 (Some old_part) = ''old'' \<and> abs_snap hp3 loaded_snap = demo_snap"
    using handed_out_never_changes [OF 3(2)] s3 by fastforce
  with 3 s3(1) show ?thesis by (intro exI [of _ ?s3]) simp
qed

theorem buffers_refine_values_witness:
  "handle_Read (abs_handle (b_heap read_state) open_handle) 2 1 = ''ld'' \<and>
   commit_begin (abs_handle (b_heap read_state) open_handle) = None"
proof -
  have "view (b_heap read_state) (ref_Read open_handle 2 1) = ''ld''"
    by (simp add: read_state_sel ref_Read_def open_handle_def ref_newHandle_def old_part_def reslice_def view_part_def
        numeral_3_eq_3 numeral_2_eq_2)
  moreover have "\<not> rh_dirty open_handle" by (simp add: open_handle_def ref_newHandle_def)
  moreover have "ref_commit_begin open_handle (b_heap read_state) = Some (None, b_heap read_state)"
    using calculation(2) by (simp add: ref_commit_begin_def)
  ultimately show ?thesis
    using buffers_refine_values [OF read_state_reachable read_state_sel(1), where n = 2 and off = 1] by simp
qed

end
