(* ===== verification/CacheRaces.thy ===== *)
theory CacheRaces
  imports Commits
begin

text \<open>
  The cache under load: the watch loop, every \<open>open\<close> and lock request (\<open>Fresh\<close>) and every commit of
  one mount run on goroutines of their own and share the cache of the mount. Its pointer is atomic,
  so a \<open>Load\<close> and a \<open>Store\<close> are one step each; but \<open>setFromWatch\<close> is a \<open>Load\<close> and then a \<open>Store\<close>,
  \<open>Fresh\<close> a request and then a \<open>Store\<close>, and \<open>Commit\<close> a check, a request, a \<open>Load\<close> and a \<open>Store\<close>, and
  anything may happen in between. The object is the list of what each accepted write left, the oldest
  first. A write that changes something makes a new resource version, larger than the ones before, which
  is what \<open>setFromWatch\<close> relies on; a patch that changes nothing need not. A patch of a \<open>SecretStore\<close>
  sends a nil slice as \<open>null\<close>, which stores nothing. The fence of a commit is left to \<open>Commits\<close>: here
  every commit passes it.
\<close>

text \<open>Where a goroutine is: after the reply to \<open>Fresh\<close>'s request; in \<open>Commit\<close> after the size check,
  after the patch, and after \<open>Current\<close>; with a decoded event before and after the check of
  \<open>setFromWatch\<close>.\<close>

datatype task =
    Resting
  | Replied snapshot
  | Sized "(string, slice) fmap" "string list"
  | Merged "(string, slice) fmap" "string list"
  | Loaded snapshot "(string, slice) fmap" "string list"
  | Received snapshot
  | Newer snapshot

text \<open>\<open>ra_nils\<close> remembers the keys that a commit has sent as \<open>null\<close> for a nil slice.\<close>

record races =
  ra_history :: "(data \<times> bool) list"
  ra_nils :: "string set"
  ra_cache :: cache
  ra_now :: time
  ra_task :: "nat \<Rightarrow> task"

text \<open>The resource version after the write \<open>n\<close>: the writes up to it that made a new one.\<close>

definition rv :: "(data \<times> bool) list \<Rightarrow> nat \<Rightarrow> nat" where
  "rv h n = length (filter snd (take n (tl h)))"

definition version_of :: "(data \<times> bool) list \<Rightarrow> time \<Rightarrow> nat \<Rightarrow> snapshot" where
  "version_of h t n = \<lparr>Data = fst (h ! n), ResourceVersion = decimal (rv h n), FetchedAt = t\<rparr>"

definition newest :: "races \<Rightarrow> nat" where
  "newest s = length (ra_history s) - 1"

definition present :: "races \<Rightarrow> data" where
  "present s = fst (last (ra_history s))"

definition busy :: "nat \<Rightarrow> task \<Rightarrow> races \<Rightarrow> races" where
  "busy g p s = s\<lparr>ra_task := (ra_task s)(g := p)\<rparr>"

definition stored :: "data \<Rightarrow> bool \<Rightarrow> races \<Rightarrow> races" where
  "stored d new s = s\<lparr>ra_history := ra_history s @ [(d, new)]\<rparr>"

text \<open>What the server makes of the patch of a store: for a Secret, a nil slice is a \<open>null\<close>, which removes
  the key.\<close>

definition applied :: "store \<Rightarrow> data \<Rightarrow> (string, slice) fmap \<Rightarrow> string list \<Rightarrow> data" where
  "applied st d puts del =
     (case st of
        SecretStore ns name \<Rightarrow> fmfilter (\<lambda>k. fmlookup puts k \<noteq> Some None) (with_data d puts del)
      | ConfigMapStore ns name \<Rightarrow> with_data d puts del)"

definition nil_keys :: "store \<Rightarrow> (string, slice) fmap \<Rightarrow> string set" where
  "nil_keys st puts =
     (case st of
        SecretStore ns name \<Rightarrow> {k \<in> fset (fmdom puts). fmlookup puts k = Some None}
      | ConfigMapStore ns name \<Rightarrow> {})"

definition patched_object :: "data \<Rightarrow> bool \<Rightarrow> (string, slice) fmap \<Rightarrow> races \<Rightarrow> races" where
  "patched_object d new puts s =
     (stored d new s)\<lparr>ra_nils := ra_nils s \<union> nil_keys (c_store (ra_cache s)) puts\<rparr>"

text \<open>\<open>Cache.Set\<close>, and the goroutine is done.\<close>

definition installs :: "nat \<Rightarrow> snapshot \<Rightarrow> races \<Rightarrow> races" where
  "installs g snap s = busy g Resting (s\<lparr>ra_cache := cache_Set (ra_cache s) (ra_now s) (Some snap)\<rparr>)"

text \<open>What \<open>setFromWatch\<close> finds when it looks at the cache.\<close>

definition is_stale :: "cache \<Rightarrow> snapshot \<Rightarrow> bool" where
  "is_stale c snap = (case cache_Current c of None \<Rightarrow> False | Some cur \<Rightarrow> stale_event cur snap)"

text \<open>The steps of a commit. A patch that the server refused, or whose reply was lost, ends it; the object
  that a lost reply has changed is the work of \<open>elsewhere\<close> below.\<close>

inductive commit_step :: "races \<Rightarrow> races \<Rightarrow> bool" where
  sized: "ra_task s g = Resting \<Longrightarrow> writes puts del \<Longrightarrow> checkSize (ra_cache s) puts del = Inr () \<Longrightarrow>
    commit_step s (busy g (Sized puts del) s)"
| merged: "ra_task s g = Sized puts del \<Longrightarrow> d = applied (c_store (ra_cache s)) (present s) puts del \<Longrightarrow>
    new \<or> d = present s \<Longrightarrow> commit_step s (busy g (Merged puts del) (patched_object d new puts s))"
| not_merged: "ra_task s g = Sized puts del \<Longrightarrow> commit_step s (busy g Resting s)"
| load: "ra_task s g = Merged puts del \<Longrightarrow> cache_Current (ra_cache s) = Some cur \<Longrightarrow>
    commit_step s (busy g (Loaded cur puts del) s)"
| load_nil: "ra_task s g = Merged puts del \<Longrightarrow> cache_Current (ra_cache s) = None \<Longrightarrow>
    commit_step s (busy g Resting s)"
| commit_set: "ra_task s g = Loaded cur puts del \<Longrightarrow> commit_step s (installs g (snap_With cur puts del) s)"

text \<open>The steps of the others: quorum reads, the watch loop, other clients and the clock.\<close>

inductive race_step :: "races \<Rightarrow> races \<Rightarrow> bool" where
  tick: "ra_now s \<le> t \<Longrightarrow> race_step s (s\<lparr>ra_now := t\<rparr>)"
| elsewhere: "race_step s (stored d True s)"
| get: "ra_task s g = Resting \<Longrightarrow>
    race_step s (busy g (Replied (version_of (ra_history s) (ra_now s) (newest s))) s)"
| fresh_set: "ra_task s g = Replied snap \<Longrightarrow> race_step s (installs g snap s)"
| commits: "commit_step s s' \<Longrightarrow> race_step s s'"
| event: "ra_task s g = Resting \<Longrightarrow> n \<le> newest s \<Longrightarrow>
    race_step s (busy g (Received (version_of (ra_history s) (ra_now s) n)) s)"
| stale: "ra_task s g = Received snap \<Longrightarrow> is_stale (ra_cache s) snap \<Longrightarrow> race_step s (busy g Resting s)"
| newer: "ra_task s g = Received snap \<Longrightarrow> \<not> is_stale (ra_cache s) snap \<Longrightarrow>
    race_step s (busy g (Newer snap) s)"
| watch_set: "ra_task s g = Newer snap \<Longrightarrow> race_step s (installs g snap s)"

definition races_start :: "data \<Rightarrow> store \<Rightarrow> duration \<Rightarrow> races" where
  "races_start d st bound = \<lparr>ra_history = [(d, True)], ra_nils = {}, ra_cache = NewCache st bound, ra_now = 0, ra_task = (\<lambda>_. Resting)\<rparr>"

inductive race_reachable :: "data \<Rightarrow> store \<Rightarrow> duration \<Rightarrow> races \<Rightarrow> bool" for d st bound where
  start: "race_reachable d st bound (races_start d st bound)"
| step: "race_reachable d st bound s \<Longrightarrow> race_step s s' \<Longrightarrow> race_reachable d st bound s'"

inductive_cases commit_stepE [consumes 1, case_names sized merged not_merged load load_nil commit_set]: "commit_step s s'"

inductive_cases race_stepE [consumes 1, case_names tick elsewhere get fresh_set commits event stale newer watch_set]:
  "race_step s s'"

lemma races_simps [simp]:
  "ra_history (busy g p s) = ra_history s" "ra_cache (busy g p s) = ra_cache s" "ra_now (busy g p s) = ra_now s"
  "ra_task (busy g p s) = (ra_task s)(g := p)" "ra_nils (busy g p s) = ra_nils s"
  "ra_task (stored d b s) = ra_task s" "ra_now (stored d b s) = ra_now s" "ra_nils (stored d b s) = ra_nils s"
  "ra_history (stored d b s) = ra_history s @ [(d, b)]" "ra_cache (stored d b s) = ra_cache s"
  "ra_history (installs g snap s) = ra_history s" "ra_now (installs g snap s) = ra_now s"
  "ra_nils (installs g snap s) = ra_nils s" "c_store (ra_cache (installs g snap s)) = c_store (ra_cache s)"
  "cache_Current (ra_cache (installs g snap s)) = Some snap" "ra_task (installs g snap s) = (ra_task s)(g := Resting)"
  "newest (busy g p s) = newest s" "newest (installs g snap s) = newest s" "newest (s\<lparr>ra_now := t\<rparr>) = newest s"
  "present (busy g p s) = present s" "present (stored d b s) = d"
  by (simp_all add: busy_def stored_def installs_def newest_def present_def)

lemma patched_object_simps [simp]:
  "ra_history (patched_object d b puts s) = ra_history s @ [(d, b)]" "ra_task (patched_object d b puts s) = ra_task s"
  "ra_nils (patched_object d b puts s) = ra_nils s \<union> nil_keys (c_store (ra_cache s)) puts"
  "ra_cache (patched_object d b puts s) = ra_cache s" "ra_now (patched_object d b puts s) = ra_now s"
  "present (patched_object d b puts s) = d"
  by (simp_all add: patched_object_def stored_def present_def)

lemma rv_mono: "m \<le> n \<Longrightarrow> rv h m \<le> rv h n"
  by (auto simp: rv_def take_add dest!: le_Suc_ex)

lemma rv_le: "rv h n \<le> n"
  unfolding rv_def by (metis le_trans length_filter_le length_take min.cobounded2)

lemma rv_append: "n < length h \<Longrightarrow> rv (h @ h') n = rv h n"
  by (cases h) (auto simp: rv_def)

lemma version_of_append: "n < length h \<Longrightarrow> version_of (h @ h') t n = version_of h t n"
  by (simp add: version_of_def rv_append nth_append)

section \<open>The pieces are the functions\<close>

text \<open>Undisturbed, the steps of one goroutine are the function they are taken from.\<close>

lemma steps_of_setFromWatch:
  "cache_setFromWatch c t (Some snap) = (if is_stale c snap then c else cache_Set c t (Some snap))"
  by (simp add: cache_setFromWatch_def is_stale_def cache_Current_def split: option.splits)

lemma steps_of_Fresh:
  assumes "store_Get K (c_store (ra_cache s)) w = (Inr snap, w1)" and "api_now K w1 = ra_now s"
  shows "cache_Fresh K (ra_cache s) w = (Inr snap, ra_cache (installs g snap s), w1)"
  using assms by (simp add: cache_Fresh_def installs_def busy_def)

lemma steps_of_Commit:
  assumes "writes puts del" and "\<not> fenced lease" and "checkSize (ra_cache s) puts del = Inr ()"
    and "store_Patch K (c_store (ra_cache s)) puts del w = (Inr (), w1)" and "api_now K w1 = ra_now s"
    and "cache_Current (ra_cache s) = Some cur"
  shows "Commit K (ra_cache s) lease puts del w = (Inr (), ra_cache (installs g (snap_With cur puts del) s), w1)"
  using assms by (simp add: Commit_patch [OF assms(1-4)] installs_def busy_def)

lemma version_of_Decode:
  "secret_Decode t (SecretObj \<lparr>sec_Data = fst (h ! n), sec_rv = decimal (rv h n)\<rparr>) = Inr (version_of h t n)"
  by (simp add: secret_Decode_def version_of_def)

text \<open>What the server stores is the merge of the body that the store sends.\<close>

lemma fmlookup_applied:
  "fmlookup (applied st d puts del) k =
     (if (\<exists>ns name. st = SecretStore ns name) \<and> fmlookup puts k = Some None then None
      else fmlookup (with_data d puts del) k)"
  by (cases st) (simp_all add: applied_def)

lemma applied_is_merge:
  "secret_doc s' = merge_doc (secret_body puts del) (secret_doc s) \<Longrightarrow>
     sec_Data s' = applied (SecretStore ns name) (sec_Data s) puts del"
  "configmap_valid c \<Longrightarrow> configmap_doc c' = merge_doc (configmap_body puts del) (configmap_doc c) \<Longrightarrow>
     configmap_contents c' = applied (ConfigMapStore ns name) (configmap_contents c) puts del"
proof -
  show "sec_Data s' = applied (SecretStore ns name) (sec_Data s) puts del"
    if m: "secret_doc s' = merge_doc (secret_body puts del) (secret_doc s)"
    by (rule fmap_ext) (auto simp: secret_patch_lookup [OF m] fmlookup_applied fmlookup_with_data slice_bytes_def
        split: option.splits)
  show "configmap_contents c' = applied (ConfigMapStore ns name) (configmap_contents c) puts del"
    if "configmap_valid c" and m: "configmap_doc c' = merge_doc (configmap_body puts del) (configmap_doc c)"
    using that(1)
    by (intro fmap_ext) (auto simp: configmap_patch_lookup [OF m] fmlookup_configmap_contents fmlookup_applied
        fmlookup_with_data configmap_valid_iff slice_bytes_def split: option.splits)
qed

section \<open>What is cached was stored\<close>

text \<open>Every key of the snapshot reads as it did in some version of the object, or as an empty file where a
  nil slice was written; and a snapshot with a version is that version.\<close>

definition were_stored :: "(data \<times> bool) list \<Rightarrow> string set \<Rightarrow> snapshot \<Rightarrow> bool" where
  "were_stored h ks snap \<longleftrightarrow>
     (\<forall>k. (\<exists>v \<in> set h. snap_Get snap k = fmlookup (fst v) k) \<or> snap_Get snap k = Some [] \<and> k \<in> ks)"

definition is_version :: "(data \<times> bool) list \<Rightarrow> snapshot \<Rightarrow> bool" where
  "is_version h snap \<longleftrightarrow>
     (ResourceVersion snap \<noteq> '''' \<longrightarrow>
       (\<exists>n < length h. ResourceVersion snap = decimal (rv h n) \<and> Data snap = fst (h ! n)))"

definition good :: "(data \<times> bool) list \<Rightarrow> string set \<Rightarrow> snapshot \<Rightarrow> bool" where
  "good h ks snap \<longleftrightarrow> were_stored h ks snap \<and> is_version h snap"

text \<open>The patch of the commit was applied to make one of the versions.\<close>

definition was_merged :: "(data \<times> bool) list \<Rightarrow> string set \<Rightarrow> (string, slice) fmap \<Rightarrow> string list \<Rightarrow> bool" where
  "was_merged h ks puts del \<longleftrightarrow> (\<exists>st d b. (applied st d puts del, b) \<in> set h \<and> nil_keys st puts \<subseteq> ks)"

fun task_ok :: "(data \<times> bool) list \<Rightarrow> string set \<Rightarrow> task \<Rightarrow> bool" where
  "task_ok h ks Resting = True"
| "task_ok h ks (Replied snap) = good h ks snap"
| "task_ok h ks (Sized puts del) = True"
| "task_ok h ks (Merged puts del) = was_merged h ks puts del"
| "task_ok h ks (Loaded cur puts del) = (good h ks cur \<and> was_merged h ks puts del)"
| "task_ok h ks (Received snap) = good h ks snap"
| "task_ok h ks (Newer snap) = good h ks snap"

definition race_inv :: "races \<Rightarrow> bool" where
  "race_inv s \<longleftrightarrow> ra_history s \<noteq> [] \<and> (\<forall>g. task_ok (ra_history s) (ra_nils s) (ra_task s g)) \<and>
     (\<forall>cur. cache_Current (ra_cache s) = Some cur \<longrightarrow> good (ra_history s) (ra_nils s) cur) \<and>
     ((\<exists>ns name. c_store (ra_cache s) = SecretStore ns name) \<or> ra_nils s = {})"

lemma good_later:
  assumes "good h ks snap"
  shows "good (h @ [d]) (ks \<union> ks') snap"
proof -
  have "is_version (h @ [d]) snap"
    unfolding is_version_def
  proof
    assume "ResourceVersion snap \<noteq> ''''"
    with assms obtain n where "n < length h" "ResourceVersion snap = decimal (rv h n)" "Data snap = fst (h ! n)"
      by (auto simp: good_def is_version_def)
    then show "\<exists>n < length (h @ [d]). ResourceVersion snap = decimal (rv (h @ [d]) n) \<and> Data snap = fst ((h @ [d]) ! n)"
      by (intro exI [of _ n]) (simp add: rv_append nth_append)
  qed
  with assms show ?thesis by (auto simp: good_def were_stored_def)
qed

lemma was_merged_later: "was_merged h ks puts del \<Longrightarrow> was_merged (h @ [d]) (ks \<union> ks') puts del"
  unfolding was_merged_def set_append by blast

lemma task_ok_later: "task_ok h ks p \<Longrightarrow> task_ok (h @ [d]) (ks \<union> ks') p"
  by (cases p) (auto simp: good_later was_merged_later)

lemma good_version: "n < length h \<Longrightarrow> good h ks (version_of h t n)"
  by (auto simp: good_def were_stored_def is_version_def version_of_def snap_Get_def)

lemma good_With:
  assumes "good h ks cur" and "was_merged h ks puts del"
  shows "good h ks (snap_With cur puts del)"
proof -
  obtain st d b where d: "(applied st d puts del, b) \<in> set h" and n: "nil_keys st puts \<subseteq> ks"
    using assms(2) by (auto simp: was_merged_def)
  let ?new = "snap_With cur puts del"
  have "(\<exists>v \<in> set h. snap_Get ?new k = fmlookup (fst v) k) \<or> snap_Get ?new k = Some [] \<and> k \<in> ks" for k
  proof (cases "k \<in> set del \<or> fmlookup puts k \<noteq> None")
    case True
    then have "snap_Get ?new k = fmlookup (applied st d puts del) k \<or> snap_Get ?new k = Some [] \<and> k \<in> nil_keys st puts"
      by (auto simp: snap_Get_With fmlookup_applied fmlookup_with_data nil_keys_def slice_bytes_def fmlookup_dom_iff
          split: option.splits)
    with d n show ?thesis by fastforce
  next
    case False
    then have "snap_Get ?new k = snap_Get cur k" by (simp add: snap_Get_With)
    with assms(1) show ?thesis by (simp add: good_def were_stored_def)
  qed
  then show ?thesis by (simp add: good_def were_stored_def is_version_def)
qed

lemma race_inv_busy: "race_inv s \<Longrightarrow> task_ok (ra_history s) (ra_nils s) p \<Longrightarrow> race_inv (busy g p s)"
  by (simp add: race_inv_def)

lemma race_inv_stored: "race_inv s \<Longrightarrow> race_inv (stored d b s)"
  using task_ok_later [where ks' = "{}"] good_later [where ks' = "{}"] by (simp add: race_inv_def)

lemma race_inv_patched: "race_inv s \<Longrightarrow> race_inv (patched_object d b puts s)"
  by (auto simp: race_inv_def task_ok_later good_later nil_keys_def split: store.splits)

lemma race_inv_installs: "race_inv s \<Longrightarrow> good (ra_history s) (ra_nils s) snap \<Longrightarrow> race_inv (installs g snap s)"
  by (simp add: race_inv_def)

lemma race_inv_tick [simp]: "race_inv (s\<lparr>ra_now := t\<rparr>) = race_inv s"
  by (simp add: race_inv_def)

lemmas race_inv_moves = race_inv_busy race_inv_stored race_inv_patched race_inv_installs

lemma race_inv_task: "race_inv s \<Longrightarrow> ra_task s g = p \<Longrightarrow> task_ok (ra_history s) (ra_nils s) p"
  by (auto simp: race_inv_def)

lemma good_served: "race_inv s \<Longrightarrow> n \<le> newest s \<Longrightarrow> good (ra_history s) (ra_nils s) (version_of (ra_history s) t n)"
  by (rule good_version) (auto simp: race_inv_def newest_def Suc_le_eq [symmetric] simp flip: length_greater_0_conv)

lemma race_inv_commit_step:
  assumes "commit_step s s'" and inv: "race_inv s"
  shows "race_inv s'"
  using assms(1)
proof (cases rule: commit_stepE)
  case (merged g puts del new)
  let ?s = "patched_object (applied (c_store (ra_cache s)) (present s) puts del) new puts s"
  have "was_merged (ra_history ?s) (ra_nils ?s) puts del" unfolding was_merged_def by auto
  with merged inv show ?thesis by (auto intro!: race_inv_moves)
next
  case (load g puts del cur)
  with inv race_inv_task [OF inv load(2)] show ?thesis
    by (auto intro!: race_inv_moves) (simp add: race_inv_def)
qed (use inv in \<open>auto simp: good_With intro!: race_inv_moves dest!: race_inv_task [OF inv]\<close>)

lemma race_inv_step:
  assumes "race_step s s'" and inv: "race_inv s"
  shows "race_inv s'"
  using assms(1)
proof (cases rule: race_stepE)
  case commits
  then show ?thesis using inv by (rule race_inv_commit_step)
qed (use inv in \<open>auto simp: good_served intro!: race_inv_moves dest!: race_inv_task [OF inv]\<close>)

lemma race_inv_reachable: "race_reachable d st bound s \<Longrightarrow> race_inv s"
proof (induction rule: race_reachable.induct)
  case start
  show ?case by (simp add: race_inv_def races_start_def NewCache_def cache_Current_def)
qed (rule race_inv_step)

lemma same_store: "race_reachable d st bound s \<Longrightarrow> c_store (ra_cache s) = st"
proof (induction rule: race_reachable.induct)
  case (step s s')
  from step.hyps(2) have "c_store (ra_cache s') = c_store (ra_cache s)"
    by (cases rule: race_stepE) (auto elim: commit_stepE)
  with step.IH show ?case by simp
qed (simp add: races_start_def NewCache_def)

text \<open>C13: in every interleaving of quorum reads, commits, watch events and writes of other clients, each
  key of the cached snapshot reads as it did in some version of the object, except that a key of a Secret
  which a commit wrote as a nil slice may read as an empty file; for a ConfigMap there is no exception. A
  cached snapshot that has a version is exactly that version of the object.\<close>

theorem cached_values_were_stored:
  assumes "race_reachable d st bound s" and "cache_Current (ra_cache s) = Some cur"
  shows "((\<exists>v \<in> set (ra_history s). snap_Get cur k = fmlookup (fst v) k) \<or> snap_Get cur k = Some [] \<and> k \<in> ra_nils s) \<and>
    ((\<exists>ns name. st = SecretStore ns name) \<or> ra_nils s = {}) \<and>
    (ResourceVersion cur \<noteq> '''' \<longrightarrow>
      (\<exists>n < length (ra_history s). ResourceVersion cur = decimal (rv (ra_history s) n) \<and> Data cur = fst (ra_history s ! n)))"
  using race_inv_reachable [OF assms(1)] same_store [OF assms(1)] assms(2)
  by (simp add: race_inv_def good_def were_stored_def is_version_def)

section \<open>With nothing in flight the cache stays at the newest version\<close>

definition shows_newest :: "races \<Rightarrow> bool" where
  "shows_newest s \<longleftrightarrow> (\<exists>cur. cache_Current (ra_cache s) = Some cur \<and>
     ResourceVersion cur = decimal (rv (ra_history s) (newest s)) \<and> Data cur = fst (ra_history s ! newest s))"

text \<open>No goroutine is between its \<open>Load\<close>, or its request, and its \<open>Store\<close>.\<close>

definition nothing_in_flight :: "races \<Rightarrow> bool" where
  "nothing_in_flight s \<longleftrightarrow> (\<forall>g. ra_task s g = Resting)"

fun settled_task :: "races \<Rightarrow> task \<Rightarrow> bool" where
  "settled_task s (Replied snap) = (\<exists>t. snap = version_of (ra_history s) t (newest s))"
| "settled_task s (Received snap) = (\<exists>t n. n \<le> newest s \<and> snap = version_of (ra_history s) t n)"
| "settled_task s Resting = True"
| "settled_task s (Sized puts del) = True"
| "settled_task s _ = False"

definition settled :: "races \<Rightarrow> bool" where
  "settled s \<longleftrightarrow> shows_newest s \<and> (\<forall>g. settled_task s (ra_task s g))"

lemma history_grows: "race_step s s' \<Longrightarrow> \<exists>ds. ra_history s' = ra_history s @ ds"
  by (erule race_stepE) (auto elim: commit_stepE)

lemma history_grows_steps: "race_step\<^sup>*\<^sup>* s s' \<Longrightarrow> \<exists>ds. ra_history s' = ra_history s @ ds"
proof (induction rule: rtranclp_induct)
  case (step s1 s2)
  then show ?case using history_grows [of s1 s2] by (metis append.assoc)
qed simp

lemma settled_stale:
  assumes "shows_newest s" "n \<le> newest s" "newest s < 2 ^ 64"
  shows "is_stale (ra_cache s) (version_of (ra_history s) t n)"
proof -
  let ?h = "ra_history s"
  have "rv ?h n \<le> rv ?h (newest s)" "rv ?h (newest s) < 2 ^ 64"
    using assms(2,3) rv_mono [of n "newest s" ?h] rv_le [of ?h "newest s"] by simp_all
  moreover from this have "ParseUint (decimal (rv ?h n)) 10 64 = Some (rv ?h n)"
    "ParseUint (decimal (rv ?h (newest s))) 10 64 = Some (rv ?h (newest s))"
    by (auto intro: ParseUint_decimal)
  ultimately show ?thesis using assms(1)
    by (auto simp: shows_newest_def is_stale_def stale_event_def version_of_def)
qed

lemma settled_task_frame:
  "ra_history s' = ra_history s \<Longrightarrow> settled_task s' p = settled_task s p"
  by (cases p) (simp_all add: newest_def)

lemma shows_newest_installs: "shows_newest (installs g (version_of (ra_history s) t (newest s)) s)"
  by (simp add: shows_newest_def version_of_def)

lemma shows_newest_frame:
  "cache_Current (ra_cache s') = cache_Current (ra_cache s) \<Longrightarrow> ra_history s' = ra_history s \<Longrightarrow>
   shows_newest s' = shows_newest s"
  by (simp add: shows_newest_def newest_def)

lemma settled_busy: "settled s \<Longrightarrow> settled_task s p \<Longrightarrow> settled (busy g p s)"
  using settled_task_frame [of "busy g p s" s] shows_newest_frame [of "busy g p s" s] by (simp add: settled_def)

lemma settled_installs:
  "settled s \<Longrightarrow> settled (installs g (version_of (ra_history s) t (newest s)) s)"
  using settled_task_frame [of "installs g (version_of (ra_history s) t (newest s)) s" s]
  by (simp add: settled_def shows_newest_installs)

lemma settled_tick: "settled s \<Longrightarrow> settled (s\<lparr>ra_now := t\<rparr>)"
  using settled_task_frame [of "s\<lparr>ra_now := t\<rparr>" s] shows_newest_frame [of "s\<lparr>ra_now := t\<rparr>" s] by (simp add: settled_def)

lemma settled_commit_step:
  assumes "commit_step s s'" and s: "settled s" and h: "ra_history s' = ra_history s"
  shows "settled s'"
proof -
  have t: "settled_task s (ra_task s g)" for g using s by (simp add: settled_def)
  show ?thesis
    using assms(1)
    by (cases rule: commit_stepE)
      (use s h t in \<open>auto intro!: settled_busy dest: arg_cong [where f = "settled_task s"]\<close>)
qed

lemma settled_step:
  assumes "race_step s s'" and s: "settled s" and n: "newest s < 2 ^ 64" and h: "ra_history s' = ra_history s"
  shows "settled s'"
proof -
  have t: "settled_task s (ra_task s g)" for g using s by (simp add: settled_def)
  show ?thesis
    using assms(1)
  proof (cases rule: race_stepE)
    case (fresh_set g snap)
    then show ?thesis using t [of g] s by (auto intro: settled_installs)
  next
    case commits
    then show ?thesis using s h by (rule settled_commit_step)
  next
    case (newer g snap)
    then show ?thesis using t [of g] s n settled_stale [of s] by (auto simp: settled_def)
  next
    case (event g k)
    then have "settled_task s (Received (version_of (ra_history s) (ra_now s) k))" by auto
    with event s show ?thesis by (simp add: settled_busy)
  qed (use s h t in \<open>auto intro!: settled_busy settled_tick dest: arg_cong [where f = "settled_task s"]\<close>)
qed

text \<open>C24: once the cache shows the newest version and no goroutine is between a look and a store, only a
  new write of the object changes what it shows: no quorum read, watch event, however late, or refused
  commit that starts later puts it back.\<close>

theorem quiet_cache_stays_newest:
  assumes "shows_newest s" and "nothing_in_flight s" and "length (ra_history s) < 2 ^ 64"
    and "race_step\<^sup>*\<^sup>* s s'" and "ra_history s' = ra_history s"
  shows "shows_newest s'"
proof -
  have "settled s" using assms(1,2) by (simp add: settled_def nothing_in_flight_def)
  have "ra_history s' = ra_history s \<longrightarrow> settled s'"
    using assms(4)
  proof (induction rule: rtranclp_induct)
    case (step s1 s2)
    obtain d1 d2 where d: "ra_history s1 = ra_history s @ d1" "ra_history s2 = ra_history s1 @ d2"
      using history_grows_steps [OF step.hyps(1)] history_grows [OF step.hyps(2)] by blast
    show ?case
    proof
      assume "ra_history s2 = ra_history s"
      with d have h: "ra_history s1 = ra_history s" "ra_history s2 = ra_history s1" by auto
      have "newest s1 < 2 ^ 64" using assms(3) h by (simp add: newest_def)
      with step h show "settled s2" by (auto intro: settled_step)
    qed
  qed (use \<open>settled s\<close> in simp)
  with assms(5) show ?thesis by (simp add: settled_def)
qed

section \<open>What overlapping stores can lose\<close>

lemma installs_busy [simp]: "installs g snap (busy g p s) = installs g snap s"
  by (simp add: installs_def busy_def)

lemma reach_fresh:
  assumes "race_reachable d st bound s" and "ra_task s g = Resting"
  shows "race_reachable d st bound (installs g (version_of (ra_history s) (ra_now s) (newest s)) s)"
  using race_reachable.step [OF race_reachable.step [OF assms(1) get [OF assms(2)]] fresh_set [of _ g]] by simp

lemma reach_newer:
  assumes "race_reachable d st bound s" and "ra_task s g = Resting" and "n \<le> newest s"
    and "\<not> is_stale (ra_cache s) (version_of (ra_history s) (ra_now s) n)"
  shows "race_reachable d st bound (busy g (Newer (version_of (ra_history s) (ra_now s) n)) s)"
proof -
  let ?e = "version_of (ra_history s) (ra_now s) n"
  have "race_step (busy g (Received ?e) s) (busy g (Newer ?e) (busy g (Received ?e) s))"
    using assms(4) by (intro newer) simp_all
  moreover have "busy g (Newer ?e) (busy g (Received ?e) s) = busy g (Newer ?e) s" by (simp add: busy_def)
  ultimately show ?thesis
    using race_reachable.step [OF race_reachable.step [OF assms(1) event [OF assms(2,3)]]] by simp
qed

text \<open>The first \<open>Fresh\<close> of the loop.\<close>

definition first_read :: "data \<Rightarrow> store \<Rightarrow> duration \<Rightarrow> races" where
  "first_read d st bound = installs 0 (version_of [(d, True)] 0 0) (races_start d st bound)"

lemma first_read_simps [simp]:
  "ra_history (first_read d st bound) = [(d, True)]" "ra_task (first_read d st bound) g = Resting"
  "cache_Current (ra_cache (first_read d st bound)) = Some (version_of [(d, True)] 0 0)"
  "ra_nils (first_read d st bound) = {}" "c_store (ra_cache (first_read d st bound)) = st"
  "present (first_read d st bound) = d" "ra_now (first_read d st bound) = 0"
  by (simp_all add: first_read_def races_start_def present_def NewCache_def)

lemma reach_first_read: "race_reachable d st bound (first_read d st bound)"
  using reach_fresh [OF race_reachable.start, of d st bound 0] by (simp add: first_read_def races_start_def newest_def)

lemma stale_versions:
  "m < 2 ^ 64 \<Longrightarrow> n < 2 ^ 64 \<Longrightarrow> stale_event (version_of h t m) (version_of h' t' n) \<longleftrightarrow> rv h' n \<le> rv h m"
  using rv_le [of h m] rv_le [of h' n] by (simp add: stale_event_def version_of_def ParseUint_decimal)

lemma newest_stored [simp]: "newest (stored d b s) = length (ra_history s)"
  by (simp add: newest_def)

text \<open>The watch loop has looked at the cache and is about to store version 1; version 2 is written, and
  an open or a lock request reads and installs it.\<close>

definition overtaken :: "data \<Rightarrow> data \<Rightarrow> data \<Rightarrow> store \<Rightarrow> duration \<Rightarrow> races" where
  "overtaken d d1 d2 st bound =
     installs 1 (version_of [(d, True), (d1, True), (d2, True)] 0 2)
       (stored d2 True (busy 0 (Newer (version_of [(d, True), (d1, True)] 0 1)) (stored d1 True (first_read d st bound))))"

lemma reach_overtaken: "race_reachable d st bound (overtaken d d1 d2 st bound)"
proof -
  let ?a = "stored d1 True (first_read d st bound)"
  have "race_reachable d st bound ?a" by (rule race_reachable.step [OF reach_first_read elsewhere])
  from reach_newer [OF this, of 0 1] have
    "race_reachable d st bound (busy 0 (Newer (version_of [(d, True), (d1, True)] 0 1)) ?a)"
    by (simp add: is_stale_def stale_versions rv_def)
  from reach_fresh [OF race_reachable.step [OF this elsewhere [of _ d2]], of 1] show ?thesis
    by (simp add: overtaken_def numeral_2_eq_2)
qed

text \<open>C36: the check of \<open>setFromWatch\<close> and its store are not one step, so the race its comment describes is
  still there: a quorum read that falls between the two is overwritten by the older event, although the
  check, made at the moment of the store, would have dropped it.\<close>

theorem late_event_hides_fresh_read:
  "\<exists>s s' g cur old. race_reachable d st bound s \<and> cache_Current (ra_cache s) = Some cur \<and> shows_newest s \<and>
    ra_task s g = Newer old \<and> stale_event cur old \<and>
    race_step s s' \<and> ra_history s' = ra_history s \<and> cache_Current (ra_cache s') = Some old \<and>
    snap_Get cur ''token'' = Some ''new'' \<and> snap_Get old ''token'' = Some ''revoked''"
proof -
  let ?d1 = "fmupd ''token'' ''revoked'' d" and ?d2 = "fmupd ''token'' ''new'' d"
  let ?s = "overtaken d ?d1 ?d2 st bound"
    and ?cur = "version_of [(d, True), (?d1, True), (?d2, True)] 0 2" and ?old = "version_of [(d, True), (?d1, True)] 0 1"
  have t: "ra_task ?s 0 = Newer ?old" and c: "cache_Current (ra_cache ?s) = Some ?cur"
    and h: "ra_history ?s = [(d, True), (?d1, True), (?d2, True)]" by (simp_all add: overtaken_def)
  have "race_step ?s (installs 0 ?old ?s)" by (rule watch_set [of ?s 0, OF t])
  moreover have "shows_newest ?s" by (simp add: shows_newest_def c h newest_def) (simp add: version_of_def numeral_2_eq_2)
  moreover have "stale_event ?cur ?old" by (simp add: stale_versions rv_def)
  moreover have "snap_Get ?cur ''token'' = Some ''new''" "snap_Get ?old ''token'' = Some ''revoked''"
    by (simp_all add: version_of_def snap_Get_def numeral_2_eq_2)
  moreover have "ra_history (installs 0 ?old ?s) = ra_history ?s"
    "cache_Current (ra_cache (installs 0 ?old ?s)) = Some ?old" by simp_all
  ultimately show ?thesis using reach_overtaken c t by blast
qed

text \<open>The reply to a quorum read, too, may be old when it is installed: \<open>Fresh\<close> does not compare.\<close>

definition slow_reply :: "data \<Rightarrow> data \<Rightarrow> store \<Rightarrow> duration \<Rightarrow> races" where
  "slow_reply d d1 st bound =
     installs 0 (version_of [(d, True), (d1, True)] 0 1)
       (stored d1 True (busy 1 (Replied (version_of [(d, True)] 0 0)) (first_read d st bound)))"

lemma reach_slow_reply: "race_reachable d st bound (slow_reply d d1 st bound)"
proof -
  let ?a = "busy 1 (Replied (version_of [(d, True)] 0 0)) (first_read d st bound)"
  have "race_reachable d st bound ?a"
    using race_reachable.step [OF reach_first_read get [of _ 1]] by (simp add: newest_def)
  then have "race_reachable d st bound (stored d1 True ?a)" by (rule race_reachable.step [OF _ elsewhere])
  from reach_newer [OF this, of 0 1] have
    r: "race_reachable d st bound (busy 0 (Newer (version_of [(d, True), (d1, True)] 0 1)) (stored d1 True ?a))"
    by (simp add: is_stale_def stale_versions rv_def)
  from race_reachable.step [OF r watch_set [of _ 0]] show ?thesis by (simp add: slow_reply_def)
qed

lemma late_reply_hides_newer_event:
  "\<exists>s s' g cur old. race_reachable d st bound s \<and> cache_Current (ra_cache s) = Some cur \<and> shows_newest s \<and>
    ra_task s g = Replied old \<and> stale_event cur old \<and>
    race_step s s' \<and> ra_history s' = ra_history s \<and> cache_Current (ra_cache s') = Some old"
proof -
  let ?s = "slow_reply d d st bound" and ?old = "version_of [(d, True)] 0 0"
  have t: "ra_task ?s 1 = Replied ?old" and c: "cache_Current (ra_cache ?s) = Some (version_of [(d, True), (d, True)] 0 1)"
    and h: "ra_history ?s = [(d, True), (d, True)]" by (simp_all add: slow_reply_def)
  have "race_step ?s (installs 1 ?old ?s)" by (rule fresh_set [of ?s 1, OF t])
  moreover have "shows_newest ?s" by (simp add: shows_newest_def c h newest_def) (simp add: version_of_def)
  moreover have "stale_event (version_of [(d, True), (d, True)] 0 1) ?old" by (simp add: stale_versions rv_def)
  moreover have "ra_history (installs 1 ?old ?s) = ra_history ?s"
    "cache_Current (ra_cache (installs 1 ?old ?s)) = Some ?old" by simp_all
  ultimately show ?thesis using reach_slow_reply c t by blast
qed

text \<open>Two commits on different keys, each with a snapshot of the time before the other's store.\<close>

definition one_put :: "string \<Rightarrow> bytes \<Rightarrow> (string, slice) fmap" where
  "one_put k v = fmupd k (Some v) fmempty"

definition two_commits :: "store \<Rightarrow> duration \<Rightarrow> races" where
  "two_commits st bound =
     (let old = version_of [(fmempty, True)] 0 0; a = one_put ''a'' ''1''; b = one_put ''b'' ''2'';
          d1 = with_data fmempty a []; d2 = with_data d1 b []
      in installs 1 (snap_With old b []) (installs 0 (snap_With old a [])
           (patched_object d2 True b (patched_object d1 True a (first_read fmempty st bound)))))"

lemma one_put_fits:
  assumes "cache_Current c = Some (version_of [(fmempty, True)] 0 0)" "length v \<le> MaxObjectBytes"
  shows "checkSize c (one_put k v) [] = Inr ()"
proof -
  have "with_data fmempty (one_put k v) [] = fmupd k v fmempty"
    by (rule fmap_ext) (simp add: one_put_def fmlookup_with_data)
  with assms show ?thesis
    by (simp add: checkSize_def snap_Size_sum version_of_def)
qed

lemma applied_one_put: "applied st d (one_put k v) [] = with_data d (one_put k v) []"
  by (rule fmap_ext) (simp add: fmlookup_applied one_put_def)

lemma reach_two_commits: "race_reachable fmempty st bound (two_commits st bound)"
proof -
  let ?s = "first_read fmempty st bound" and ?old = "version_of [(fmempty, True)] 0 0"
  let ?a = "one_put ''a'' ''1''" and ?b = "one_put ''b'' ''2''"
  let ?d1 = "with_data fmempty ?a []"
  let ?d2 = "with_data ?d1 ?b []"
  let ?s1 = "busy 0 (Sized ?a []) ?s"
  let ?s2 = "busy 1 (Sized ?b []) ?s1"
  let ?s3 = "busy 0 (Merged ?a []) (patched_object ?d1 True ?a ?s2)"
  let ?s4 = "busy 1 (Merged ?b []) (patched_object ?d2 True ?b ?s3)"
  let ?s5 = "busy 0 (Loaded ?old ?a []) ?s4"
  let ?s6 = "busy 1 (Loaded ?old ?b []) ?s5"
  have w: "writes ?a []" "writes ?b []" by (simp_all add: writes_def one_put_def)
  have "race_step ?s ?s1" "race_step ?s1 ?s2"
    by (rule commits, rule sized; simp add: w one_put_fits MaxObjectBytes_def)+
  moreover have "race_step ?s2 ?s3" by (rule commits, rule merged) (simp_all add: applied_one_put)
  moreover have "race_step ?s3 ?s4" by (rule commits, rule merged) (simp_all add: applied_one_put)
  moreover have "race_step ?s4 ?s5" by (rule commits, rule load) simp_all
  moreover have "race_step ?s5 ?s6" by (rule commits, rule load) simp_all
  moreover have "race_step ?s6 (installs 0 (snap_With ?old ?a []) ?s6)" by (rule commits, rule commit_set) simp
  moreover have "race_step (installs 0 (snap_With ?old ?a []) ?s6)
    (installs 1 (snap_With ?old ?b []) (installs 0 (snap_With ?old ?a []) ?s6))" by (rule commits, rule commit_set) simp
  ultimately have "race_reachable fmempty st bound
    (installs 1 (snap_With ?old ?b []) (installs 0 (snap_With ?old ?a []) ?s6))"
    using reach_first_read [of fmempty st bound] by (meson race_reachable.step)
  moreover have "installs 1 (snap_With ?old ?b []) (installs 0 (snap_With ?old ?a []) ?s6) = two_commits st bound"
    by (simp add: two_commits_def Let_def installs_def busy_def patched_object_def stored_def fun_eq_iff first_read_def races_start_def)
  ultimately show ?thesis by simp
qed

text \<open>The \<open>Current\<close> and the \<open>Set\<close> of \<open>Commit\<close> are not one step either: two handles commit different
  keys, both commits succeed and the object has both values, but the cache, with nothing in flight, lost
  one of them: its writer does not read its own write until the next event or quorum read.\<close>

theorem commits_hide_each_other:
  "\<exists>s cur. race_reachable fmempty st bound s \<and> nothing_in_flight s \<and> cache_Current (ra_cache s) = Some cur \<and>
    fmlookup (present s) ''a'' = Some ''1'' \<and> fmlookup (present s) ''b'' = Some ''2'' \<and>
    snap_Get cur ''a'' = None \<and> snap_Get cur ''b'' = Some ''2''"
proof -
  let ?s = "two_commits st bound" and ?cur = "snap_With (version_of [(fmempty, True)] 0 0) (one_put ''b'' ''2'') []"
  have "nothing_in_flight ?s" "cache_Current (ra_cache ?s) = Some ?cur"
    by (simp_all add: two_commits_def Let_def nothing_in_flight_def)
  moreover have "fmlookup (present ?s) ''a'' = Some ''1''" "fmlookup (present ?s) ''b'' = Some ''2''"
    by (simp_all add: two_commits_def Let_def present_def fmlookup_with_data one_put_def)
  moreover have "snap_Get ?cur ''a'' = None" "snap_Get ?cur ''b'' = Some ''2''"
    by (simp_all add: snap_Get_With one_put_def) (simp_all add: snap_Get_def version_of_def)
  ultimately show ?thesis using reach_two_commits by blast
qed

text \<open>The exception of the invariant is real: a commit of a nil slice on a Secret, which is what truncating a
  key that is gone to size zero makes, leaves an empty file in the cache that no version has.\<close>

theorem nil_write_shows_phantom:
  "\<exists>s cur. race_reachable fmempty (SecretStore ns name) bound s \<and> nothing_in_flight s \<and>
    cache_Current (ra_cache s) = Some cur \<and> snap_Get cur ''k'' = Some [] \<and>
    (\<forall>v \<in> set (ra_history s). fmlookup (fst v) ''k'' = None)"
proof -
  let ?puts = "fmupd ''k'' None fmempty :: (string, slice) fmap" and ?st = "SecretStore ns name"
  let ?old = "version_of [(fmempty, True)] 0 0" and ?s = "first_read fmempty (SecretStore ns name) bound"
  let ?s1 = "busy 0 (Sized ?puts []) ?s"
  let ?s2 = "busy 0 (Merged ?puts []) (patched_object fmempty False ?puts ?s1)"
  let ?s3 = "busy 0 (Loaded ?old ?puts []) ?s2"
  let ?s4 = "installs 0 (snap_With ?old ?puts []) ?s3"
  have a: "applied ?st fmempty ?puts [] = fmempty"
    by (rule fmap_ext) (simp add: fmlookup_applied fmlookup_with_data)
  have d: "with_data fmempty ?puts [] = fmupd ''k'' [] fmempty"
    by (rule fmap_ext) (simp add: fmlookup_with_data slice_bytes_def)
  have "race_step ?s ?s1"
    by (rule commits, rule sized) (simp_all add: writes_def checkSize_def snap_Size_sum version_of_def d)
  moreover have "race_step ?s1 ?s2" by (rule commits, rule merged) (simp_all add: a)
  moreover have "race_step ?s2 ?s3" by (rule commits, rule load) simp_all
  moreover have "race_step ?s3 ?s4" by (rule commits, rule commit_set) simp
  ultimately have "race_reachable fmempty ?st bound ?s4"
    using reach_first_read [of fmempty ?st bound] by (meson race_reachable.step)
  moreover have "nothing_in_flight ?s4" by (simp add: nothing_in_flight_def)
  moreover have "snap_Get (snap_With ?old ?puts []) ''k'' = Some []" by (simp add: snap_Get_With slice_bytes_def)
  moreover have "\<forall>v \<in> set (ra_history ?s4). fmlookup (fst v) ''k'' = None" by simp
  ultimately show ?thesis by (intro exI [of _ ?s4] exI [of _ "snap_With ?old ?puts []"]) simp
qed

theorem cached_values_were_stored_witness:
  "race_reachable (fmupd ''k'' ''v'' fmempty) (SecretStore ''app'' ''o'') 0
     (first_read (fmupd ''k'' ''v'' fmempty) (SecretStore ''app'' ''o'') 0) \<and>
   snap_Get (version_of [(fmupd ''k'' ''v'' fmempty, True)] 0 0) ''k'' = Some ''v''"
  using cached_values_were_stored [OF reach_first_read, of "fmupd ''k'' ''v'' fmempty"
      "SecretStore ''app'' ''o''" 0 _ "''k''"] reach_first_read by simp

theorem quiet_cache_stays_newest_witness:
  "shows_newest (busy 0 (Received (version_of [(fmempty, True)] 0 0)) (first_read fmempty (SecretStore ''app'' ''o'') 0))"
proof -
  let ?s = "first_read fmempty (SecretStore ''app'' ''o'') 0"
  have n: "shows_newest ?s" by (simp add: shows_newest_def newest_def version_of_def)
  have f: "nothing_in_flight ?s" by (simp add: nothing_in_flight_def)
  have "race_step\<^sup>*\<^sup>* ?s (busy 0 (Received (version_of [(fmempty, True)] 0 0)) ?s)"
    using event [of ?s 0 0] by (intro r_into_rtranclp) simp
  from quiet_cache_stays_newest [OF n f _ this] show ?thesis by simp
qed

end
