(* ===== verification/Handover.thy ===== *)
theory Handover
  imports Handles
begin

text \<open>
  What consumers on any nodes do with a shared file: lock it, read it, compute, rewrite it, unlock it. One
  such cycle is a sequence of the operations of \<open>handle.go\<close>; here they are run by pods one after the other, each
  on its own volume with its own, arbitrarily stale, cache. Together they are the abstract file that is
  updated by one atomic function after the other. That the sections of different pods do not overlap is
  the business of \<open>LeaseProtocol\<close>.
\<close>

definition rewrite :: "(bytes \<Rightarrow> bytes) \<Rightarrow> handle \<Rightarrow> handle option" where
  "rewrite f h =
     (let old = handle_Read h (length (h_buf h)) 0
      in Option.bind (handle_truncate h 0) (\<lambda>h1. map_option fst (handle_Write h1 (f old) 0)))"

definition cycle :: "'w kube \<Rightarrow> (bytes \<Rightarrow> bytes) \<Rightarrow> volume \<Rightarrow> handle \<Rightarrow> 'w \<Rightarrow> (errno \<times> 'w) option" where
  "cycle K f v h w =
     Option.bind (Setlkw K F_WRLCK FUSE_LK_FLOCK v h w) (\<lambda>(e, v1, h1, w1).
       if e \<noteq> OK then Some (e, w1)
       else Option.bind (rewrite f h1) (\<lambda>h2.
         case handle_unlock K v1 h2 w1 of (e2, v2, h3, w2) \<Rightarrow> Some (e2, w2)))"

fun cycles :: "'w kube \<Rightarrow> ((bytes \<Rightarrow> bytes) \<times> volume \<times> handle) list \<Rightarrow> 'w \<Rightarrow> (errno list \<times> 'w) option" where
  "cycles K [] w = Some ([], w)"
| "cycles K ((f, v, h) # ps) w =
     Option.bind (cycle K f v h w) (\<lambda>(e, w1). Option.bind (cycles K ps w1) (\<lambda>(es, w2). Some (e # es, w2)))"

text \<open>The abstract file: each update happens or does not.\<close>

fun updates :: "(bytes \<Rightarrow> bytes) list \<Rightarrow> errno list \<Rightarrow> bytes \<Rightarrow> bytes" where
  "updates (f # fs) (e # es) b = updates fs es (if e = OK then f b else b)"
| "updates _ _ b = b"

text \<open>A clean, unlocked handle of the file, in a volume on the object and its Lease.\<close>

definition at_rest :: "store \<Rightarrow> string \<Rightarrow> string \<Rightarrow> string \<Rightarrow> volume \<Rightarrow> handle \<Rightarrow> bool" where
  "at_rest st ns name k v h \<longleftrightarrow>
     volume_on v st ns name \<and> \<not> v_acquiring v \<and> h_lease h = None \<and> \<not> h_dirty h \<and> h_key h = k"

definition unheld :: "lease option \<Rightarrow> bool" where
  "unheld l \<longleftrightarrow> (\<forall>cur. l = Some cur \<longrightarrow> HolderIdentity cur = None)"

lemma unheld_lock_free: "unheld l \<Longrightarrow> lock_free m l"
  by (auto simp: unheld_def lock_free_def foreign_def)

lemma rewrite_result:
  assumes "length (f (h_buf h)) \<le> nat max_alloc"
  shows "\<exists>h2. rewrite f h = Some h2 \<and> h_buf h2 = f (h_buf h) \<and> h_dirty h2 \<and>
    h_lease h2 = h_lease h \<and> h_key h2 = h_key h"
proof -
  have r: "handle_Read h (length (h_buf h)) 0 = h_buf h" by (simp add: handle_Read_def)
  obtain h1 where t: "handle_truncate h 0 = Some h1" "h_buf h1 = []" "h_lease h1 = h_lease h" "h_key h1 = h_key h"
  proof (cases "h_buf h = []")
    case True
    then show ?thesis by (intro that [of h]) (simp_all add: handle_truncate_def wrap64_def)
  next
    case False
    have "make_bytes (uint (0 :: 64 word)) = Some []" by (simp add: make_bytes_def max_alloc_def)
    with False show ?thesis
      by (intro that [of "h\<lparr>h_buf := [], h_dirty := True\<rparr>"]) (simp_all add: handle_truncate_def wrap64_def copy_bytes_def)
  qed
  have "0 \<le> (0 :: int)" "0 + int (length (f (h_buf h))) \<le> max_alloc" "int (length (h_buf h1)) \<le> max_alloc"
    using assms t(2) by (simp_all add: max_alloc_def)
  from handle_Write_ok [OF this] show ?thesis
    using r t by (auto simp: rewrite_def copy_at_def copy_bytes_def)
qed

lemma cycle_result:
  assumes cl: "cluster K st ns name up contents lview" and "up w" and "unheld (lview w)"
    and p: "at_rest st ns name k v h" and f: "\<forall>b. length (f b) \<le> nat max_alloc"
  shows "\<exists>e w'. cycle K f v h w = Some (e, w') \<and> up w' \<and> unheld (lview w') \<and>
    contents w' = (if e = OK then fmupd k (f (file_of (contents w) k)) (contents w) else contents w)"
proof -
  have lk: "FUSE_LK_FLOCK AND FUSE_LK_FLOCK \<noteq> 0" "F_WRLCK \<noteq> F_UNLCK" by (simp_all add: FUSE_LK_FLOCK_def)
  have v: "volume_on v st ns name" "\<not> v_acquiring v" "h_lease h = None" "\<not> h_dirty h" "h_key h = k"
    using p by (simp_all add: at_rest_def)
  obtain v1 h1 m w1 where s: "setlk K F_WRLCK FUSE_LK_FLOCK True v h w = Some (OK, v1, h1, w1)" "up w1"
    "h_lease h1 = Some m" "Healthy m" "m_ns m = ns" "m_name m = name" "c_store (v_cache v1) = st"
    "owns m (lview w1)" "contents w1 = contents w" "h_buf h1 = file_of (contents w) k" "h_key h1 = k"
    using lock_result [OF cl v(1) \<open>up w\<close> lk v(3,2) unheld_lock_free [OF assms(3)], of True] v(4,5) by auto
  obtain h2 where r: "rewrite f h1 = Some h2" "h_buf h2 = f (file_of (contents w) k)" "h_dirty h2"
    "h_lease h2 = Some m" "h_key h2 = k"
    using rewrite_result [of f h1] f s(3,10,11) by auto
  obtain e v2 h3 w2 where u: "handle_unlock K v1 h2 w1 = (e, v2, h3, w2)" by (rule prod_cases4)
  have "m_held m" using s(4) by (simp add: Healthy_def)
  from unlock_result [OF cl s(7,2) r(4) s(5,6) this s(8) u] r s(9)
  have "up w2" "unheld (lview w2)"
    "contents w2 = (if e = OK then fmupd k (f (file_of (contents w) k)) (contents w) else contents w)"
    by (auto simp: unheld_def)
  with s(1) r(1) u show ?thesis by (auto simp: cycle_def Setlkw_def)
qed

text \<open>C2: read-modify-write under \<open>flock\<close> is atomic across the cluster: whatever pods run their cycles one
  after the other, on whatever nodes and with whatever stale caches, every cycle ends; each takes effect entirely or not
  at all, as its unlock reports; the file ends as the composition of the updates that were reported, so none is
  lost; no other file changes, and the Lease is free for the next.\<close>

theorem cycles_are_atomic:
  assumes cl: "cluster K st ns name up contents lview" and "up w" and "unheld (lview w)"
    and ps: "\<And>f v h. (f, v, h) \<in> set ps \<Longrightarrow> at_rest st ns name k v h \<and> (\<forall>b. length (f b) \<le> nat max_alloc)"
  shows "\<exists>es w'. cycles K ps w = Some (es, w') \<and> length es = length ps \<and> up w' \<and> unheld (lview w') \<and>
    file_of (contents w') k = updates (map fst ps) es (file_of (contents w) k) \<and>
    (\<forall>k'. k' \<noteq> k \<longrightarrow> fmlookup (contents w') k' = fmlookup (contents w) k')"
  using assms(2-4)
proof (induction ps arbitrary: w)
  case Nil
  then show ?case by simp
next
  case (Cons p ps)
  obtain f v h where p: "p = (f, v, h)" by (rule prod_cases3)
  have rest: "at_rest st ns name k v h" and len: "\<forall>b. length (f b) \<le> nat max_alloc"
    using Cons.prems(3) p by auto
  obtain e w1 where c: "cycle K f v h w = Some (e, w1)" "up w1" "unheld (lview w1)"
    "contents w1 = (if e = OK then fmupd k (f (file_of (contents w) k)) (contents w) else contents w)"
    using cycle_result [OF cl Cons.prems(1,2) rest len] by blast
  have one: "file_of (contents w1) k = (if e = OK then f (file_of (contents w) k) else file_of (contents w) k)"
    "k' \<noteq> k \<Longrightarrow> fmlookup (contents w1) k' = fmlookup (contents w) k'" for k'
    using c(4) by (simp_all add: file_of_def)
  obtain es w' where "cycles K ps w1 = Some (es, w')" "length es = length ps" "up w'" "unheld (lview w')"
    "file_of (contents w') k = updates (map fst ps) es (file_of (contents w1) k)"
    "\<And>k'. k' \<noteq> k \<Longrightarrow> fmlookup (contents w') k' = fmlookup (contents w1) k'"
    using Cons.IH [OF c(2,3)] Cons.prems(3) by force
  with c(1) p one show ?case by (intro exI [of _ "e # es"] exI [of _ w']) auto
qed

theorem cycles_are_atomic_witness:
  "\<exists>es w'. cycles ref_kube [(\<lambda>b. take 8 (b @ ''+''), demo_volume ''podA'', demo_handle),
      (\<lambda>b. take 8 (b @ ''-''), demo_volume ''podB'', demo_handle)] newer_world = Some (es, w') \<and> length es = 2 \<and>
    file_of (sec_Data (the (w_secret w'))) ''k'' = updates [\<lambda>b. take 8 (b @ ''+''), \<lambda>b. take 8 (b @ ''-'')] es ''new'' \<and>
    updates [\<lambda>b. take 8 (b @ ''+''), \<lambda>b. take 8 (b @ ''-'')] [OK, OK] ''new'' = ''new+-''"
proof -
  let ?ps = "[(\<lambda>b. take 8 (b @ ''+''), demo_volume ''podA'', demo_handle),
      (\<lambda>b. take 8 (b @ ''-''), demo_volume ''podB'', demo_handle)]"
  have r: "at_rest (SecretStore ''app'' ''o'') ''app'' ''roommate-o'' ''k'' (demo_volume uid) demo_handle" for uid
    by (simp add: at_rest_def)
  have ps: "at_rest (SecretStore ''app'' ''o'') ''app'' ''roommate-o'' ''k'' v h \<and> (\<forall>b. length (f b) \<le> nat max_alloc)"
    if "(f, v, h) \<in> set ?ps" for f v h
    using that r by (auto simp: max_alloc_def)
  have w: "\<not> w_denied newer_world \<and> w_secret newer_world \<noteq> None" "unheld (w_lease newer_world)"
    by (simp_all add: unheld_def)
  have m: "map fst ?ps = [\<lambda>b. take 8 (b @ ''+''), \<lambda>b. take 8 (b @ ''-'')]" by simp
  have n: "file_of (sec_Data (the (w_secret newer_world))) ''k'' = ''new''" by (simp add: file_of_def)
  obtain es w' where "cycles ref_kube ?ps newer_world = Some (es, w')" "length es = length ?ps"
    "file_of (sec_Data (the (w_secret w'))) ''k'' = updates (map fst ?ps) es ''new''"
    using cycles_are_atomic [OF ref_cluster w, of ?ps, OF ps] unfolding n by blast
  then show ?thesis unfolding m by (intro exI [of _ es] exI [of _ w']) simp
qed

end
