(* ===== verification/Sections.thy ===== *)
theory Sections
  imports LeaseProtocol Handles
begin

text \<open>
  Critical sections under \<open>flock\<close> with everything interleaved: the lease protocol of \<open>LeaseProtocol\<close>, and
  over it any number of lock sessions on files of the object, each a file handle with the manager that its
  \<open>setlk\<close> made. A session's quorum read, the installation of what it read, its writes, and of each commit
  the moments at which the value is taken, the fence is passed, the patch takes effect and the answer
  arrives, are separate steps; several commits of a handle may be under way, and any of them may fail or
  never be answered. The critical sections are the functions of \<open>Handles\<close>. A patch that takes effect merges
  into the contents as \<open>Commits\<close> has it; that \<open>checkSize\<close> may refuse it first only removes steps.
  A patch that the client has given up may still land: it is the flight that stays \<open>Sent\<close>, and whose answer
  \<open>fails\<close>; nothing of the session waits for it.

  \<open>ss_seen\<close>, \<open>cs_log\<close> and \<open>cs_stray\<close> are only for the statements: the contents as the session's quorum
  read returned them with its own commits since; the commits that took effect, the latest first, each with
  what its session had seen; and whether one of them took effect outside of its holder's window.
\<close>

datatype flight = Taken bytes "manager option" | Sent bytes | Landed

record session =
  ss_handle :: handle
  ss_fresh :: "snapshot option"
  ss_flights :: "flight list"
  ss_seen :: "data option"

type_synonym entry = "nat \<times> string \<times> bytes \<times> data option"

record sections =
  cs_proto :: proto
  cs_contents :: data
  cs_sess :: "nat \<Rightarrow> session"
  cs_log :: "entry list"
  cs_stray :: bool

definition put :: "string \<Rightarrow> bytes \<Rightarrow> data \<Rightarrow> data" where
  "put key value d = with_data d (fmupd key (Some value) fmempty) []"

text \<open>The manager is marked as holding, and its last stamp has not run out.\<close>

definition in_window :: "proto \<Rightarrow> nat \<Rightarrow> bool" where
  "in_window p i \<longleftrightarrow> m_held (lp_mgr p i) \<and> \<not> run_out p i"

definition set_sess :: "nat \<Rightarrow> session \<Rightarrow> sections \<Rightarrow> sections" where
  "set_sess i x s = s\<lparr>cs_sess := (cs_sess s)(i := x)\<rparr>"

definition with_handle :: "nat \<Rightarrow> handle \<Rightarrow> sections \<Rightarrow> sections" where
  "with_handle i h s = set_sess i ((cs_sess s i)\<lparr>ss_handle := h\<rparr>) s"

definition with_flights :: "nat \<Rightarrow> flight list \<Rightarrow> sections \<Rightarrow> sections" where
  "with_flights i fs s = set_sess i ((cs_sess s i)\<lparr>ss_flights := fs\<rparr>) s"

definition flies :: "sections \<Rightarrow> nat \<Rightarrow> flight \<Rightarrow> bool" where
  "flies s i f \<longleftrightarrow> f \<in> set (ss_flights (cs_sess s i))"

text \<open>One commit goes on: \<open>f\<close> is replaced by \<open>g\<close>, or is over.\<close>

definition goes_on :: "nat \<Rightarrow> flight \<Rightarrow> flight list \<Rightarrow> sections \<Rightarrow> sections" where
  "goes_on i f g s = with_flights i (g @ remove1 f (ss_flights (cs_sess s i))) s"

text \<open>The last part of \<open>setlk\<close>, with the snapshot that the quorum read returned.\<close>

definition pin_read :: "nat \<Rightarrow> snapshot \<Rightarrow> sections \<Rightarrow> sections" where
  "pin_read i snap s = set_sess i ((cs_sess s i)\<lparr>ss_handle := pin_fresh (ss_handle (cs_sess s i)) (lp_mgr (cs_proto s) i) snap,
     ss_fresh := None, ss_seen := Some (Data snap)\<rparr>) s"

text \<open>The handle has a pointer to its manager, so the fence reads the manager as it is by then.\<close>

definition fence_shut :: "sections \<Rightarrow> nat \<Rightarrow> manager option \<Rightarrow> bool" where
  "fence_shut s i lease \<longleftrightarrow> fenced (map_option (\<lambda>_. lp_mgr (cs_proto s) i) lease)"

text \<open>A patch of session \<open>i\<close> takes effect.\<close>

definition land :: "nat \<Rightarrow> bytes \<Rightarrow> sections \<Rightarrow> sections" where
  "land i value s =
     (let x = cs_sess s i; key = h_key (ss_handle x) in
      set_sess i (x\<lparr>ss_seen := map_option (put key value) (ss_seen x)\<rparr>)
        (s\<lparr>cs_contents := put key value (cs_contents s),
           cs_log := (i, key, value, ss_seen x) # cs_log s,
           cs_stray := (cs_stray s \<or> \<not> (in_window (cs_proto s) i \<and> ss_seen x \<noteq> None))\<rparr>))"

inductive cs_step :: "sections \<Rightarrow> sections \<Rightarrow> bool" where
  lease: "lp_step (cs_proto s) p \<Longrightarrow> cs_step s (s\<lparr>cs_proto := p\<rparr>)"
| quorum_read: "m_held (lp_mgr (cs_proto s) i) \<Longrightarrow> h_lease (ss_handle (cs_sess s i)) = None \<Longrightarrow>
    ss_fresh (cs_sess s i) = None \<Longrightarrow> ss_seen (cs_sess s i) = None \<Longrightarrow> Data snap = cs_contents s \<Longrightarrow>
    cs_step s (set_sess i ((cs_sess s i)\<lparr>ss_fresh := Some snap\<rparr>) s)"
| pinned: "ss_fresh (cs_sess s i) = Some snap \<Longrightarrow> ss_seen (cs_sess s i) = None \<Longrightarrow> cs_step s (pin_read i snap s)"
| wrote: "handle_Write (ss_handle (cs_sess s i)) data off = Some (h, n, e) \<Longrightarrow> cs_step s (with_handle i h s)"
| resized: "handle_truncate (ss_handle (cs_sess s i)) sz = Some h \<Longrightarrow> cs_step s (with_handle i h s)"
| takes: "commit_begin (ss_handle (cs_sess s i)) = Some (v, lease) \<Longrightarrow>
    cs_step s (with_flights i (Taken v lease # ss_flights (cs_sess s i)) s)"
| passes: "flies s i (Taken v lease) \<Longrightarrow> \<not> fence_shut s i lease \<Longrightarrow>
    cs_step s (goes_on i (Taken v lease) [Sent v] s)"
| refused: "flies s i (Taken v lease) \<Longrightarrow> fence_shut s i lease \<Longrightarrow>
    cs_step s (goes_on i (Taken v lease) [] s)"
| lands: "flies s i (Sent v) \<Longrightarrow> cs_step s (land i v (goes_on i (Sent v) [Landed] s))"
| answered: "flies s i Landed \<Longrightarrow>
    cs_step s (with_handle i (commit_end (ss_handle (cs_sess s i))) (goes_on i Landed [] s))"
| fails: "flies s i f \<Longrightarrow> cs_step s (goes_on i f [] s)"
| unlocks: "cs_step s (with_handle i ((ss_handle (cs_sess s i))\<lparr>h_lease := None\<rparr>) s)"

text \<open>At the start the object has some contents, and no session has its lock.\<close>

definition cs_start :: "data \<Rightarrow> sections \<Rightarrow> bool" where
  "cs_start d s \<longleftrightarrow> lp_start (cs_proto s) \<and> cs_contents s = d \<and> cs_log s = [] \<and> \<not> cs_stray s \<and>
     (\<forall>i. h_lease (ss_handle (cs_sess s i)) = None \<and> ss_fresh (cs_sess s i) = None \<and>
        ss_flights (cs_sess s i) = [] \<and> ss_seen (cs_sess s i) = None)"

inductive cs_reachable :: "data \<Rightarrow> sections \<Rightarrow> bool" for d where
  start: "cs_start d s \<Longrightarrow> cs_reachable d s"
| step: "cs_reachable d s \<Longrightarrow> cs_step s s' \<Longrightarrow> cs_reachable d s'"

inductive_cases cs_stepE [consumes 1, case_names lease quorum_read pinned wrote resized takes passes refused lands
  answered fails unlocks]: "cs_step s s'"

text \<open>The specification: commits that take effect one after the other, each on exactly the contents that
  its session had seen.\<close>

fun replay :: "data \<Rightarrow> entry list \<Rightarrow> data option" where
  "replay d [] = Some d"
| "replay d ((i, key, value, seen) # log) =
     (case replay d log of
        None \<Rightarrow> None
      | Some d' \<Rightarrow> if seen = Some d' then Some (put key value d') else None)"

section \<open>What the lease gives\<close>

definition named :: "proto \<Rightarrow> nat \<Rightarrow> bool" where
  "named p i \<longleftrightarrow> (\<exists>l. lp_lease p = Some l \<and> HolderIdentity l = Some (m_holder (lp_mgr p i)))"

lemma held_past: "lp_reachable p \<Longrightarrow> m_held (lp_mgr p i) \<Longrightarrow> past (lp_act p i)"
  using lp_invD(7) [OF lp_reachable_inv] by (auto simp: inv_held_def)

lemma in_window_named: "lp_reachable p \<Longrightarrow> in_window p i \<Longrightarrow> named p i"
  using lp_invD(10) [OF lp_reachable_inv] unfolding in_window_def inv_window_def named_def by blast

lemma named_unique: "lp_reachable p \<Longrightarrow> named p i \<Longrightarrow> named p j \<Longrightarrow> i = j"
  using lp_invD(1) [OF lp_reachable_inv, of p] by (auto simp: named_def inv_ids_def dest: injD)

text \<open>A manager whose attempt is over is never named again once it is not.\<close>

lemma named_before:
  assumes "lp_reachable p" and "lp_step p p'" and "past (lp_act p i)" and "named p' i"
  shows "named p i"
proof -
  note inv = lp_invD [OF lp_reachable_inv [OF assms(1)]]
  obtain l where l: "lp_lease p' = Some l" "HolderIdentity l = Some (m_holder (lp_mgr p i))"
    using assms(2,4) by (auto simp: named_def)
  from step_kinds [OF assms(2)] show ?thesis
  proof (elim disjE exE)
    assume "quiet p p'"
    then have "lp_lease p = Some l" using l(1) by (simp add: quiet_def)
    with l(2) show ?thesis by (simp add: named_def)
  next
    fix k t c assume st: "stamped_by k t c p p'"
    then have m: "made p k t c" by (simp add: stamped_by_def)
    have "m_holder (lp_mgr p i) = m_holder (lp_mgr p k)"
      using made_fields(1) [OF inv(2,6,4) m] st l by (simp add: stamped_by_def)
    then have "k = i" using inv(1) by (auto simp: inv_ids_def dest: injD)
    with inv(11) assms(3) have n: "lp_lease p \<noteq> None" "\<And>b t. Take_lease b t \<in> pending p i \<Longrightarrow> \<not> current p b"
      by (auto simp: inv_late_def)
    with made_copy [OF inv(2) m] \<open>k = i\<close> obtain b where b: "lp_lease p = Some b" "Renew_lease b t \<in> pending p i"
      by (auto simp: current_def)
    with inv(6) have "HolderIdentity b = Some (m_holder (lp_mgr p i))" unfolding inv_own_def by blast
    with b show ?thesis by (simp add: named_def)
  next
    fix k c assume "cleared_by k c p p'"
    with l show ?thesis by (auto simp: cleared_by_def)
  qed
qed

section \<open>The invariant\<close>

text \<open>What a session knows of the contents.\<close>

definition knows :: "session \<Rightarrow> data option" where
  "knows x = (case ss_seen x of Some d \<Rightarrow> Some d | None \<Rightarrow> map_option Data (ss_fresh x))"

lemma knows_simps [simp]:
  "knows (x\<lparr>ss_handle := h\<rparr>) = knows x" "knows (x\<lparr>ss_flights := fs\<rparr>) = knows x"
  by (simp_all add: knows_def split: option.split)

lemma knows_seen: "ss_seen x = Some d \<Longrightarrow> knows x = Some d"
  and knows_fresh: "ss_seen x = None \<Longrightarrow> knows x = map_option Data (ss_fresh x)"
  by (simp_all add: knows_def)

text \<open>A session that knows something has a manager whose attempt succeeded; and as long as all commits
  landed in their windows, the log replays to the contents, and whoever the Lease names knows them.\<close>

definition cs_inv :: "data \<Rightarrow> sections \<Rightarrow> bool" where
  "cs_inv d s \<longleftrightarrow> lp_reachable (cs_proto s) \<and>
     (\<forall>i. knows (cs_sess s i) \<noteq> None \<longrightarrow> past (lp_act (cs_proto s) i)) \<and>
     (\<not> cs_stray s \<longrightarrow> replay d (cs_log s) = Some (cs_contents s) \<and>
        (\<forall>i b. knows (cs_sess s i) = Some b \<longrightarrow> named (cs_proto s) i \<longrightarrow> b = cs_contents s))"

lemma set_sess_fields [simp]:
  "cs_proto (set_sess i x s) = cs_proto s" "cs_contents (set_sess i x s) = cs_contents s"
  "cs_log (set_sess i x s) = cs_log s" "cs_stray (set_sess i x s) = cs_stray s"
  "cs_sess (set_sess i x s) = (cs_sess s)(i := x)"
  by (simp_all add: set_sess_def)

lemma with_fields [simp]:
  "cs_proto (with_handle i h s) = cs_proto s" "cs_proto (goes_on i f g s) = cs_proto s"
  "cs_proto (with_flights i fs s) = cs_proto s" "cs_proto (pin_read i snap s) = cs_proto s"
  "cs_contents (with_handle i h s) = cs_contents s" "cs_contents (goes_on i f g s) = cs_contents s"
  "cs_contents (with_flights i fs s) = cs_contents s" "cs_contents (pin_read i snap s) = cs_contents s"
  "cs_log (with_handle i h s) = cs_log s" "cs_log (goes_on i f g s) = cs_log s"
  "cs_log (with_flights i fs s) = cs_log s" "cs_log (pin_read i snap s) = cs_log s"
  "cs_stray (with_handle i h s) = cs_stray s" "cs_stray (goes_on i f g s) = cs_stray s"
  "cs_stray (with_flights i fs s) = cs_stray s" "cs_stray (pin_read i snap s) = cs_stray s"
  by (simp_all add: with_handle_def goes_on_def with_flights_def pin_read_def)

text \<open>What a session has seen is what its handle shows: pinned into a handle without writes of its own, the
  buffer is the file of the contents that are recorded as seen.\<close>

lemma pin_read_shows_seen:
  assumes "\<not> h_dirty (ss_handle (cs_sess s i))"
  shows "\<exists>d. ss_seen (cs_sess (pin_read i snap s) i) = Some d \<and>
    h_buf (ss_handle (cs_sess (pin_read i snap s) i)) = file_of d (h_key (ss_handle (cs_sess s i)))"
  using assms by (simp add: pin_read_def pin_fresh_clean)

text \<open>Most steps change neither the contents nor what a session knows of them.\<close>

definition same_view :: "sections \<Rightarrow> sections \<Rightarrow> bool" where
  "same_view s s' \<longleftrightarrow> cs_proto s' = cs_proto s \<and> cs_contents s' = cs_contents s \<and> cs_log s' = cs_log s \<and>
     cs_stray s' = cs_stray s \<and> (\<forall>i. knows (cs_sess s' i) = knows (cs_sess s i))"

lemma same_view_simps [simp]:
  "same_view s (with_handle i h s)" "same_view s (with_flights i fs s)" "same_view s (goes_on i f g s)"
  by (simp_all add: same_view_def with_handle_def with_flights_def goes_on_def)

lemma same_view_inv: "same_view s s' \<Longrightarrow> cs_inv d s \<Longrightarrow> cs_inv d s'"
  by (simp add: same_view_def cs_inv_def)

lemmas cs_inv_same = same_view_simps [THEN same_view_inv]

lemma pin_read_inv:
  assumes "cs_inv d s" and "ss_fresh (cs_sess s i) = Some snap" and "ss_seen (cs_sess s i) = None"
  shows "cs_inv d (pin_read i snap s)"
proof (rule same_view_inv [OF _ assms(1)])
  show "same_view s (pin_read i snap s)" using assms(2,3) by (simp add: same_view_def pin_read_def knows_def)
qed

lemma read_inv:
  assumes "cs_inv d s" and "m_held (lp_mgr (cs_proto s) i)" and "ss_seen (cs_sess s i) = None"
    and "Data snap = cs_contents s"
  shows "cs_inv d (set_sess i ((cs_sess s i)\<lparr>ss_fresh := Some snap\<rparr>) s)"
  using assms held_past [of "cs_proto s" i] by (auto simp: cs_inv_def knows_def split: if_splits)

lemma lease_inv:
  assumes "cs_inv d s" and "lp_step (cs_proto s) p"
  shows "cs_inv d (s\<lparr>cs_proto := p\<rparr>)"
proof -
  have r: "lp_reachable (cs_proto s)" using assms(1) by (simp add: cs_inv_def)
  have "past (lp_act (cs_proto s) i)" if "knows (cs_sess s i) = Some b" for i b
    using assms(1) that by (simp add: cs_inv_def)
  then have "knows (cs_sess s i) = Some b \<Longrightarrow> named p i \<Longrightarrow> named (cs_proto s) i" for i b
    using named_before [OF r assms(2)] by blast
  with assms show ?thesis
    by (auto simp: cs_inv_def past_stays intro: lp_reachable.step)
qed

text \<open>A patch that lands in its holder's window finds the contents that the session knows, and no other
  session is named.\<close>

lemma land_inv:
  assumes "cs_inv d s"
  shows "cs_inv d (land i value s)"
proof -
  have r: "lp_reachable (cs_proto s)" using assms by (simp add: cs_inv_def)
  let ?x = "cs_sess s i" and ?key = "h_key (ss_handle (cs_sess s i))"
  have known: "knows (cs_sess (land i value s) j) \<noteq> None \<longleftrightarrow> knows (cs_sess s j) \<noteq> None" for j
    by (auto simp: land_def Let_def knows_def split: option.splits)
  have good: "replay d (cs_log (land i value s)) = Some (cs_contents (land i value s)) \<and>
    (\<forall>j b. knows (cs_sess (land i value s) j) = Some b \<longrightarrow> named (cs_proto s) j \<longrightarrow> b = cs_contents (land i value s))"
    if ns: "\<not> cs_stray (land i value s)"
  proof -
    from ns obtain b where w: "\<not> cs_stray s" "in_window (cs_proto s) i" "ss_seen ?x = Some b"
      by (auto simp: land_def Let_def)
    note n = in_window_named [OF r w(2)]
    have b: "b = cs_contents s" and re: "replay d (cs_log s) = Some (cs_contents s)"
      using assms w(1) n knows_seen [OF w(3)] unfolding cs_inv_def by blast+
    have "c = put ?key value (cs_contents s)"
      if "knows (cs_sess (land i value s) j) = Some c" "named (cs_proto s) j" for j c
      using that(1) named_unique [OF r n that(2)] w(3) b by (simp add: land_def Let_def knows_def)
    with re w(3) b show ?thesis by (simp add: land_def Let_def)
  qed
  have "cs_proto (land i value s) = cs_proto s" by (simp add: land_def Let_def)
  with r known good assms show ?thesis by (simp only: cs_inv_def) blast
qed

lemma cs_inv_step:
  assumes "cs_step s s'" and "cs_inv d s"
  shows "cs_inv d s'"
  using assms(1)
proof (cases rule: cs_stepE)
  case (lands i v)
  then show ?thesis by (simp add: land_inv cs_inv_same assms(2))
next
  case (answered i)
  then show ?thesis by (simp add: cs_inv_same assms(2))
qed (use assms(2) in \<open>simp_all add: lease_inv read_inv pin_read_inv cs_inv_same\<close>)

lemma cs_reachable_inv: "cs_reachable d s \<Longrightarrow> cs_inv d s"
proof (induction rule: cs_reachable.induct)
  case (start s)
  then show ?case by (simp add: cs_start_def cs_inv_def knows_def lp_reachable.start)
qed (rule cs_inv_step)

section \<open>Commits under the lock are serial\<close>

text \<open>C4: However sessions, commits, lease requests and time interleave, and whoever stops: as long as
  every commit took effect within its holder's window, the commits were serial. Each was applied to
  exactly the contents that its session's quorum read returned (with its own commits since), so none was
  lost or overwritten unseen, and whoever is within its window still sees the present contents.\<close>

theorem flock_commits_are_serial:
  assumes "cs_reachable d s" and "\<not> cs_stray s"
  shows "replay d (cs_log s) = Some (cs_contents s) \<and>
    (\<forall>i b. ss_seen (cs_sess s i) = Some b \<longrightarrow> in_window (cs_proto s) i \<longrightarrow> b = cs_contents s)"
  using cs_reachable_inv [OF assms(1)] assms(2) in_window_named [of "cs_proto s"] knows_seen
  unfolding cs_inv_def by blast

section \<open>The functions of the handle are runs\<close>

lemma more_steps: "cs_step\<^sup>*\<^sup>* r s \<Longrightarrow> cs_step s s' \<Longrightarrow> s' = s'' \<Longrightarrow> cs_step\<^sup>*\<^sup>* r s''"
  by (auto intro: rtranclp.rtrancl_into_rtrancl)

text \<open>What a commit that succeeds leaves.\<close>

definition committed :: "nat \<Rightarrow> bytes \<Rightarrow> sections \<Rightarrow> sections" where
  "committed i v s = land i v (with_handle i (commit_end (ss_handle (cs_sess s i))) s)"

lemma commit_steps:
  assumes "commit_begin (ss_handle (cs_sess s i)) = Some (v, m)" and "\<not> fence_shut s i m"
    and "ss_flights (cs_sess s i) = []"
  shows "cs_step\<^sup>*\<^sup>* s (committed i v s)"
proof -
  have 1: "cs_step\<^sup>*\<^sup>* s (with_flights i [Taken v m] s)"
    by (rule more_steps [OF rtranclp.rtrancl_refl cs_step.takes [OF assms(1)]]) (simp add: assms(3))
  have 2: "cs_step\<^sup>*\<^sup>* s (with_flights i [Sent v] s)"
    by (rule more_steps [OF 1 cs_step.passes [where i = i and v = v and lease = m]])
      (use assms(2) in \<open>simp_all add: flies_def with_flights_def goes_on_def fence_shut_def set_sess_def\<close>)
  have 3: "cs_step\<^sup>*\<^sup>* s (land i v (with_flights i [Landed] s))"
    by (rule more_steps [OF 2 cs_step.lands [where i = i and v = v]])
      (simp_all add: flies_def with_flights_def goes_on_def set_sess_def)
  let ?t = "land i v (with_flights i [Landed] s)"
  have "with_handle i (commit_end (ss_handle (cs_sess ?t i))) (goes_on i Landed [] ?t) = committed i v s"
    using assms(3) by (cases "cs_sess s i") (simp add: with_flights_def goes_on_def set_sess_def land_def Let_def
        with_handle_def committed_def commit_end_def)
  then show ?thesis
    by (rule more_steps [OF 3 cs_step.answered [where i = i], rotated])
      (simp add: flies_def with_flights_def set_sess_def land_def Let_def)
qed

lemma commit_run:
  assumes "backed_by K (c_store (v_cache v)) up contents" and "up w" and "cs_contents s = contents w"
    and "ss_handle (cs_sess s i) = h" and "ss_flights (cs_sess s i) = []"
    and "h_lease h = Some (lp_mgr (cs_proto s) i)" and "h_dirty h"
    and "handle_commit K v h w = (errno, v1, h1, w1)"
  shows "\<exists>s'. cs_step\<^sup>*\<^sup>* s s' \<and> s' = (if errno = OK then committed i (h_buf h) s else s) \<and>
    ss_handle (cs_sess s' i) = h1 \<and> cs_contents s' = contents w1"
proof -
  let ?puts = "fmupd (h_key h) (Some (h_buf h)) fmempty"
  obtain r c1 w' where c: "Commit K (v_cache v) (h_lease h) ?puts [] w = (r, c1, w')" by (metis prod_cases3)
  note cc = handle_commit_contents [OF assms(1,2,8)]
  show ?thesis
  proof (cases "errno = OK")
    case False
    then have "h1 = h" using handle_commit_dirty [OF assms(7) c] assms(8) by (cases r) auto
    with False cc assms(3,4) show ?thesis by auto
  next
    case True
    have wr: "writes ?puts []" by (simp add: writes_def)
    have "r = Inr ()" and h1: "h1 = commit_end h"
      using handle_commit_dirty [OF assms(7) c] assms(8) True by (auto simp: commit_end_def split: sum.splits)
    then have "\<not> fenced (h_lease h)" using Commit_fenced [OF wr, of "h_lease h" K "v_cache v" w] c by auto
    then have "\<not> fence_shut s i (h_lease h)" by (simp add: fence_shut_def assms(6))
    with commit_steps [of s i "h_buf h" "h_lease h"] assms(4,5,7)
    have "cs_step\<^sup>*\<^sup>* s (committed i (h_buf h) s)" by (simp add: commit_begin_def)
    moreover have "ss_handle (cs_sess (committed i (h_buf h) s) i) = h1"
      by (simp add: committed_def land_def Let_def with_handle_def h1 assms(4))
    moreover have "contents w1 = put (h_key h) (h_buf h) (contents w)"
      using cc True assms(7) by (simp add: put_def with_data_one)
    then have "cs_contents (committed i (h_buf h) s) = contents w1"
      by (simp add: committed_def land_def Let_def with_handle_def assms(3,4) commit_end_def)
    ultimately show ?thesis using True by auto
  qed
qed

lemma lock_run:
  assumes "backed_by K (c_store (v_cache v)) up contents" and "up w" and "cs_contents s = contents w"
    and "ss_handle (cs_sess s i) = h" and "h_lease h = None" and "ss_fresh (cs_sess s i) = None"
    and "ss_seen (cs_sess s i) = None" and "m_held (lp_mgr (cs_proto s) i)"
    and "setlk_fresh K v h (lp_mgr (cs_proto s) i) w = (OK, v1, h1, w1)"
  shows "\<exists>snap. cs_step\<^sup>*\<^sup>* s (pin_read i snap s) \<and> Data snap = contents w \<and>
    ss_handle (cs_sess (pin_read i snap s) i) = h1 \<and> up w1 \<and> contents w1 = contents w \<and>
    c_store (v_cache v1) = c_store (v_cache v)"
proof -
  obtain snap w' where g: "store_Get K (c_store (v_cache v)) w = (Inr snap, w')" "up w'" "contents w' = contents w"
    "Data snap = contents w" using backed_by_Get [OF assms(1,2)] by blast
  with assms(9) have l: "h1 = pin_fresh h (lp_mgr (cs_proto s) i) snap" "w1 = w'" "c_store (v_cache v1) = c_store (v_cache v)"
    by (auto simp: setlk_fresh_def cache_Fresh_def)
  have "cs_step\<^sup>*\<^sup>* s (set_sess i ((cs_sess s i)\<lparr>ss_fresh := Some snap\<rparr>) s)"
    by (rule more_steps [OF rtranclp.rtrancl_refl cs_step.quorum_read [where i = i and snap = snap]])
      (simp_all add: assms g)
  then have "cs_step\<^sup>*\<^sup>* s (pin_read i snap s)"
    by (rule more_steps [OF _ cs_step.pinned [where i = i and snap = snap]])
      (simp_all add: assms(7) pin_read_def set_sess_def)
  with g l show ?thesis by (intro exI [of _ snap]) (simp add: pin_read_def assms(4))
qed

text \<open>C19: What \<open>setlk\<close> does once it has the Lease, a write and a commit, as the functions of the handle
  compute them against any store that keeps its contract, are a path of the interleaved system, with the
  same handle and the same contents at the end; and a commit that reports success is in the log, as one
  that was applied to the contents the lock's quorum read returned.\<close>

theorem locked_write_is_run:
  assumes srv: "backed_by K (c_store (v_cache v)) up contents" and "up w" and "cs_contents s = contents w"
    and "ss_handle (cs_sess s i) = h" "h_lease h = None"
    and "ss_fresh (cs_sess s i) = None" "ss_seen (cs_sess s i) = None" "ss_flights (cs_sess s i) = []"
    and "m_held (lp_mgr (cs_proto s) i)"
    and lk: "setlk_fresh K v h (lp_mgr (cs_proto s) i) w = (OK, v1, h1, w1)"
    and wr: "handle_Write h1 data off = Some (h2, n, OK)"
    and cm: "handle_commit K v1 h2 w1 = (errno, v2, h3, w2)"
  shows "\<exists>s'. cs_step\<^sup>*\<^sup>* s s' \<and> ss_handle (cs_sess s' i) = h3 \<and> cs_contents s' = contents w2 \<and>
    cs_log s' = (if errno = OK then (i, h_key h2, h_buf h2, Some (contents w)) # cs_log s else cs_log s)"
proof -
  obtain snap where l: "cs_step\<^sup>*\<^sup>* s (pin_read i snap s)" "Data snap = contents w"
    "ss_handle (cs_sess (pin_read i snap s) i) = h1" "up w1" "contents w1 = contents w"
    "c_store (v_cache v1) = c_store (v_cache v)"
    using lock_run [OF srv assms(2-7,9) lk] by blast
  let ?s = "with_handle i h2 (pin_read i snap s)"
  have 2: "cs_step\<^sup>*\<^sup>* s ?s" by (rule more_steps [OF l(1) cs_step.wrote [OF wr [folded l(3)]] refl])
  have x: "ss_handle (cs_sess ?s i) = h2" "ss_flights (cs_sess ?s i) = []" "ss_seen (cs_sess ?s i) = Some (contents w)"
    by (simp_all add: with_handle_def pin_read_def assms(8) l(2))
  have "h_lease h1 = Some (lp_mgr (cs_proto s) i)"
    using l(3) by (auto simp: pin_read_def pin_fresh_def Let_def)
  then have h2: "h_lease h2 = Some (lp_mgr (cs_proto ?s) i)" "h_dirty h2"
    using wr by (auto simp: handle_Write_def Let_def split: if_splits option.splits)
  have "backed_by K (c_store (v_cache v1)) up contents" "cs_contents ?s = contents w1"
    using srv l(5,6) assms(3) by simp_all
  from commit_run [OF this(1) l(4) this(2) x(1,2) h2 cm] obtain s' where s': "cs_step\<^sup>*\<^sup>* ?s s'"
    "s' = (if errno = OK then committed i (h_buf h2) ?s else ?s)" "ss_handle (cs_sess s' i) = h3"
    "cs_contents s' = contents w2" by blast
  have "cs_log (committed i (h_buf h2) ?s) = (i, h_key h2, h_buf h2, Some (contents w)) # cs_log s"
    using x(3) by (simp add: committed_def land_def Let_def with_handle_def commit_end_def)
  with s' rtranclp_trans [OF 2 s'(1)] show ?thesis by auto
qed

section \<open>Two runs\<close>

text \<open>A session in which nothing has happened, and one that has read, pinned and written its value.\<close>

definition idle :: session where
  "idle = \<lparr>ss_handle = newHandle ''k'' None '''', ss_fresh = None, ss_flights = [], ss_seen = None\<rparr>"

definition empty_snap :: snapshot where
  "empty_snap = \<lparr>Data = fmempty, ResourceVersion = ''1'', FetchedAt = 0\<rparr>"

definition at_work :: "manager \<Rightarrow> bytes \<Rightarrow> flight list \<Rightarrow> session" where
  "at_work m v fs = \<lparr>ss_handle = \<lparr>h_key = ''k'', h_snap = Some empty_snap, h_buf = v, h_dirty = True, h_lease = Some m\<rparr>,
     ss_fresh = None, ss_flights = fs, ss_seen = Some fmempty\<rparr>"

definition run_sections :: "proto \<Rightarrow> (nat \<Rightarrow> session) \<Rightarrow> sections" where
  "run_sections p ss = \<lparr>cs_proto = p, cs_contents = fmempty, cs_sess = ss, cs_log = [], cs_stray = False\<rparr>"

lemma run_sections_simps [simp]:
  "cs_proto (run_sections p ss) = p" "cs_contents (run_sections p ss) = fmempty" "cs_sess (run_sections p ss) = ss"
  "cs_log (run_sections p ss) = []" "cs_stray (run_sections p ss) = False"
  "set_sess i x (run_sections p ss) = run_sections p (ss(i := x))"
  by (simp_all add: run_sections_def set_sess_def)

lemma cs_reach: "cs_reachable d s \<Longrightarrow> cs_step s s' \<Longrightarrow> s' = s'' \<Longrightarrow> cs_reachable d s''"
  by (auto intro: cs_reachable.step)

lemma lease_runs:
  assumes "lp_step\<^sup>*\<^sup>* p p'" and "cs_reachable d (run_sections p ss)"
  shows "cs_reachable d (run_sections p' ss)"
  using assms
proof (induction rule: rtranclp_induct)
  case (step q r)
  from step(3) [OF step(4)] show ?case
    by (rule cs_reach [OF _ cs_step.lease [where p = r]]) (simp_all add: step(2) run_sections_def)
qed

text \<open>A session with a manager that holds gets to work.\<close>

lemma gets_to_work:
  assumes "cs_reachable fmempty (run_sections p ss)" and "ss i = idle" and "m_held (lp_mgr p i)"
    and "length v < 1000"
  shows "cs_reachable fmempty (run_sections p (ss(i := at_work (lp_mgr p i) v [])))"
proof -
  let ?m = "lp_mgr p i"
  let ?pinned = "\<lparr>ss_handle = \<lparr>h_key = ''k'', h_snap = Some empty_snap, h_buf = '''', h_dirty = False, h_lease = Some ?m\<rparr>,
     ss_fresh = None, ss_flights = [], ss_seen = Some fmempty\<rparr>"
  have "cs_reachable fmempty (run_sections p (ss(i := idle\<lparr>ss_fresh := Some empty_snap\<rparr>)))"
    by (rule cs_reach [OF assms(1) cs_step.quorum_read [where i = i and snap = empty_snap]])
      (simp_all add: assms(2,3) idle_def newHandle_def empty_snap_def)
  then have r: "cs_reachable fmempty (run_sections p (ss(i := ?pinned)))"
    by (rule cs_reach [OF _ cs_step.pinned [where i = i and snap = empty_snap]])
      (simp_all add: pin_read_def idle_def newHandle_def pin_fresh_def empty_snap_def snap_Get_def)
  have w: "handle_Write (ss_handle ?pinned) v 0 = Some ((ss_handle ?pinned)\<lparr>h_buf := v, h_dirty := True\<rparr>, of_nat (length v), OK)"
    using assms(4) by (subst handle_Write_ok) (simp_all add: max_alloc_def copy_at_def copy_bytes_def)
  from r show ?thesis
    by (rule cs_reach [OF _ cs_step.wrote [where i = i and data = v and off = 0]])
      (simp_all add: w [simplified], simp add: with_handle_def at_work_def)
qed

text \<open>Manager 0 made the Lease and commits \<open>A\<close> within its window.\<close>

definition run_zero :: "proto \<Rightarrow> sections" where
  "run_zero p = run_sections p ((\<lambda>i. idle)(0 := at_work (lp_mgr run_made 0) ''A'' []))"

definition run_one :: sections where
  "run_one = committed 0 ''A'' (run_zero run_made)"

lemma run_zero_reachable:
  assumes "lp_step\<^sup>*\<^sup>* run_made p"
  shows "cs_reachable fmempty (run_zero p)"
proof -
  have "cs_reachable fmempty (run_sections run_start (\<lambda>i. idle))"
    by (rule cs_reachable.start) (simp add: cs_start_def run_start_ok idle_def newHandle_def)
  from lease_runs [OF run_made_steps this]
  have "cs_reachable fmempty (run_sections run_made ((\<lambda>i. idle)(0 := at_work (lp_mgr run_made 0) ''A'' [])))"
    by (rule gets_to_work) (simp_all add: startRenewal_def)
  from lease_runs [OF assms this] show ?thesis by (simp add: run_zero_def)
qed

lemma run_zero_fields [simp]:
  "cs_proto (run_zero p) = p" "cs_contents (run_zero p) = fmempty" "cs_log (run_zero p) = []" "\<not> cs_stray (run_zero p)"
  "cs_sess (run_zero p) i = (if i = 0 then at_work (lp_mgr run_made 0) ''A'' [] else idle)"
  by (simp_all add: run_zero_def)

lemma cs_reachable_steps: "cs_step\<^sup>*\<^sup>* s s' \<Longrightarrow> cs_reachable d s \<Longrightarrow> cs_reachable d s'"
  by (induction rule: rtranclp_induct) (auto intro: cs_reachable.step)

lemma commits:
  assumes "cs_reachable d s" and "cs_sess s i = at_work m v []" and "Healthy (lp_mgr (cs_proto s) i)"
  shows "cs_reachable d (committed i v s)"
  by (rule cs_reachable_steps [OF commit_steps [where m = "Some m"] assms(1)])
    (simp_all add: assms(2,3) at_work_def commit_begin_def fence_shut_def fenced_def)

lemma committed_fields [simp]:
  "cs_proto (committed i v s) = cs_proto s"
  "cs_log (committed i v s) = (i, h_key (ss_handle (cs_sess s i)), v, ss_seen (cs_sess s i)) # cs_log s"
  "cs_contents (committed i v s) = put (h_key (ss_handle (cs_sess s i))) v (cs_contents s)"
  "cs_sess (committed i v s) = (cs_sess s)(i := (cs_sess s i)\<lparr>ss_handle := commit_end (ss_handle (cs_sess s i)),
     ss_seen := map_option (put (h_key (ss_handle (cs_sess s i))) v) (ss_seen (cs_sess s i))\<rparr>)"
  "cs_stray (committed i v s) \<longleftrightarrow> cs_stray s \<or> \<not> (in_window (cs_proto s) i \<and> ss_seen (cs_sess s i) \<noteq> None)"
  by (simp_all add: committed_def land_def Let_def with_handle_def commit_end_def)

lemma at_work_fields [simp]:
  "h_key (ss_handle (at_work m v fs)) = ''k''" "ss_seen (at_work m v fs) = Some fmempty"
  "h_dirty (ss_handle (at_work m v fs))"
  by (simp_all add: at_work_def)

theorem flock_commits_are_serial_witness:
  "replay fmempty [(0, ''k'', ''A'', Some fmempty)] = Some (put ''k'' ''A'' fmempty)"
proof -
  have "cs_reachable fmempty run_one"
    unfolding run_one_def
    by (rule commits) (simp_all add: run_zero_reachable Healthy_def startRenewal_def)
  moreover have "\<not> cs_stray run_one"
    by (simp add: run_one_def in_window_def run_out_def startRenewal_def run_made_def duration_secs_def run_mgr NewLeaseManager_def second_def wrap32_def)
  ultimately have "replay fmempty (cs_log run_one) = Some (cs_contents run_one)"
    using flock_commits_are_serial by blast
  then show ?thesis by (simp add: run_one_def)
qed

text \<open>C39: Without that, an update is lost, and nobody is told: manager 0's session takes the lock, reads
  and writes, and stalls; after its window another takes the lease over, reads the same contents, and its
  commit takes effect within its window; then manager 0 resumes, its fence lets it pass, and its patch
  overwrites the other's.\<close>

theorem late_commit_loses_update:
  "\<exists>s v w. cs_reachable fmempty s \<and> cs_log s = [(0, ''k'', v, Some fmempty), (2, ''k'', w, Some fmempty)] \<and>
     in_window (cs_proto s) 2 \<and> \<not> h_dirty (ss_handle (cs_sess s 0)) \<and> \<not> h_dirty (ss_handle (cs_sess s 2)) \<and>
     ss_seen (cs_sess s 2) = Some (put ''k'' w fmempty) \<and> cs_contents s = put ''k'' v fmempty \<and> v \<noteq> w"
proof -
  let ?ss = "(\<lambda>i. idle)(0 := at_work (lp_mgr run_made 0) ''A'' [], 2 := at_work (lp_mgr run_taken 2) ''B'' [])"
  let ?s = "committed 2 ''B'' (run_sections run_taken ?ss)"
  have "lp_step\<^sup>*\<^sup>* run_made run_taken" by (rule rtranclp_trans [OF run_seen_steps run_taken_steps])
  from run_zero_reachable [OF this] have "cs_reachable fmempty (run_sections run_taken ?ss)"
    unfolding run_zero_def by (rule gets_to_work) (simp_all add: run_taken_fields startRenewal_def)
  then have "cs_reachable fmempty ?s"
    by (rule commits) (simp_all add: run_taken_fields Healthy_def startRenewal_def)
  then have "cs_reachable fmempty (committed 0 ''A'' ?s)"
    by (rule commits) (simp_all add: run_taken_fields Healthy_def startRenewal_def)
  moreover have "in_window run_taken 2"
    by (simp add: in_window_def run_out_def run_taken_fields run_duration second_def) (simp add: startRenewal_def)
  ultimately show ?thesis
    by (intro exI [of _ "committed 0 ''A'' ?s"] exI [of _ "''A''"] exI [of _ "''B''"])
      (simp add: commit_end_def put_def with_data_one)
qed

text \<open>A session on the reference server: the lock's quorum read, a write, a commit.\<close>

theorem locked_write_is_run_witness:
  "\<exists>v1 h1 w1 h2 n errno v2 h3 w2 s'.
     setlk_fresh ref_kube (demo_volume ''uid'') (ss_handle idle) (lp_mgr run_made 0) newer_world = (OK, v1, h1, w1) \<and>
     handle_Write h1 ''XY'' 0 = Some (h2, n, OK) \<and> handle_commit ref_kube v1 h2 w1 = (errno, v2, h3, w2) \<and>
     cs_step\<^sup>*\<^sup>* ((run_sections run_made (\<lambda>i. idle))\<lparr>cs_contents := fmupd ''k'' ''new'' fmempty\<rparr>) s' \<and>
     ss_handle (cs_sess s' 0) = h3 \<and> cs_contents s' = sec_Data (the (w_secret w2))"
proof -
  let ?v = "demo_volume ''uid''" and ?m = "lp_mgr run_made 0"
  let ?s = "(run_sections run_made (\<lambda>i. idle))\<lparr>cs_contents := fmupd ''k'' ''new'' fmempty\<rparr>"
  let ?up = "\<lambda>w. \<not> w_denied w \<and> w_secret w \<noteq> None" and ?c = "\<lambda>w. sec_Data (the (w_secret w))"
  have b: "backed_by ref_kube (c_store (v_cache ?v)) ?up ?c" using ref_backed_by_secret by simp
  obtain snap w1 where g: "store_Get ref_kube (c_store (v_cache ?v)) newer_world = (Inr snap, w1)" "Data snap = fmupd ''k'' ''new'' fmempty"
    by (rule backed_by_Get [OF b, of newer_world]) simp_all
  then obtain v1 h1 where lk: "setlk_fresh ref_kube ?v (ss_handle idle) ?m newer_world = (OK, v1, h1, w1)"
    and h1: "length (h_buf h1) = 3"
    by (auto simp: setlk_fresh_def cache_Fresh_def pin_fresh_def idle_def newHandle_def snap_Get_def)
  obtain h2 n where wr: "handle_Write h1 ''XY'' 0 = Some (h2, n, OK)"
    using handle_Write_result [of 0 "''XY''" h1] h1 by (auto simp: max_alloc_def)
  obtain errno v2 h3 w2 where cm: "handle_commit ref_kube v1 h2 w1 = (errno, v2, h3, w2)" by (metis prod_cases4)
  have "\<exists>s'. cs_step\<^sup>*\<^sup>* ?s s' \<and> ss_handle (cs_sess s' 0) = h3 \<and> cs_contents s' = ?c w2 \<and>
    cs_log s' = (if errno = OK then (0, h_key h2, h_buf h2, Some (?c newer_world)) # cs_log ?s else cs_log ?s)"
    by (rule locked_write_is_run [OF b _ _ refl _ _ _ _ _ _ wr cm])
      (use lk in \<open>simp_all add: run_sections_def idle_def newHandle_def startRenewal_def\<close>)
  with lk wr cm show ?thesis by blast
qed

end
