(* ===== verification/Goroutines.thy ===== *)
theory Goroutines
  imports Driver
begin

text \<open>
  The CSI Node service under load: any number of goroutines, each serving one \<open>NodePublishVolume\<close> or
  \<open>NodeUnpublishVolume\<close> call at a time, interleaved where the code lets another run:
  between the lock-free look-up and the target's lock, while the lock is awaited, between the second
  look-up, the work of \<open>publish\<close> and its record, between the entry and the writing of the state file in
  \<open>Put\<close>, and between the removal, the tearing down and the writing in \<open>Delete\<close>. The pieces are the
  functions of \<open>TargetLocks\<close>, \<open>Mounts\<close> and \<open>Driver\<close>. Three pairs are one step each: a look-up that
  hits and the store of the token, the second look-up and \<open>WasPublished\<close>, and the last write of the
  state file and the removal of the directory; \<open>publish\<close> up to its record is one step too, since it
  changes nothing that another goroutine of the service looks at but the world.
\<close>

text \<open>What a goroutine has done so far, apart from where it is in \<open>lockTarget\<close> and \<open>unlockTarget\<close>. The
  flag of a publish is its \<open>restarting\<close>.\<close>

datatype pc =
    Idle
  | Wants string attrs
  | Checked string attrs bool
  | Mounted string bool live mount
  | Saving string bool live
  | Done string "status option"
  | Taken string "live option" bool
  | Torn string "unit sys"

text \<open>The calls that began and that returned, the latest first.\<close>

datatype event =
    PublishCalled nat string
  | PublishReplied nat string "status option"
  | UnpublishReplied nat string bool

text \<open>\<open>sv_lost\<close> says that writing the state file has failed at some time.\<close>

record 'w svc =
  sv_node :: node_server
  sv_world :: 'w
  sv_locks :: lock_state
  sv_pc :: "nat \<Rightarrow> pc"
  sv_lost :: bool
  sv_log :: "event list"

abbreviation sv_reg :: "'w svc \<Rightarrow> registry" where
  "sv_reg s \<equiv> nd_registry (sv_node s)"

definition goes :: "nat \<Rightarrow> pc \<Rightarrow> 'w svc \<Rightarrow> 'w svc" where
  "goes g p s = s\<lparr>sv_pc := (sv_pc s)(g := p)\<rparr>"

definition logs :: "event \<Rightarrow> 'w svc \<Rightarrow> 'w svc" where
  "logs e s = s\<lparr>sv_log := e # sv_log s\<rparr>"

definition with_reg :: "registry \<Rightarrow> 'w svc \<Rightarrow> 'w svc" where
  "with_reg r s = s\<lparr>sv_node := (sv_node s)\<lparr>nd_registry := r\<rparr>\<rparr>"

text \<open>After a restart the failures of a publish are only logged.\<close>

definition restart_reply :: "bool \<Rightarrow> status option \<Rightarrow> status option" where
  "restart_reply restarting st = (if restarting then None else st)"

inductive svc_step :: "'w env \<Rightarrow> 'w svc \<Rightarrow> 'w svc \<Rightarrow> bool" for E where
  hit: "sv_pc s g = Idle \<Longrightarrow> registry_Get (sv_reg s) t = Some l \<Longrightarrow>
    svc_step E s (logs (PublishReplied g t None) (s\<lparr>sv_node := swapToken vc l (sv_node s)\<rparr>))"
| miss: "sv_pc s g = Idle \<Longrightarrow> registry_Get (sv_reg s) t = None \<Longrightarrow>
    svc_step E s (logs (PublishCalled g t) (goes g (Wants t vc) s))"
| enter: "sv_pc s g = Wants t vc \<Longrightarrow> points (sv_locks s) g = Outside \<Longrightarrow>
    lockTarget_enter t (sv_locks s) = (lk, k) \<Longrightarrow>
    svc_step E s (s\<lparr>sv_locks := at_point g (Waiting t lk) k\<rparr>)"
| lock: "points (sv_locks s) g = Waiting t lk \<Longrightarrow> tl_Lock lk (sv_locks s) = Some k \<Longrightarrow>
    svc_step E s (s\<lparr>sv_locks := at_point g (Holding t lk) k\<rparr>)"
| recheck_hit: "sv_pc s g = Wants t vc \<Longrightarrow> points (sv_locks s) g = Holding t lk \<Longrightarrow>
    registry_Get (sv_reg s) t = Some l \<Longrightarrow>
    svc_step E s (goes g (Done t None) (s\<lparr>sv_node := swapToken vc l (sv_node s)\<rparr>))"
| recheck_miss: "sv_pc s g = Wants t vc \<Longrightarrow> points (sv_locks s) g = Holding t lk \<Longrightarrow>
    registry_Get (sv_reg s) t = None \<Longrightarrow>
    svc_step E s (goes g (Checked t vc (WasPublished (sv_reg s) t)) s)"
| refused: "sv_pc s g = Checked t vc re \<Longrightarrow> authorize E vc (sv_node s) (sv_world s) = (Inl st, n1, w1) \<Longrightarrow>
    svc_step E s (goes g (Done t (restart_reply re (Some st))) (s\<lparr>sv_node := n1, sv_world := w1\<rparr>))"
| not_mounted: "sv_pc s g = Checked t vc re \<Longrightarrow>
    authorize E vc (sv_node s) (sv_world s) = (Inr (cfg, ns, vol, holder), n1, w1) \<Longrightarrow>
    mount_volume E t cfg ns vol holder w1 = (Inl st, w2) \<Longrightarrow>
    svc_step E s (goes g (Done t (restart_reply re (Some st))) (s\<lparr>sv_node := n1, sv_world := w2\<rparr>))"
| mounted: "sv_pc s g = Checked t vc re \<Longrightarrow>
    authorize E vc (sv_node s) (sv_world s) = (Inr (cfg, ns, vol, holder), n1, w1) \<Longrightarrow>
    mount_volume E t cfg ns vol holder w1 = (Inr (l, m), w2) \<Longrightarrow>
    svc_step E s (goes g (Mounted t re l m) (s\<lparr>sv_node := n1, sv_world := w2\<rparr>))"
| put: "sv_pc s g = Mounted t re l m \<Longrightarrow>
    svc_step E s (goes g (Saving t re l) (with_reg (put_entry (sv_reg s) t l m) s))"
| saved: "sv_pc s g = Saving t re l \<Longrightarrow> persist (e_os E) (sv_reg s) (sv_world s) = (Inr (), w1) \<Longrightarrow>
    svc_step E s (goes g (Done t None) (s\<lparr>sv_world := w1\<rparr>))"
| not_saved: "sv_pc s g = Saving t re l \<Longrightarrow> persist (e_os E) (sv_reg s) (sv_world s) = (Inl e, w1) \<Longrightarrow>
    svc_step E s (goes g (Done t (restart_reply re (Some (Internal, ''record mount''))))
      (s\<lparr>sv_world := unrecorded E l w1, sv_lost := True\<rparr>))"
| unlock: "sv_pc s g = Done t st \<Longrightarrow> points (sv_locks s) g = Holding t lk \<Longrightarrow> tl_Unlock lk (sv_locks s) = Some k \<Longrightarrow>
    svc_step E s (s\<lparr>sv_locks := at_point g (Leaving t lk) k\<rparr>)"
| leave: "sv_pc s g = Done t st \<Longrightarrow> points (sv_locks s) g = Leaving t lk \<Longrightarrow>
    svc_step E s (logs (PublishReplied g t st)
      (goes g Idle (s\<lparr>sv_locks := at_point g Outside (unlockTarget_leave t lk (sv_locks s))\<rparr>)))"
| take: "sv_pc s g = Idle \<Longrightarrow>
    svc_step E s (goes g (Taken t (registry_Get (sv_reg s) t) (t |\<in>| fmdom (r_records (sv_reg s))))
      (with_reg (delete_entry (sv_reg s) t) s))"
| torn: "sv_pc s g = Taken t was had \<Longrightarrow> tear_down (e_os E) was had t (sv_world s) = (res, w1) \<Longrightarrow>
    svc_step E s (goes g (Torn t res) (s\<lparr>sv_world := w1\<rparr>))"
| gone: "sv_pc s g = Torn t (Inr ()) \<Longrightarrow> persist (e_os E) (sv_reg s) (sv_world s) = (Inr (), w1) \<Longrightarrow>
    svc_step E s (logs (UnpublishReplied g t True) (goes g Idle (s\<lparr>sv_world := snd (sys_Remove (e_os E) t w1)\<rparr>)))"
| not_gone: "sv_pc s g = Torn t res \<Longrightarrow> persist (e_os E) (sv_reg s) (sv_world s) = (res2, w1) \<Longrightarrow>
    res \<noteq> Inr () \<or> res2 \<noteq> Inr () \<Longrightarrow>
    svc_step E s (logs (UnpublishReplied g t False)
      (goes g Idle (s\<lparr>sv_world := w1, sv_lost := (sv_lost s \<or> res2 \<noteq> Inr ())\<rparr>)))"

definition svc_start :: "node_server \<Rightarrow> 'w \<Rightarrow> 'w svc" where
  "svc_start n w = \<lparr>sv_node = n, sv_world = w, sv_locks = lock_start, sv_pc = (\<lambda>_. Idle), sv_lost = False, sv_log = []\<rparr>"

inductive svc_reachable :: "'w env \<Rightarrow> node_server \<Rightarrow> 'w \<Rightarrow> 'w svc \<Rightarrow> bool" for E n0 w0 where
  start: "svc_reachable E n0 w0 (svc_start n0 w0)"
| step: "svc_reachable E n0 w0 s \<Longrightarrow> svc_step E s s' \<Longrightarrow> svc_reachable E n0 w0 s'"

inductive_cases svc_stepE [consumes 1, case_names hit miss enter lock recheck_hit recheck_miss refused
  not_mounted mounted put saved not_saved unlock leave take torn gone not_gone]: "svc_step E s s'"

lemma svc_fields [simp]:
  "sv_node (goes g p s) = sv_node s" "sv_world (goes g p s) = sv_world s" "sv_locks (goes g p s) = sv_locks s"
  "sv_lost (goes g p s) = sv_lost s" "sv_log (goes g p s) = sv_log s" "sv_pc (goes g p s) = (sv_pc s)(g := p)"
  "sv_node (logs e s) = sv_node s" "sv_world (logs e s) = sv_world s" "sv_locks (logs e s) = sv_locks s"
  "sv_lost (logs e s) = sv_lost s" "sv_pc (logs e s) = sv_pc s" "sv_log (logs e s) = e # sv_log s"
  "nd_registry (sv_node (with_reg r s)) = r" "sv_world (with_reg r s) = sv_world s"
  "sv_locks (with_reg r s) = sv_locks s" "sv_lost (with_reg r s) = sv_lost s" "sv_pc (with_reg r s) = sv_pc s"
  "sv_log (with_reg r s) = sv_log s"
  by (simp_all add: goes_def logs_def with_reg_def)

lemma swapToken_registry [simp]: "nd_registry (swapToken vc l n) = nd_registry n"
  by (simp add: swapToken_def split: sum.split)

lemma authorize_registry: "authorize E vc n w = (r, n1, w1) \<Longrightarrow> nd_registry n1 = nd_registry n"
  by (auto simp: authorize_def Let_def split: if_splits sum.splits prod.splits)

section \<open>One publish per target\<close>

lemma svc_lock_step:
  assumes "svc_step E s s'"
  shows "sv_locks s' = sv_locks s \<or> lock_step (sv_locks s) (sv_locks s')"
  using assms by (cases rule: svc_stepE) (auto intro: lock_step.intros)

lemma svc_locks_reachable: "svc_reachable E n0 w0 s \<Longrightarrow> lock_reachable (sv_locks s)"
proof (induction rule: svc_reachable.induct)
  case start
  show ?case by (simp add: svc_start_def lock_reachable.start)
next
  case (step s s')
  with svc_lock_step [OF step.hyps(2)] show ?case by (auto intro: lock_reachable.step)
qed

text \<open>The target a goroutine is publishing, from its second look at the table to the entry.\<close>

fun publishing :: "pc \<Rightarrow> string option" where
  "publishing (Checked t vc re) = Some t"
| "publishing (Mounted t re l m) = Some t"
| "publishing _ = None"

text \<open>The target whose lock it holds.\<close>

fun locking :: "pc \<Rightarrow> string option" where
  "locking (Checked t vc re) = Some t"
| "locking (Mounted t re l m) = Some t"
| "locking (Saving t re l) = Some t"
| "locking _ = None"

definition svc_inv :: "'w svc \<Rightarrow> bool" where
  "svc_inv s \<longleftrightarrow>
     (\<forall>g t. locking (sv_pc s g) = Some t \<longrightarrow> (\<exists>a. points (sv_locks s) g = Holding t a)) \<and>
     (\<forall>g t. publishing (sv_pc s g) = Some t \<longrightarrow> registry_Get (sv_reg s) t = None)"


lemma publishing_locking: "publishing p = Some t \<Longrightarrow> locking p = Some t"
  by (cases p) auto

lemma one_locking:
  assumes "svc_inv s" "lock_reachable (sv_locks s)" "locking (sv_pc s g) = Some t" "locking (sv_pc s g') = Some t"
  shows "g = g'"
proof -
  obtain a a' where "points (sv_locks s) g = Holding t a" "points (sv_locks s) g' = Holding t a'"
    using assms(1,3,4) unfolding svc_inv_def by blast
  then show ?thesis
    using inv_oneD [OF lock_inv_reachable [OF assms(2)], of g t g'] by (auto simp: holders_of_def)
qed

lemma svc_inv_locking:
  assumes "svc_step E s s'" and inv: "svc_inv s" and "locking (sv_pc s' g) = Some t"
  shows "\<exists>a. points (sv_locks s') g = Holding t a"
proof -
  have old: "locking (sv_pc s g) = Some t \<Longrightarrow> \<exists>a. points (sv_locks s) g = Holding t a"
    using inv by (simp add: svc_inv_def)
  have k: "tl_Lock lk k = Some k' \<Longrightarrow> points k' = points k" "tl_Unlock lk k = Some k' \<Longrightarrow> points k' = points k"
    "lockTarget_enter u k = (lk, k') \<Longrightarrow> points k' = points k" "points (unlockTarget_leave u lk k) = points k" for lk u k k'
    by (auto simp: tl_Lock_def tl_Unlock_def lockTarget_enter_def newTargetLock_def unlockTarget_leave_def Let_def
        split: if_splits option.splits)
  show ?thesis
    using assms(1,3) old by (cases rule: svc_stepE) (auto simp: k split: if_splits)
qed

text \<open>The table's entries come from a put by the goroutine that holds the target's lock.\<close>

lemma svc_inv_step:
  assumes "svc_step E s s'" and inv: "svc_inv s" and "lock_reachable (sv_locks s)"
  shows "svc_inv s'"
proof -
  have "registry_Get (sv_reg s') t = None" if p: "publishing (sv_pc s' g) = Some t" for g t
  proof -
    have old: "publishing (sv_pc s g) = Some t \<Longrightarrow> registry_Get (sv_reg s) t = None"
      using inv by (simp add: svc_inv_def)
    show ?thesis
      using assms(1)
    proof (cases rule: svc_stepE)
      case (put i u re l m)
      then have o: "publishing (sv_pc s g) = Some t" "g \<noteq> i" using p by (auto split: if_splits)
      have "locking (sv_pc s i) = Some u" using put(2) by simp
      with one_locking [OF inv assms(3) publishing_locking [OF o(1)], of i] o(2) have "t \<noteq> u" by auto
      with old [OF o(1)] show ?thesis by (simp add: put(1) table.get_put)
    next
      case (take i u)
      with p old show ?thesis by (auto simp: table.get_del split: if_splits)
    qed (use p old in \<open>auto simp: authorize_registry split: if_splits\<close>)
  qed
  with svc_inv_locking [OF assms(1) inv] show ?thesis by (simp add: svc_inv_def)
qed

lemma svc_inv_reachable: "svc_reachable E n0 w0 s \<Longrightarrow> svc_inv s"
proof (induction rule: svc_reachable.induct)
  case start
  show ?case by (simp add: svc_start_def svc_inv_def)
next
  case (step s s')
  from svc_inv_step [OF step.hyps(2) step.IH svc_locks_reachable [OF step.hyps(1)]] show ?case .
qed

text \<open>C8: however calls interleave, at most one of them is publishing a given target, and while it does the
  table has no live mount of the target: no second mount is made over one, and the entry it will make
  overwrites none, so that no server and no watch is left without an owner.\<close>

theorem one_publish_per_target:
  assumes "svc_reachable E n0 w0 s" and "publishing (sv_pc s g) = Some t"
  shows "registry_Get (sv_reg s) t = None \<and> (g' \<noteq> g \<longrightarrow> publishing (sv_pc s g') \<noteq> Some t)"
  using svc_inv_reachable [OF assms(1)] assms(2)
    one_locking [OF svc_inv_reachable [OF assms(1)] svc_locks_reachable [OF assms(1)], of g t g']
    publishing_locking [of "sv_pc s g" t] publishing_locking [of "sv_pc s g'" t]
  by (auto simp: svc_inv_def)


section \<open>No update of the state file is lost\<close>

text \<open>Between changing the tables and writing the file.\<close>

fun unsaved :: "pc \<Rightarrow> bool" where
  "unsaved (Saving t re l) = True"
| "unsaved (Taken t was had) = True"
| "unsaved (Torn t res) = True"
| "unsaved _ = False"

definition on_file :: "('w \<Rightarrow> (string, string) fmap) \<Rightarrow> string \<Rightarrow> records \<Rightarrow> 'w \<Rightarrow> bool" where
  "on_file files p records w \<longleftrightarrow>
     fmlookup (files w) p = Some (MarshalIndent records) \<or> records = fmempty \<and> fmlookup (files w) p = None"

text \<open>What is relied on: nothing but the registry writes the state file.\<close>

definition keeps_file :: "'w env \<Rightarrow> ('w \<Rightarrow> (string, string) fmap) \<Rightarrow> string \<Rightarrow> bool" where
  "keeps_file E files p \<longleftrightarrow>
     (\<forall>vc n w. fmlookup (files (snd (snd (authorize E vc n w)))) p = fmlookup (files w) p) \<and>
     (\<forall>t cfg ns vol h w. fmlookup (files (snd (mount_volume E t cfg ns vol h w))) p = fmlookup (files w) p) \<and>
     (\<forall>l w. fmlookup (files (unrecorded E l w)) p = fmlookup (files w) p) \<and>
     (\<forall>was had t w. fmlookup (files (snd (tear_down (e_os E) was had t w))) p = fmlookup (files w) p)"

lemma keeps_fileD:
  assumes "keeps_file E files p"
  shows "authorize E vc n w = (a, n1, w1) \<Longrightarrow> fmlookup (files w1) p = fmlookup (files w) p"
    "mount_volume E t cfg ns vol h w = (b, w1) \<Longrightarrow> fmlookup (files w1) p = fmlookup (files w) p"
    "fmlookup (files (unrecorded E l w)) p = fmlookup (files w) p"
    "tear_down (e_os E) was had t w = (c, w1) \<Longrightarrow> fmlookup (files w1) p = fmlookup (files w) p"
  using assms unfolding keeps_file_def by (metis snd_conv)+

definition file_inv :: "('w \<Rightarrow> (string, string) fmap) \<Rightarrow> string \<Rightarrow> 'w svc \<Rightarrow> bool" where
  "file_inv files p s \<longleftrightarrow> r_statePath (sv_reg s) = p \<and>
     (sv_lost s \<or> (\<exists>g. UnpublishReplied g p True \<in> set (sv_log s)) \<or> (\<exists>g. unsaved (sv_pc s g)) \<or>
      on_file files p (r_records (sv_reg s)) (sv_world s))"

lemma persist_on_file:
  assumes "disk (e_os E) files" and "persist (e_os E) r w = (Inr (), w1)"
  shows "on_file files (r_statePath r) (r_records r) w1"
  using persist_file [OF assms] by (simp add: on_file_def)

lemma file_inv_keep:
  assumes "file_inv files p s" and "sv_reg s' = sv_reg s" "fmlookup (files (sv_world s')) p = fmlookup (files (sv_world s)) p"
    "sv_lost s' = sv_lost s" "set (sv_log s) \<subseteq> set (sv_log s')" "\<And>g. unsaved (sv_pc s g) \<Longrightarrow> unsaved (sv_pc s' g)"
  shows "file_inv files p s'"
  using assms unfolding file_inv_def on_file_def by (simp) blast

lemma file_inv_saved:
  assumes "file_inv files p s" and "sv_reg s' = sv_reg s" and "on_file files p (r_records (sv_reg s)) (sv_world s')"
  shows "file_inv files p s'"
  using assms by (simp add: file_inv_def)

lemma entry_path [simp]: "r_statePath (put_entry r t l m) = r_statePath r" "r_statePath (delete_entry r t) = r_statePath r"
  by (simp_all add: put_entry_def delete_entry_def)

lemma file_inv_persist:
  assumes "file_inv files p s" "disk (e_os E) files" "persist (e_os E) (sv_reg s) (sv_world s) = (Inr (), w1)"
  shows "on_file files p (r_records (sv_reg s)) w1"
  using persist_on_file [OF assms(2,3)] assms(1) by (simp add: file_inv_def)

text \<open>An unpublish that ends well removes the target's directory after the file was written.\<close>

lemma file_inv_gone:
  assumes inv: "file_inv files p s" and d: "disk (e_os E) files"
    and w1: "persist (e_os E) (sv_reg s) (sv_world s) = (Inr (), w1)"
  shows "file_inv files p (logs (UnpublishReplied g t True) (goes g Idle (s\<lparr>sv_world := snd (sys_Remove (e_os E) t w1)\<rparr>)))"
proof (cases "t = p")
  case True
  with inv show ?thesis by (auto simp: file_inv_def)
next
  case False
  then have "fmlookup (files (snd (sys_Remove (e_os E) t w1))) p = fmlookup (files w1) p"
    using d by (simp add: disk_def)
  with file_inv_persist [OF inv d w1] have "on_file files p (r_records (sv_reg s)) (snd (sys_Remove (e_os E) t w1))"
    by (simp add: on_file_def)
  then show ?thesis by (intro file_inv_saved [OF inv]) simp_all
qed

text \<open>The steps of \<open>publish\<close> before its record, and the tearing down, leave the file alone.\<close>

lemma file_inv_other:
  assumes "file_inv files p s" and "fmlookup (files w1) p = fmlookup (files (sv_world s)) p"
    and "nd_registry n1 = sv_reg s" "unsaved (sv_pc s g) \<Longrightarrow> unsaved q"
  shows "file_inv files p (goes g q (s\<lparr>sv_node := n1, sv_world := w1\<rparr>))"
  by (rule file_inv_keep [OF assms(1)]) (use assms in auto)

lemma file_inv_step:
  assumes "svc_step E s s'" and inv: "file_inv files p s" and d: "disk (e_os E) files" and k: "keeps_file E files p"
  shows "file_inv files p s'"
  using assms(1)
proof (cases rule: svc_stepE)
  case (saved g t re l w1)
  show ?thesis
    by (rule file_inv_saved [OF inv]) (use file_inv_persist [OF inv d saved(3)] in \<open>simp_all add: saved(1)\<close>)
next
  case (gone g t w1)
  show ?thesis unfolding gone(1) by (rule file_inv_gone [OF inv d gone(3)])
next
  case (not_gone g t res res2 w1)
  show ?thesis
  proof (cases "res2 = Inr ()")
    case True
    with not_gone(3) have w: "persist (e_os E) (sv_reg s) (sv_world s) = (Inr (), w1)" by simp
    show ?thesis
      by (rule file_inv_saved [OF inv]) (use file_inv_persist [OF inv d w] in \<open>simp_all add: not_gone(1)\<close>)
  next
    case False
    with inv show ?thesis by (simp add: not_gone(1) file_inv_def)
  qed
next
  case (refused g t vc re st n1 w1)
  show ?thesis
    unfolding refused(1) using refused(2) keeps_fileD(1) [OF k refused(3)] authorize_registry [OF refused(3)]
    by (intro file_inv_other [OF inv]) simp_all
next
  case (not_mounted g t vc re cfg ns vol holder n1 w1 st w2)
  show ?thesis
    unfolding not_mounted(1)
    using not_mounted(2) keeps_fileD(1) [OF k not_mounted(3)] keeps_fileD(2) [OF k not_mounted(4)] authorize_registry [OF not_mounted(3)]
    by (intro file_inv_other [OF inv]) simp_all
next
  case (mounted g t vc re cfg ns vol holder n1 w1 l m w2)
  show ?thesis
    unfolding mounted(1)
    using mounted(2) keeps_fileD(1) [OF k mounted(3)] keeps_fileD(2) [OF k mounted(4)] authorize_registry [OF mounted(3)]
    by (intro file_inv_other [OF inv]) simp_all
next
  case (torn g t was had res w1)
  show ?thesis
    by (rule file_inv_keep [OF inv]) (use torn keeps_fileD(4) [OF k torn(3)] in auto)
next
  case (put g t re l m)
  with inv show ?thesis by (auto simp: file_inv_def)
next
  case (take g t)
  with inv show ?thesis by (auto simp: file_inv_def)
next
  case (not_saved g t re l e w1)
  with inv show ?thesis by (simp add: file_inv_def)
qed (rule file_inv_keep [OF inv]; force)+

lemma file_inv_reachable:
  assumes "svc_reachable E n0 w0 s" and "disk (e_os E) files" "keeps_file E files p"
    and "r_statePath (nd_registry n0) = p" "on_file files p (r_records (nd_registry n0)) w0"
  shows "file_inv files p s"
  using assms
proof (induction rule: svc_reachable.induct)
  case start
  then show ?case by (simp add: svc_start_def file_inv_def)
next
  case (step s s')
  from file_inv_step [OF step.hyps(2) step.IH] step.prems show ?case by blast
qed

lemma on_file_NewRegistry:
  assumes "on_file files p records w" and d: "disk (e_os E) files" and v: "valid_records records"
  shows "\<exists>r' w'. NewRegistry (e_os E) p w = (Inr r', w') \<and> r_records r' = records \<and> r_live r' = fmempty"
proof -
  have r: "fst (sys_ReadFile (e_os E) p w) = (case fmlookup (files w) p of None \<Rightarrow> Inl ENotExist | Some t \<Rightarrow> Inr t)"
    using d by (simp add: disk_def)
  from assms(1) consider "fmlookup (files w) p = Some (MarshalIndent records)"
    | "records = fmempty" "fmlookup (files w) p = None"
    by (auto simp: on_file_def)
  then show ?thesis
    using state_file_text [OF v] r by cases
      (cases "sys_ReadFile (e_os E) p w"; simp add: NewRegistry_def empty_registry_def)+
qed

text \<open>C6: no update of the state file is lost: in every interleaving of publishes and unpublishes, whenever
  no call is between changing the tables and writing the file, and no write has failed, a process
  started on the file finds exactly the records of the tables. (An unpublish whose target is the state
  file itself removes it.)\<close>

theorem no_lost_update:
  assumes d: "disk (e_os E) files" and k: "keeps_file E files p"
    and n0: "r_statePath (nd_registry n0) = p" "on_file files p (r_records (nd_registry n0)) w0"
    and s: "svc_reachable E n0 w0 s" "\<not> sv_lost s" "\<And>g. \<not> unsaved (sv_pc s g)"
      "\<And>g. UnpublishReplied g p True \<notin> set (sv_log s)" "valid_records (r_records (sv_reg s))"
  shows "\<exists>r' w'. NewRegistry (e_os E) p (sv_world s) = (Inr r', w') \<and>
    r_records r' = r_records (sv_reg s) \<and> r_live r' = fmempty"
proof -
  have "file_inv files p s" by (rule file_inv_reachable [OF s(1) d k n0])
  with s(2,3,4) have "on_file files p (r_records (sv_reg s)) (sv_world s)"
    by (simp add: file_inv_def)
  then show ?thesis by (rule on_file_NewRegistry [OF _ d s(5)])
qed

section \<open>A call that is served alone\<close>

text \<open>The pieces of a publish, each as a run of steps of one goroutine: taking the lock and looking again,
  the work, giving the lock back.\<close>

lemmas more_steps = converse_rtranclp_into_rtranclp [of "svc_step E" for E]
  and one_step = r_into_rtranclp [of "svc_step E" for E]

lemma holding_Unlock:
  assumes "lock_reachable k" "points k g = Holding t lk"
  obtains k1 where "tl_Unlock lk k = Some k1" "points k1 = points k"
proof -
  have i: "lock_inv k" by (rule lock_inv_reachable [OF assms(1)])
  have "tl_ch k lk = 0"
    using inv_entryD(4) [OF i inv_ownD [OF i, of g t lk]] assms(2) by (auto simp: holders_of_def split: if_splits)
  then show ?thesis using that by (auto simp: tl_Unlock_def)
qed

lemma enter_run:
  assumes pc: "sv_pc s g = Idle" "points (sv_locks s) g = Outside" and get: "registry_Get (sv_reg s) t = None"
    and free: "lock_reachable (sv_locks s)" "users (sv_locks s) t = {}"
  shows "\<exists>s' lk. (svc_step E)\<^sup>*\<^sup>* s s' \<and> sv_pc s' = (sv_pc s)(g := Checked t vc (WasPublished (sv_reg s) t)) \<and>
    points (sv_locks s') g = Holding t lk \<and> (\<forall>i. i \<noteq> g \<longrightarrow> points (sv_locks s') i = points (sv_locks s) i) \<and>
    sv_node s' = sv_node s \<and> sv_world s' = sv_world s \<and> sv_log s' = PublishCalled g t # sv_log s \<and> sv_lost s' = sv_lost s"
proof -
  have "locks (sv_locks s) t = None"
    using inv_entryD(3) [OF lock_inv_reachable [OF free(1)]] free(2) by (cases "locks (sv_locks s) t") auto
  then obtain lk k1 where k1: "lockTarget_enter t (sv_locks s) = (lk, k1)" "points k1 = points (sv_locks s)" "tl_ch k1 lk = 1"
    by (auto simp: lockTarget_enter_def newTargetLock_def)
  define s1 where "s1 = logs (PublishCalled g t) (goes g (Wants t vc) s)"
  define s2 where "s2 = s1\<lparr>sv_locks := at_point g (Waiting t lk) k1\<rparr>"
  obtain k2 where k2: "tl_Lock lk (sv_locks s2) = Some k2" "points k2 = points (sv_locks s2)"
    using k1(3) by (auto simp: s2_def tl_Lock_def)
  define s3 where "s3 = s2\<lparr>sv_locks := at_point g (Holding t lk) k2\<rparr>"
  define s4 where "s4 = goes g (Checked t vc (WasPublished (sv_reg s) t)) s3"
  have m: "svc_step E s s1" unfolding s1_def by (rule miss [OF pc(1) get])
  have e: "svc_step E s1 s2"
    unfolding s2_def by (rule enter) (simp_all add: s1_def pc k1)
  have l: "svc_step E s2 s3" unfolding s3_def by (rule lock [OF _ k2(1)]) (simp add: s2_def)
  have r: "svc_step E s3 s4"
    using recheck_miss [of s3 g t vc lk E] get by (simp add: s4_def s3_def s2_def s1_def)
  have "(svc_step E)\<^sup>*\<^sup>* s s4"
    by (rule more_steps [OF m more_steps [OF e more_steps [OF l one_step [OF r]]]])
  then show ?thesis
    by (intro exI [of _ s4] exI [of _ lk]) (simp add: s4_def s3_def s2_def s1_def k1(2) k2(2))
qed

lemma leave_run:
  assumes pc: "sv_pc s g = Done t st" "points (sv_locks s) g = Holding t lk" and k: "lock_reachable (sv_locks s)"
  shows "\<exists>s'. (svc_step E)\<^sup>*\<^sup>* s s' \<and> sv_pc s' = (sv_pc s)(g := Idle) \<and> points (sv_locks s') g = Outside \<and>
    sv_node s' = sv_node s \<and> sv_world s' = sv_world s \<and> sv_log s' = PublishReplied g t st # sv_log s \<and> sv_lost s' = sv_lost s"
proof -
  obtain k1 where k1: "tl_Unlock lk (sv_locks s) = Some k1" "points k1 = points (sv_locks s)"
    using holding_Unlock [OF k pc(2)] .
  define s1 where "s1 = s\<lparr>sv_locks := at_point g (Leaving t lk) k1\<rparr>"
  define s2 where "s2 = logs (PublishReplied g t st)
      (goes g Idle (s1\<lparr>sv_locks := at_point g Outside (unlockTarget_leave t lk (sv_locks s1))\<rparr>))"
  have u: "svc_step E s s1" unfolding s1_def by (rule unlock [OF pc k1(1)])
  have l: "svc_step E s1 s2" unfolding s2_def by (rule leave) (simp_all add: s1_def pc)
  have "(svc_step E)\<^sup>*\<^sup>* s s2" by (rule more_steps [OF u one_step [OF l]])
  then show ?thesis by (intro exI [of _ s2]) (simp add: s2_def s1_def)
qed

text \<open>The work is \<open>publish\<close>.\<close>

lemma record_run:
  assumes pc: "sv_pc s g = Mounted t re l m" and r: "record_mount E t l m (sv_node s) (sv_world s) = (st, n', w')"
  shows "\<exists>s'. (svc_step E)\<^sup>*\<^sup>* s s' \<and> sv_pc s' = (sv_pc s)(g := Done t (restart_reply re st)) \<and> sv_locks s' = sv_locks s \<and>
    sv_node s' = n' \<and> sv_world s' = w' \<and> sv_log s' = sv_log s \<and> (sv_lost s' \<longrightarrow> sv_lost s \<or> st \<noteq> None)"
proof -
  define s1 where "s1 = goes g (Saving t re l) (with_reg (put_entry (sv_reg s) t l m) s)"
  have s1: "sv_node s1 = (sv_node s)\<lparr>nd_registry := put_entry (sv_reg s) t l m\<rparr>" "sv_world s1 = sv_world s"
    "sv_pc s1 g = Saving t re l" by (simp_all add: s1_def goes_def with_reg_def)
  have i: "svc_step E s s1" unfolding s1_def by (rule put [OF pc])
  obtain res w1 where q: "persist (e_os E) (sv_reg s1) (sv_world s1) = (res, w1)" by fastforce
  show ?thesis
  proof (cases res)
    case (Inl e)
    define s2 where "s2 = goes g (Done t (restart_reply re (Some (Internal, ''record mount''))))
      (s1\<lparr>sv_world := unrecorded E l w1, sv_lost := True\<rparr>)"
    have j: "svc_step E s1 s2" unfolding s2_def by (rule not_saved [OF s1(3) q [unfolded Inl]])
    from r q Inl have "st = Some (Internal, ''record mount'')" "n' = sv_node s1" "w' = unrecorded E l w1"
      by (simp_all add: record_mount_def registry_Put_def Let_def s1)
    then show ?thesis
      using more_steps [OF i one_step [OF j]]
      by (intro exI [of _ s2]) (simp add: s2_def s1_def restart_reply_def)
  next
    case (Inr u)
    define s2 where "s2 = goes g (Done t None) (s1\<lparr>sv_world := w1\<rparr>)"
    have j: "svc_step E s1 s2" unfolding s2_def by (rule saved [OF s1(3)]) (use q Inr in simp)
    from r q Inr have "st = None" "n' = sv_node s1" "w' = w1"
      by (simp_all add: record_mount_def registry_Put_def Let_def s1)
    then show ?thesis
      using more_steps [OF i one_step [OF j]]
      by (intro exI [of _ s2]) (simp add: s2_def s1_def restart_reply_def)
  qed
qed

lemma publish_run:
  assumes pc: "sv_pc s g = Checked t vc re" and p: "publish E t vc (sv_node s) (sv_world s) = (st, n', w')"
  shows "\<exists>s'. (svc_step E)\<^sup>*\<^sup>* s s' \<and> sv_pc s' = (sv_pc s)(g := Done t (restart_reply re st)) \<and> sv_locks s' = sv_locks s \<and>
    sv_node s' = n' \<and> sv_world s' = w' \<and> sv_log s' = sv_log s \<and> (sv_lost s' \<longrightarrow> sv_lost s \<or> st \<noteq> None)"
proof -
  obtain a n1 w1 where a: "authorize E vc (sv_node s) (sv_world s) = (a, n1, w1)" by (rule prod_cases3)
  show ?thesis
  proof (cases a)
    case (Inl e)
    with p a have r: "st = Some e" "n' = n1" "w' = w1" by (simp_all add: publish_def)
    define s1 where "s1 = goes g (Done t (restart_reply re (Some e))) (s\<lparr>sv_node := n1, sv_world := w1\<rparr>)"
    have "svc_step E s s1" unfolding s1_def by (rule refused [OF pc a [unfolded Inl]])
    then show ?thesis
      by (intro exI [of _ s1]) (auto simp: s1_def r restart_reply_def)
  next
    case (Inr x)
    obtain cfg ns vol holder where x: "a = Inr (cfg, ns, vol, holder)" using Inr by (cases x) auto
    obtain b w2 where b: "mount_volume E t cfg ns vol holder w1 = (b, w2)" by fastforce
    show ?thesis
    proof (cases b)
      case (Inl e)
      with p a x b have r: "st = Some e" "n' = n1" "w' = w2" by (simp_all add: publish_def publish_mount_def)
      define s1 where "s1 = goes g (Done t (restart_reply re (Some e))) (s\<lparr>sv_node := n1, sv_world := w2\<rparr>)"
      have "svc_step E s s1" unfolding s1_def by (rule not_mounted [OF pc a [unfolded x] b [unfolded Inl]])
      then show ?thesis
        by (intro exI [of _ s1]) (auto simp: s1_def r restart_reply_def)
    next
      case (Inr y)
      obtain l m where y: "b = Inr (l, m)" using Inr by (cases y) auto
      from p a x b y have r: "record_mount E t l m n1 w2 = (st, n', w')" by (simp add: publish_def publish_mount_def)
      define s1 where "s1 = goes g (Mounted t re l m) (s\<lparr>sv_node := n1, sv_world := w2\<rparr>)"
      have i: "svc_step E s s1" unfolding s1_def by (rule mounted [OF pc a [unfolded x] b [unfolded y]])
      have "sv_pc s1 g = Mounted t re l m" "record_mount E t l m (sv_node s1) (sv_world s1) = (st, n', w')"
        using r by (simp_all add: s1_def)
      from record_run [OF this]
      obtain s' where s': "(svc_step E)\<^sup>*\<^sup>* s1 s'"
        "sv_pc s' = (sv_pc s)(g := Done t (restart_reply re st))" "sv_locks s' = sv_locks s" "sv_node s' = n'"
        "sv_world s' = w'" "sv_log s' = sv_log s" "sv_lost s' \<longrightarrow> sv_lost s \<or> st \<noteq> None" by (auto simp: s1_def)
      then show ?thesis using more_steps [OF i s'(1)] by blast
    qed
  qed
qed

lemma svc_locks_steps:
  assumes "(svc_step E)\<^sup>*\<^sup>* s s'" and "lock_reachable (sv_locks s)"
  shows "lock_reachable (sv_locks s')"
  using assms
proof (induction rule: rtranclp_induct)
  case (step y z)
  with svc_lock_step [OF step.hyps(2)] show ?case by (auto intro: lock_reachable.step)
qed

lemma first_publish_run:
  assumes pc: "sv_pc s g = Idle" "points (sv_locks s) g = Outside" and get: "registry_Get (sv_reg s) t = None"
    and k: "lock_reachable (sv_locks s)" "users (sv_locks s) t = {}"
    and p: "publish_locked E t vc (sv_node s) (sv_world s) = (st, n', w')"
  shows "\<exists>s'. (svc_step E)\<^sup>*\<^sup>* s s' \<and> sv_pc s' = sv_pc s \<and> sv_node s' = n' \<and> sv_world s' = w' \<and>
    sv_log s' = PublishReplied g t st # PublishCalled g t # sv_log s"
proof -
  let ?re = "WasPublished (sv_reg s) t"
  obtain s1 lk where a: "(svc_step E)\<^sup>*\<^sup>* s s1" "sv_pc s1 = (sv_pc s)(g := Checked t vc ?re)"
    "points (sv_locks s1) g = Holding t lk" "sv_node s1 = sv_node s" "sv_world s1 = sv_world s"
    "sv_log s1 = PublishCalled g t # sv_log s"
    using enter_run [OF pc get k, of E vc] by blast
  obtain st0 where p1: "publish E t vc (sv_node s) (sv_world s) = (st0, n', w')" "st = restart_reply ?re st0"
    using p get by (auto simp: publish_locked_def restart_reply_def Let_def split: prod.splits option.splits if_splits)
  have "sv_pc s1 g = Checked t vc ?re" "publish E t vc (sv_node s1) (sv_world s1) = (st0, n', w')"
    using a p1 by simp_all
  from publish_run [OF this] obtain s2 where b: "(svc_step E)\<^sup>*\<^sup>* s1 s2" "sv_pc s2 = (sv_pc s1)(g := Done t st)"
    "sv_locks s2 = sv_locks s1" "sv_node s2 = n'" "sv_world s2 = w'" "sv_log s2 = sv_log s1"
    using p1(2) by blast
  have k2: "lock_reachable (sv_locks s2)" by (rule svc_locks_steps [OF b(1) svc_locks_steps [OF a(1) k(1)]])
  have "sv_pc s2 g = Done t st" "points (sv_locks s2) g = Holding t lk" using a b by simp_all
  from leave_run [OF this k2] obtain s3 where c: "(svc_step E)\<^sup>*\<^sup>* s2 s3" "sv_pc s3 = (sv_pc s2)(g := Idle)"
    "sv_node s3 = n'" "sv_world s3 = w'" "sv_log s3 = PublishReplied g t st # sv_log s2"
    using b by auto
  have "(svc_step E)\<^sup>*\<^sup>* s s3" using a(1) b(1) c(1) by (meson rtranclp_trans)
  moreover have "sv_pc s3 = sv_pc s" using a(2) b(2) c(2) pc(1) by auto
  ultimately show ?thesis using a b c by auto
qed

lemma unpublish_run:
  assumes pc: "sv_pc s g = Idle" and d: "registry_Delete (e_os E) (sv_reg s) t (sv_world s) = (res, r1, w1)"
  shows "\<exists>s'. (svc_step E)\<^sup>*\<^sup>* s s' \<and> sv_pc s' = sv_pc s \<and> sv_node s' = (sv_node s)\<lparr>nd_registry := r1\<rparr> \<and>
    sv_world s' = (if res = Inr () then snd (sys_Remove (e_os E) t w1) else w1) \<and> sv_locks s' = sv_locks s \<and>
    sv_log s' = UnpublishReplied g t (res = Inr ()) # sv_log s \<and> (sv_lost s' \<longrightarrow> sv_lost s \<or> res \<noteq> Inr ())"
proof -
  let ?r1 = "delete_entry (sv_reg s) t"
  obtain was had where f: "was = registry_Get (sv_reg s) t" "had = (t |\<in>| fmdom (r_records (sv_reg s)))" by blast
  define s1 where "s1 = goes g (Taken t was had) (with_reg ?r1 s)"
  obtain u w2 where u: "tear_down (e_os E) was had t (sv_world s) = (u, w2)" by fastforce
  define s2 where "s2 = goes g (Torn t u) (s1\<lparr>sv_world := w2\<rparr>)"
  obtain v w3 where v: "persist (e_os E) ?r1 w2 = (v, w3)" by fastforce
  have s2: "sv_pc s2 g = Torn t u" "sv_reg s2 = ?r1" "sv_world s2 = w2" by (simp_all add: s2_def s1_def)
  have i: "svc_step E s s1" unfolding s1_def f by (rule take [OF pc])
  have j: "svc_step E s1 s2" unfolding s2_def
    by (rule torn [of s1 g t was had, OF _ trans [OF _ u]]) (simp_all add: s1_def)
  have dr: "r1 = ?r1 \<and> w1 = w3 \<and> (res = Inr () \<longleftrightarrow> u = Inr () \<and> v = Inr ())"
    using d u v by (auto simp: registry_Delete_def Let_def f split: sum.splits)
  define s3 where "s3 = (if u = Inr () \<and> v = Inr ()
    then logs (UnpublishReplied g t True) (goes g Idle (s2\<lparr>sv_world := snd (sys_Remove (e_os E) t w3)\<rparr>))
    else logs (UnpublishReplied g t False) (goes g Idle (s2\<lparr>sv_world := w3, sv_lost := (sv_lost s2 \<or> v \<noteq> Inr ())\<rparr>)))"
  have "svc_step E s2 s3"
  proof (cases "u = Inr () \<and> v = Inr ()")
    case True
    then have "svc_step E s2 (logs (UnpublishReplied g t True) (goes g Idle (s2\<lparr>sv_world := snd (sys_Remove (e_os E) t w3)\<rparr>)))"
      by (intro gone) (simp_all add: s2 v)
    with True show ?thesis by (simp add: s3_def)
  next
    case False
    then have "svc_step E s2 (logs (UnpublishReplied g t False)
        (goes g Idle (s2\<lparr>sv_world := w3, sv_lost := (sv_lost s2 \<or> v \<noteq> Inr ())\<rparr>)))"
      by (intro not_gone [OF s2(1)]) (auto simp: s2 v)
    with False show ?thesis by (auto simp: s3_def)
  qed
  then have "(svc_step E)\<^sup>*\<^sup>* s s3" by (rule more_steps [OF i more_steps [OF j one_step]])
  moreover have "sv_pc s3 = sv_pc s" using pc by (auto simp: s3_def s2_def s1_def)
  moreover have "sv_node s3 = (sv_node s)\<lparr>nd_registry := ?r1\<rparr>" "sv_locks s3 = sv_locks s"
    by (simp_all add: s3_def s2_def s1_def) (simp add: with_reg_def)
  moreover have "sv_world s3 = (if res = Inr () then snd (sys_Remove (e_os E) t w3) else w3)"
    "sv_log s3 = UnpublishReplied g t (res = Inr ()) # sv_log s" "sv_lost s3 \<longrightarrow> sv_lost s \<or> res \<noteq> Inr ()"
    using dr by (auto simp: s3_def s2_def s1_def)
  ultimately show ?thesis using dr by blast
qed

text \<open>C20: a publish whose target no other goroutine uses meanwhile is what \<open>NodePublishVolume\<close> computes: there
  is a run of the step relation from the call to its reply that ends in the same registry, token holders
  and world, gives the same reply, and leaves every other goroutine where it was; so what is proved of
  the function holds of the goroutines that are not disturbed.\<close>

theorem publish_served_alone:
  assumes "volumeId \<noteq> ''''" "t \<noteq> ''''" and pc: "sv_pc s g = Idle" "points (sv_locks s) g = Outside"
    and k: "lock_reachable (sv_locks s)" "users (sv_locks s) t = {}"
    and p: "NodePublishVolume E volumeId t vc (sv_node s) (sv_world s) = (st, n', w')"
  shows "\<exists>s'. (svc_step E)\<^sup>*\<^sup>* s s' \<and> sv_pc s' = sv_pc s \<and> sv_node s' = n' \<and> sv_world s' = w' \<and>
    hd (sv_log s') = PublishReplied g t st"
proof (cases "registry_Get (sv_reg s) t")
  case None
  with p assms(1,2) have "publish_locked E t vc (sv_node s) (sv_world s) = (st, n', w')"
    by (simp add: NodePublishVolume_def)
  from first_publish_run [OF pc None k this] show ?thesis by fastforce
next
  case (Some l)
  with p assms(1,2) have r: "st = None" "n' = swapToken vc l (sv_node s)" "w' = sv_world s"
    by (simp_all add: NodePublishVolume_def)
  define s1 where "s1 = logs (PublishReplied g t None) (s\<lparr>sv_node := swapToken vc l (sv_node s)\<rparr>)"
  have "svc_step E s s1" unfolding s1_def by (rule hit [OF pc(1) Some])
  from one_step [OF this] show ?thesis
    by (intro exI [of _ s1]) (simp add: r s1_def)
qed

text \<open>An unpublish that runs without interruption is what \<open>NodeUnpublishVolume\<close> computes, its errors
  included.\<close>

theorem unpublish_served_alone:
  assumes "volumeId \<noteq> ''''" "t \<noteq> ''''" and pc: "sv_pc s g = Idle"
    and p: "NodeUnpublishVolume E volumeId t (sv_node s) (sv_world s) = (st, n', w')"
  shows "\<exists>s'. (svc_step E)\<^sup>*\<^sup>* s s' \<and> sv_pc s' = sv_pc s \<and> sv_node s' = n' \<and> sv_world s' = w' \<and>
    sv_log s' = UnpublishReplied g t (st = None) # sv_log s"
proof -
  obtain res r1 w1 where d: "registry_Delete (e_os E) (sv_reg s) t (sv_world s) = (res, r1, w1)"
    by (rule prod_cases3)
  have "(st = None \<longleftrightarrow> res = Inr ()) \<and> n' = (sv_node s)\<lparr>nd_registry := r1\<rparr> \<and>
      w' = (if res = Inr () then snd (sys_Remove (e_os E) t w1) else w1)"
    using p d assms(1,2) by (auto simp: NodeUnpublishVolume_def split: sum.splits)
  with unpublish_run [OF pc d] show ?thesis by auto
qed

section \<open>Concrete runs\<close>

lemma svc_reachable_run: "(svc_step E)\<^sup>*\<^sup>* s s' \<Longrightarrow> svc_reachable E n0 w0 s \<Longrightarrow> svc_reachable E n0 w0 s'"
  by (induction rule: rtranclp_induct) (auto intro: svc_reachable.step)

lemma svc_start_sel [simp]:
  "sv_node (svc_start n w) = n" "sv_world (svc_start n w) = w" "sv_locks (svc_start n w) = lock_start"
  "sv_pc (svc_start n w) = (\<lambda>_. Idle)" "\<not> sv_lost (svc_start n w)" "sv_log (svc_start n w) = []"
  by (simp_all add: svc_start_def)

lemma lock_start_free [simp]: "points lock_start g = Outside" "users lock_start t = {}"
  by (simp_all add: lock_start_def users_def)

lemma demo_node_Get [simp]: "registry_Get (nd_registry demo_node) t = None"
  by (simp add: empty_registry_def registry_Get_def)

text \<open>Goroutine 5 is about to publish.\<close>

lemma demo_checked:
  obtains s lk where "svc_reachable (demo_env r) demo_node node_world0 s"
    "sv_pc s = (\<lambda>_. Idle)(5 := Checked demo_target demo_vc False)" "points (sv_locks s) 5 = Holding demo_target lk"
    "sv_node s = demo_node" "sv_world s = node_world0" "sv_log s = [PublishCalled 5 demo_target]" "\<not> sv_lost s"
proof -
  let ?s = "svc_start demo_node node_world0" and ?p = "Checked demo_target demo_vc (WasPublished (nd_registry demo_node) demo_target)"
  have "\<exists>s' lk. (svc_step (demo_env r))\<^sup>*\<^sup>* ?s s' \<and> sv_pc s' = (sv_pc ?s)(5 := ?p) \<and>
    points (sv_locks s') 5 = Holding demo_target lk \<and> (\<forall>i. i \<noteq> 5 \<longrightarrow> points (sv_locks s') i = points (sv_locks ?s) i) \<and>
    sv_node s' = sv_node ?s \<and> sv_world s' = sv_world ?s \<and> sv_log s' = PublishCalled 5 demo_target # sv_log ?s \<and>
    sv_lost s' = sv_lost ?s"
    using enter_run [of ?s 5 demo_target "demo_env r" demo_vc] by (simp add: lock_reachable.start del: demo_node_sel)
  then obtain s' lk where s': "(svc_step (demo_env r))\<^sup>*\<^sup>* ?s s'" "sv_pc s' = (sv_pc ?s)(5 := ?p)"
    "points (sv_locks s') 5 = Holding demo_target lk" "sv_node s' = sv_node ?s" "sv_world s' = sv_world ?s"
    "sv_log s' = PublishCalled 5 demo_target # sv_log ?s" "sv_lost s' = sv_lost ?s" by blast
  have p: "?p = Checked demo_target demo_vc False" using demo_not_published by (simp del: demo_node_sel)
  show ?thesis
    by (rule that [OF svc_reachable_run [OF s'(1) svc_reachable.start]]) (simp_all only: s' p svc_start_sel not_False_eq_True)
qed

theorem one_publish_per_target_witness:
  "\<exists>s. svc_reachable (demo_env (Inr demo_secret)) demo_node node_world0 s \<and> publishing (sv_pc s 5) = Some demo_target \<and>
    publishing (sv_pc s 6) \<noteq> Some demo_target"
proof -
  obtain s where s: "svc_reachable (demo_env (Inr demo_secret)) demo_node node_world0 s"
    "sv_pc s = (\<lambda>_. Idle)(5 := Checked demo_target demo_vc False)" by (rule demo_checked [of "Inr demo_secret"])
  then have "publishing (sv_pc s 5) = Some demo_target" by simp
  from one_publish_per_target [OF s(1) this, of 6] this s(1) show ?thesis by auto
qed

text \<open>The concrete service never writes the state file but through the registry.\<close>

lemma fixed_kube_Fresh: "cache_Fresh (fixed_kube r) c w = (a, c1, w1) \<Longrightarrow> w1 = w"
  by (cases "c_store c")
    (auto simp: cache_Fresh_def fixed_kube_def secret_Get_def configmap_Get_def Let_def split: sum.splits prod.splits)

lemma demo_DetachStale: "nw_files (snd (DetachStale ref_os t w)) = nw_files w"
  by (auto simp: DetachStale_def isMountpoint_def split: sum.splits prod.splits if_splits)

lemma demo_keeps_file: "keeps_file (demo_env r) nw_files p"
proof -
  have "fmlookup (nw_files (snd (snd (authorize (demo_env r) vc n w)))) p = fmlookup (nw_files w) p" for vc n w
  proof -
    have "snd (snd (authorize (demo_env r) vc n w)) = w"
      by (auto simp: authorize_def Let_def ClientFor_def split: sum.splits prod.splits if_splits dest: fixed_kube_Fresh)
    then show ?thesis by simp
  qed
  moreover have "nw_files (snd (mount_volume (demo_env r) t cfg ns vol h w)) = nw_files w" for t cfg ns vol h w
    using demo_DetachStale [of t w]
    by (auto simp: mount_volume_def Mount_def Let_def split: sum.splits prod.splits)
  moreover have "nw_files (unrecorded (demo_env r) l w) = nw_files w" for l w
    by (auto simp: unrecorded_def live_Unmount_def live_Cancel_def split: option.splits)
  moreover have "nw_files (snd (tear_down (e_os (demo_env r)) was had t w)) = nw_files w" for was had t w
    using demo_DetachStale [of t w]
    by (auto simp: tear_down_def live_Unmount_def live_Cancel_def split: option.splits)
  ultimately show ?thesis by (simp add: keeps_file_def)
qed

lemma demo_publish_any:
  assumes "\<not> nw_full w" "nw_mounts w = []"
  shows "\<exists>n' w'. publish (demo_env (Inr demo_secret)) demo_target demo_vc demo_node w = (None, n', w') \<and>
    nd_registry n' = demo_registry"
proof -
  have "put_entry (empty_registry ''/state.json'') demo_target \<lparr>l_Token = 0, l_Cancel = Some 7, l_Unmount = Some 3\<rparr>
     \<lparr>mt_TargetPath = demo_target, mt_ObjectKind = ''Secret'', mt_ObjectName = ''creds'', mt_Namespace = ''app''\<rparr> = demo_registry"
    by (simp add: demo_registry_def one_record_def demo_target_def demo_live_def)
  then show ?thesis using assms
    by (simp add: publish_def authorize_def demo_vc_config demo_Extract ClientFor_def demo_volume_ok volume_min_def fixed_kube_def
        cache_Fresh_def NewCache_def secret_Get_def secret_Decode_def
        attempted_def with_holder_def publish_mount_def mount_volume_def record_mount_def DetachStale_def isMountpoint_def
        Mount_def Let_def registry_Put_def persist_def demo_put)
qed

lemma demo_overtaken:
  "\<exists>s. svc_reachable (demo_env (Inr demo_secret)) demo_node node_world0 s \<and> sv_pc s = (\<lambda>_. Idle) \<and> \<not> sv_lost s \<and>
    sv_log s = [PublishReplied 5 demo_target None, UnpublishReplied 6 demo_target True, PublishCalled 5 demo_target] \<and>
    sv_reg s = demo_registry \<and> registry_Get demo_registry demo_target = Some demo_live"
proof -
  let ?E = "demo_env (Inr demo_secret)"
  obtain s lk where s: "svc_reachable ?E demo_node node_world0 s" "sv_pc s = (\<lambda>_. Idle)(5 := Checked demo_target demo_vc False)"
    "points (sv_locks s) 5 = Holding demo_target lk" "sv_node s = demo_node" "sv_world s = node_world0"
    "sv_log s = [PublishCalled 5 demo_target]" "\<not> sv_lost s" by (rule demo_checked [of "Inr demo_secret"])
  have e: "delete_entry (empty_registry ''/state.json'') demo_target = nd_registry demo_node"
    by (simp add: delete_entry_def empty_registry_def)
  obtain w1 where d: "registry_Delete (e_os ?E) (sv_reg s) demo_target (sv_world s) = (Inr (), nd_registry demo_node, w1)"
    and w1: "\<not> nw_full w1" "nw_mounts w1 = []"
    unfolding s(4,5)
    by (simp add: registry_Delete_def e [simplified] tear_down_def Let_def persist_def node_world0_def)
      (simp add: registry_Get_def empty_registry_def persist_def Let_def)
  have "sv_pc s 6 = Idle" using s(2) by simp
  from unpublish_run [OF this d] obtain s1 where s1: "(svc_step ?E)\<^sup>*\<^sup>* s s1" "sv_pc s1 = sv_pc s"
    "sv_node s1 = (sv_node s)\<lparr>nd_registry := nd_registry demo_node\<rparr>" "sv_world s1 = snd (sys_Remove ref_os demo_target w1)"
    "sv_locks s1 = sv_locks s" "sv_log s1 = UnpublishReplied 6 demo_target True # sv_log s" "\<not> sv_lost s1"
    using s(7) by auto
  have n1: "sv_node s1 = demo_node" by (simp add: s1(3) s(4) del: demo_node_sel)
  obtain n2 w2 where p: "publish ?E demo_target demo_vc (sv_node s1) (sv_world s1) = (None, n2, w2)" "nd_registry n2 = demo_registry"
    using demo_publish_any [of "sv_world s1"] w1 by (auto simp: n1 s1(4))
  have "sv_pc s1 5 = Checked demo_target demo_vc False" by (simp add: s1(2) s(2))
  from publish_run [OF this p(1)] obtain s2 where s2: "(svc_step ?E)\<^sup>*\<^sup>* s1 s2" "sv_pc s2 = (sv_pc s1)(5 := Done demo_target None)"
    "sv_locks s2 = sv_locks s1" "sv_node s2 = n2" "sv_log s2 = sv_log s1" "\<not> sv_lost s2"
    using s1(7) by (auto simp: restart_reply_def)
  have r2: "svc_reachable ?E demo_node node_world0 s2"
    by (rule svc_reachable_run [OF s2(1) svc_reachable_run [OF s1(1) s(1)]])
  have "sv_pc s2 5 = Done demo_target None" "points (sv_locks s2) 5 = Holding demo_target lk"
    by (simp_all add: s2 s1 s)
  from leave_run [OF this svc_locks_reachable [OF r2]] obtain s3 where s3: "(svc_step ?E)\<^sup>*\<^sup>* s2 s3" "sv_pc s3 = (sv_pc s2)(5 := Idle)"
    "sv_node s3 = n2" "sv_log s3 = PublishReplied 5 demo_target None # sv_log s2" "\<not> sv_lost s3"
    using s2 by auto
  have "svc_reachable ?E demo_node node_world0 s3" by (rule svc_reachable_run [OF s3(1) r2])
  moreover have "sv_pc s3 = (\<lambda>_. Idle)" by (auto simp: s3 s2 s1 s)
  moreover have "registry_Get demo_registry demo_target = Some demo_live" by (simp add: demo_registry_def table.get_put)
  ultimately show ?thesis using s3 s2 s1 s p by auto
qed

text \<open>C40: unpublish takes no target lock, so it does not see a publish under way: there is a run in which an
  unpublish of the target is called after a publish of it and answered with success, the publish goes
  on, mounts and is answered with success too, and at the end, with no call left, the target that was
  unpublished is mounted, live and recorded.\<close>

theorem unpublish_misses_publish_under_way:
  "\<exists>s. svc_reachable (demo_env (Inr demo_secret)) demo_node node_world0 s \<and> sv_pc s = (\<lambda>_. Idle) \<and> \<not> sv_lost s \<and>
    sv_log s = [PublishReplied 5 demo_target None, UnpublishReplied 6 demo_target True, PublishCalled 5 demo_target] \<and>
    registry_Get (sv_reg s) demo_target = Some demo_live \<and> WasPublished (sv_reg s) demo_target"
  using demo_overtaken table.live_published by metis

theorem no_lost_update_witness:
  "\<exists>s r' w'. svc_reachable (demo_env (Inr demo_secret)) demo_node node_world0 s \<and>
    NewRegistry ref_os ''/state.json'' (sv_world s) = (Inr r', w') \<and> r_records r' = one_record"
proof -
  let ?E = "demo_env (Inr demo_secret)"
  obtain s where s: "svc_reachable ?E demo_node node_world0 s" "sv_pc s = (\<lambda>_. Idle)" "\<not> sv_lost s"
    "sv_log s = [PublishReplied 5 demo_target None, UnpublishReplied 6 demo_target True, PublishCalled 5 demo_target]"
    "sv_reg s = demo_registry" using demo_overtaken by blast
  have d: "disk (e_os ?E) nw_files" using ref_disk by simp
  have v: "valid_records (r_records (sv_reg s))" by (simp add: s(5) demo_put one_record_valid)
  have f: "on_file nw_files ''/state.json'' (r_records (nd_registry demo_node)) node_world0"
    by (simp add: on_file_def empty_registry_def node_world0_def)
  have p: "r_statePath (nd_registry demo_node) = ''/state.json''" by (simp add: empty_registry_def)
  have l: "UnpublishReplied g ''/state.json'' True \<notin> set (sv_log s)" for g by (simp add: s demo_target_def)
  have u: "\<not> unsaved (sv_pc s g)" for g by (simp add: s)
  from no_lost_update [OF d demo_keeps_file p f s(1,3) u l v]
  show ?thesis using s(1) by (auto simp: s(5) demo_put)
qed

theorem publish_served_alone_witness:
  "\<exists>s' n' w'. (svc_step (demo_env (Inr demo_secret)))\<^sup>*\<^sup>* (svc_start demo_node node_world0) s' \<and>
    NodePublishVolume (demo_env (Inr demo_secret)) ''v1'' demo_target demo_vc demo_node node_world0 = (None, n', w') \<and>
    sv_node s' = n' \<and> hd (sv_log s') = PublishReplied 5 demo_target None"
proof -
  let ?E = "demo_env (Inr demo_secret)" and ?s = "svc_start demo_node node_world0"
  obtain n' w' where p: "NodePublishVolume ?E ''v1'' demo_target demo_vc (sv_node ?s) (sv_world ?s) = (None, n', w')"
    using demo_publish by auto
  have "''v1'' \<noteq> []" "demo_target \<noteq> []" "sv_pc ?s 5 = Idle" "points (sv_locks ?s) 5 = Outside"
    "lock_reachable (sv_locks ?s)" "users (sv_locks ?s) demo_target = {}"
    by (simp_all add: demo_target_def lock_reachable.start)
  from publish_served_alone [OF this p] p show ?thesis by auto
qed

theorem unpublish_served_alone_witness:
  "\<exists>s' st n' w'. (svc_step (demo_env (Inr demo_secret)))\<^sup>*\<^sup>* (svc_start live_node node_world0) s' \<and>
    NodeUnpublishVolume (demo_env (Inr demo_secret)) ''v1'' demo_target live_node node_world0 = (st, n', w') \<and>
    sv_node s' = n' \<and> sv_log s' = [UnpublishReplied 5 demo_target (st = None)]"
proof -
  let ?s = "svc_start live_node node_world0"
  obtain st n' w' where p: "NodeUnpublishVolume (demo_env (Inr demo_secret)) ''v1'' demo_target (sv_node ?s) (sv_world ?s) = (st, n', w')"
    by (rule prod_cases3)
  have "''v1'' \<noteq> []" "demo_target \<noteq> []" "sv_pc ?s 5 = Idle" by (simp_all add: demo_target_def)
  from unpublish_served_alone [OF this p] p show ?thesis by auto
qed

end
