(* ===== verification/NodeMain.thy ===== *)
theory NodeMain
  imports Goroutines
begin

text \<open>
  \<open>cmd/node/main.go\<close>: the flags as the standard \<open>flag\<close> package parses them, the level of the logger, and
  the life of the process from its arguments to its exit code. What happens from \<open>net.Listen\<close> until the
  server returns or a signal comes is a parameter, \<open>listen\<close>; what is logged is left out.
\<close>

section \<open>The flags\<close>

record options =
  o_endpoint :: string
  o_driverName :: string
  o_nodeID :: string
  o_statePath :: string
  o_logLevel :: string

definition default_options :: options where
  "default_options =
     \<lparr>o_endpoint = ''unix:///csi/csi.sock'', o_driverName = ''roommate.csi'', o_nodeID = [],
      o_statePath = ''/var/lib/kubelet/plugins/roommate.csi/published.json'', o_logLevel = ''info''\<rparr>"

definition set_flag :: "string \<Rightarrow> string \<Rightarrow> options \<Rightarrow> options option" where
  "set_flag name v opt =
     (if name = ''endpoint'' then Some (opt\<lparr>o_endpoint := v\<rparr>)
      else if name = ''driver-name'' then Some (opt\<lparr>o_driverName := v\<rparr>)
      else if name = ''node-id'' then Some (opt\<lparr>o_nodeID := v\<rparr>)
      else if name = ''state-file'' then Some (opt\<lparr>o_statePath := v\<rparr>)
      else if name = ''log-level'' then Some (opt\<lparr>o_logLevel := v\<rparr>)
      else None)"

text \<open>\<open>flag.Parse\<close>: the exit code where it ends the process, 0 after a call for help and 2 after an error. An
  argument that is no flag, and \<open>--\<close>, end the flags.\<close>

definition flag_error :: "string \<Rightarrow> nat" where
  "flag_error name = (if name = ''help'' \<or> name = ''h'' then 0 else 2)"

fun parse_flags :: "string list \<Rightarrow> options \<Rightarrow> nat + options" where
  "parse_flags [] opt = Inr opt"
| "parse_flags (s # args) opt =
     (if length s < 2 \<or> hd s \<noteq> CHR ''-'' \<or> s = ''--'' then Inr opt
      else
        let name0 = (if s ! 1 = CHR ''-'' then drop 2 s else drop 1 s);
            name = takeWhile (\<lambda>c. c \<noteq> CHR ''='') name0
        in if hd name0 = CHR ''-'' \<or> hd name0 = CHR ''='' then Inl 2
           else case dropWhile (\<lambda>c. c \<noteq> CHR ''='') name0 of
             eq # v \<Rightarrow> (case set_flag name v opt of None \<Rightarrow> Inl (flag_error name) | Some opt1 \<Rightarrow> parse_flags args opt1)
           | [] \<Rightarrow>
               if set_flag name [] opt = None then Inl (flag_error name)
               else (case args of
                   [] \<Rightarrow> Inl 2
                 | v # rest \<Rightarrow> parse_flags rest (the (set_flag name v opt))))"

declare parse_flags.simps(2) [simp del]

section \<open>The logger\<close>

text \<open>\<open>strings.ToUpper\<close> as far as the names of the levels go: beside the ASCII letters, the dotless i and the
  long s become ASCII.\<close>

fun upper_name :: "string \<Rightarrow> string" where
  "upper_name [] = []"
| "upper_name (c # s) =
     (if c = CHR 0xC4 \<and> take 1 s = [CHR 0xB1] then CHR ''I'' # upper_name (drop 1 s)
      else if c = CHR 0xC5 \<and> take 1 s = [CHR 0xBF] then CHR ''S'' # upper_name (drop 1 s)
      else (if CHR ''a'' \<le> c \<and> c \<le> CHR ''z'' then char_of (of_char c - 32 :: nat) else c) # upper_name s)"

definition level_value :: "string \<Rightarrow> int option" where
  "level_value name =
     (if name = ''DEBUG'' then Some (-4)
      else if name = ''INFO'' then Some 0
      else if name = ''WARN'' then Some 4
      else if name = ''ERROR'' then Some 8
      else None)"

text \<open>\<open>slog.Level.UnmarshalText\<close>: a name, and an offset that starts with its sign.\<close>

definition parse_level :: "string \<Rightarrow> int option" where
  "parse_level s =
     (let plain = (\<lambda>c. c \<noteq> CHR ''+'' \<and> c \<noteq> CHR ''-'');
          name = takeWhile plain s; offset = dropWhile plain s
      in case (if offset = [] then Some 0 else Atoi offset) of
           None \<Rightarrow> None
         | Some off \<Rightarrow> map_option (\<lambda>l. wrap64 (l + off)) (level_value (upper_name name)))"

definition newLogger :: "string \<Rightarrow> int" where
  "newLogger level = (case parse_level level of None \<Rightarrow> 0 | Some l \<Rightarrow> l)"

section \<open>The process\<close>

text \<open>Up to the server: the exit code, or what it is started with.\<close>

definition node_start :: "'w os \<Rightarrow> string list \<Rightarrow> 'w \<Rightarrow> (nat + options \<times> registry) \<times> 'w" where
  "node_start S args w =
     (case parse_flags args default_options of
        Inl code \<Rightarrow> (Inl code, w)
      | Inr opt \<Rightarrow>
          if o_nodeID opt = [] then (Inl 1, w)
          else case NewRegistry S (o_statePath opt) w of
            (Inl e, w1) \<Rightarrow> (Inl 1, w1)
          | (Inr reg, w1) \<Rightarrow> (Inr (opt, reg), w1))"

text \<open>What the \<open>select\<close> gets: \<open>Serve\<close>'s result, or the signal, with the service as it is then.\<close>

datatype outcome = Returned "unit sys" | Signalled node_server

definition node_main ::
  "'w os \<Rightarrow> (IdentityServer \<Rightarrow> node_server \<Rightarrow> string \<Rightarrow> 'w \<Rightarrow> outcome \<times> 'w) \<Rightarrow> string list \<Rightarrow> string \<Rightarrow> string list \<Rightarrow> 'w
    \<Rightarrow> nat \<times> 'w" where
  "node_main S listen order version args w =
     (case node_start S args w of
        (Inl code, w1) \<Rightarrow> (code, w1)
      | (Inr (opt, reg), w1) \<Rightarrow>
          (case Serve S (listen (NewIdentityServer (o_driverName opt) version) (NewNodeServer (o_nodeID opt) reg))
              (o_endpoint opt) w1 of
             (Inl e, w2) \<Rightarrow> (1, w2)
           | (Inr (Returned (Inl e)), w2) \<Rightarrow> (1, w2)
           | (Inr (Returned (Inr _)), w2) \<Rightarrow> (0, w2)
           | (Inr (Signalled n), w2) \<Rightarrow> (0, Shutdown S (nd_registry n) order w2)))"

section \<open>Arguments\<close>

text \<open>A flag with its value in one argument.\<close>

definition flag_arg :: "string \<Rightarrow> string \<Rightarrow> string" where
  "flag_arg name v = ''--'' @ name @ CHR ''='' # v"

definition render_flags :: "options \<Rightarrow> string list" where
  "render_flags opt =
     [flag_arg ''endpoint'' (o_endpoint opt), flag_arg ''driver-name'' (o_driverName opt),
      flag_arg ''node-id'' (o_nodeID opt), flag_arg ''state-file'' (o_statePath opt),
      flag_arg ''log-level'' (o_logLevel opt)]"

lemma parse_flag_arg:
  assumes "CHR ''='' \<notin> set name" "name \<noteq> []" "hd name \<noteq> CHR ''-''" "set_flag name v opt = Some opt1"
  shows "parse_flags (flag_arg name v # args) opt = parse_flags args opt1"
proof -
  have "takeWhile (\<lambda>c. c \<noteq> CHR ''='') (name @ CHR ''='' # v) = name"
    "dropWhile (\<lambda>c. c \<noteq> CHR ''='') (name @ CHR ''='' # v) = CHR ''='' # v"
    using assms(1) by (auto simp: takeWhile_tail dropWhile_append3 takeWhile_append2)
  moreover have "hd (name @ CHR ''='' # v) = hd name" using assms(2) by simp
  moreover have "hd name \<noteq> CHR ''=''" using assms(1,2) by (cases name) auto
  ultimately show ?thesis using assms(2-4) by (simp add: flag_arg_def Let_def parse_flags.simps(2))
qed

lemma parse_rendered: "parse_flags (render_flags opt @ args) opt0 = parse_flags args opt"
proof -
  have d: "\<exists>o1. set_flag ''endpoint'' (o_endpoint opt) opt0 = Some o1 \<and>
    (\<exists>o2. set_flag ''driver-name'' (o_driverName opt) o1 = Some o2 \<and>
    (\<exists>o3. set_flag ''node-id'' (o_nodeID opt) o2 = Some o3 \<and>
    (\<exists>o4. set_flag ''state-file'' (o_statePath opt) o3 = Some o4 \<and>
      set_flag ''log-level'' (o_logLevel opt) o4 = Some opt)))"
    by (simp add: set_flag_def)
  then show ?thesis
    by (elim exE conjE) (simp add: render_flags_def parse_flag_arg)
qed

text \<open>The process runs with what its command line says: for any values, whatever octets they have, the
  five flags with their values are parsed as these values, over defaults and earlier flags, whatever
  arguments came before as complete flags; with no argument every flag but the node's name has a default.\<close>

theorem flags_round_trip:
  "parse_flags (render_flags opt1 @ render_flags opt) default_options = Inr opt \<and>
   parse_flags [] default_options = Inr default_options"
  using parse_rendered [of opt "[]"] by (simp add: parse_rendered)

lemma exit_codes: "parse_flags args opt = Inl code \<Longrightarrow> code \<in> {0, 2}"
proof (induction args opt rule: parse_flags.induct)
  case (2 s args opt)
  let ?n0 = "if s ! 1 = CHR ''-'' then drop 2 s else drop 1 s" and ?eq = "\<lambda>c. c \<noteq> CHR ''=''"
  have e: "flag_error name \<in> {0, 2}" for name by (simp add: flag_error_def)
  show ?case
  proof (cases "length s < 2 \<or> hd s \<noteq> CHR ''-'' \<or> s = ''--''")
    case True
    with "2.prems" show ?thesis by (simp only: parse_flags.simps(2) if_True sum.distinct)
  next
    case f: False
    show ?thesis
    proof (cases "hd ?n0 = CHR ''-'' \<or> hd ?n0 = CHR ''=''")
      case True
      with "2.prems" f have "(Inl 2 :: nat + options) = Inl code"
        by (simp only: parse_flags.simps(2) if_True if_False Let_def)
      then show ?thesis by simp
    next
      case g: False
      note p = "2.prems" [unfolded parse_flags.simps(2) Let_def if_not_P [OF f] if_not_P [OF g]]
      show ?thesis
      proof (cases "dropWhile ?eq ?n0")
        case (Cons q v)
        with p e "2.IH"(2) [OF f refl refl g Cons] show ?thesis
          by (simp only: list.case) (auto split: option.splits)
      next
        case Nil
        with p e "2.IH"(1) [OF f refl refl g Nil] show ?thesis
          by (simp only: list.case) (auto split: if_splits list.splits)
      qed
    qed
  qed
qed simp

text \<open>A node plugin that cannot do its work does not start: bad flags end the process with 0 for a call
  for help and 2 otherwise, and a missing node name and a state file that is there but cannot be read
  with 1; nothing has then been served, and the world is as the one read left it. A state file that is
  missing, and one that is corrupt, start the process with no records.\<close>

theorem start_refuses:
  "case parse_flags args default_options of
     Inl code \<Rightarrow> code \<in> {0, 2} \<and> node_main S listen order version args w = (code, w)
   | Inr opt \<Rightarrow>
       if o_nodeID opt = [] then node_main S listen order version args w = (1, w)
       else (case sys_ReadFile S (o_statePath opt) w of
           (Inl e, w1) \<Rightarrow> if e = ENotExist then node_start S args w = (Inr (opt, empty_registry (o_statePath opt)), w1)
             else node_main S listen order version args w = (1, w1)
         | (Inr raw, w1) \<Rightarrow> \<exists>reg. node_start S args w = (Inr (opt, reg), w1) \<and> r_live reg = fmempty \<and>
             (unmarshal_records raw = None \<longrightarrow> r_records reg = fmempty))"
proof (cases "parse_flags args default_options")
  case (Inl code)
  from exit_codes [OF this] Inl show ?thesis by (auto simp: node_main_def node_start_def)
next
  case (Inr opt)
  then show ?thesis
    by (auto simp: node_main_def node_start_def NewRegistry_def empty_registry_def split: prod.splits sum.splits option.splits)
qed

section \<open>A rolling restart\<close>

text \<open>What is relied on: cancelling a watch and unmounting write no file.\<close>

definition unmount_writes_nothing :: "'w os \<Rightarrow> ('w \<Rightarrow> (string, string) fmap) \<Rightarrow> bool" where
  "unmount_writes_nothing S files \<longleftrightarrow>
     (\<forall>c w. files (sys_cancel S c w) = files w) \<and> (\<forall>srv w. files (snd (sys_fuse_unmount S srv w)) = files w)"

lemma Shutdown_files:
  assumes "unmount_writes_nothing S files"
  shows "files (Shutdown S r order w) = files w"
proof -
  have "files (snd (live_Unmount S l (live_Cancel S l w))) = files w" for l w
    using assms by (simp add: live_Unmount_def live_Cancel_def unmount_writes_nothing_def split: option.splits)
  then have "files (Shutdown_list S ls w) = files w" for ls
    by (induction S ls w rule: Shutdown_list.induct) simp_all
  then show ?thesis by (simp add: Shutdown_def)
qed

lemma on_file_files: "on_file files p rs w \<Longrightarrow> files w' = files w \<Longrightarrow> on_file files p rs w'"
  by (simp add: on_file_def)

text \<open>C5: a rolling restart loses no mount point. Take a process whose service has run in any interleaving,
  with no call under way and no failed write, that gets the signal and shuts down; then the process that
  is started next on the same state file starts, knows exactly the targets the first had recorded, with
  nothing live, and answers every republish of each of them without an error, so kubelet never deletes
  the mount point, whatever the cluster and the kernel do.\<close>

theorem rolling_restart:
  assumes "disk (e_os E) files" "unmount_writes_nothing (e_os E) files" "keeps_file E files p"
    and "r_statePath (nd_registry n0) = p" "on_file files p (r_records (nd_registry n0)) w0"
    and "svc_reachable E n0 w0 s" "\<not> sv_lost s" "\<And>g. \<not> unsaved (sv_pc s g)"
      "\<And>g. UnpublishReplied g p True \<notin> set (sv_log s)" "valid_records (r_records (sv_reg s))"
    and "parse_flags args default_options = Inr opt" "o_nodeID opt \<noteq> ''''" "o_statePath opt = p"
  shows "\<exists>reg w1. node_start (e_os E) args (Shutdown (e_os E) (sv_reg s) order (sv_world s)) = (Inr (opt, reg), w1) \<and>
    r_live reg = fmempty \<and> r_records reg = r_records (sv_reg s) \<and>
    (\<forall>target\<in>fset (fmdom (r_records (sv_reg s))). \<forall>volumeId vc w. volumeId \<noteq> '''' \<longrightarrow> target \<noteq> '''' \<longrightarrow>
       fst (NodePublishVolume E volumeId target vc (NewNodeServer (o_nodeID opt) reg) w) = None)"
proof -
  let ?w = "Shutdown (e_os E) (sv_reg s) order (sv_world s)"
  have "file_inv files p s" by (rule file_inv_reachable [OF assms(6,1,3,4,5)])
  with assms(7-9) have "on_file files p (r_records (sv_reg s)) (sv_world s)" by (simp add: file_inv_def)
  from on_file_NewRegistry [OF on_file_files [OF this Shutdown_files [OF assms(2)]] assms(1,10)]
  obtain reg w1 where r: "NewRegistry (e_os E) p ?w = (Inr reg, w1)" "r_records reg = r_records (sv_reg s)" "r_live reg = fmempty"
    by blast
  have "fst (NodePublishVolume E volumeId target vc (NewNodeServer (o_nodeID opt) reg) w) = None"
    if "target |\<in>| fmdom (r_records (sv_reg s))" "volumeId \<noteq> ''''" "target \<noteq> ''''" for target volumeId vc w
    using known_target_silent [of "NewNodeServer (o_nodeID opt) reg" target volumeId E vc w] that r(2)
    by (simp add: WasPublished_def NewNodeServer_def)
  with r assms(11-13) show ?thesis by (simp add: node_start_def)
qed

section \<open>A concrete process\<close>

definition demo_listen :: "IdentityServer \<Rightarrow> node_server \<Rightarrow> string \<Rightarrow> node_world \<Rightarrow> outcome \<times> node_world" where
  "demo_listen ident node path w = (Signalled node, w)"

definition demo_options :: options where
  "demo_options = default_options\<lparr>o_nodeID := ''node-1'', o_statePath := ''/state.json''\<rparr>"

lemma demo_args: "parse_flags (render_flags demo_options) default_options = Inr demo_options"
  using parse_rendered [of demo_options "[]"] by simp

theorem start_refuses_witness:
  "node_main ref_os demo_listen [] ''dev'' [] node_world0 = (1, node_world0) \<and>
   node_start ref_os (render_flags demo_options) node_world0
     = (Inr (demo_options, empty_registry ''/state.json''), node_world0)"
proof -
  have "node_main ref_os demo_listen [] ''dev'' [] node_world0 = (1, node_world0)"
    using start_refuses [where args = "[]" and S = ref_os and listen = demo_listen and order = "[]" and version = "''dev''" and w = node_world0] by (simp add: default_options_def)
  moreover have "node_start ref_os (render_flags demo_options) node_world0
     = (Inr (demo_options, empty_registry ''/state.json''), node_world0)"
    using start_refuses [where args = "render_flags demo_options" and S = ref_os and w = node_world0]
    unfolding demo_args by (simp add: demo_options_def node_world0_def)
  ultimately show ?thesis ..
qed

theorem rolling_restart_witness:
  "\<exists>s reg w1. svc_reachable (demo_env (Inr demo_secret)) demo_node node_world0 s \<and>
    node_start ref_os (render_flags demo_options) (Shutdown ref_os (sv_reg s) [demo_target] (sv_world s)) = (Inr (demo_options, reg), w1) \<and>
    r_records reg = one_record \<and>
    fst (NodePublishVolume (demo_env (Inl Forbidden)) ''v1'' demo_target fmempty (NewNodeServer ''node-1'' reg) w1) = None"
proof -
  let ?E = "demo_env (Inr demo_secret)"
  obtain s where s: "svc_reachable ?E demo_node node_world0 s" "sv_pc s = (\<lambda>_. Idle)" "\<not> sv_lost s"
    "sv_log s = [PublishReplied 5 demo_target None, UnpublishReplied 6 demo_target True, PublishCalled 5 demo_target]"
    "sv_reg s = demo_registry" using demo_overtaken by blast
  have d: "disk (e_os ?E) nw_files" "unmount_writes_nothing (e_os ?E) nw_files"
    using ref_disk by (simp_all add: unmount_writes_nothing_def)
  have p: "r_statePath (nd_registry demo_node) = ''/state.json''"
    "on_file nw_files ''/state.json'' (r_records (nd_registry demo_node)) node_world0"
    by (simp_all add: empty_registry_def on_file_def node_world0_def)
  have l: "UnpublishReplied g ''/state.json'' True \<notin> set (sv_log s)" for g by (simp add: s demo_target_def)
  have u: "\<not> unsaved (sv_pc s g)" for g by (simp add: s)
  have v: "valid_records (r_records (sv_reg s))" by (simp add: s(5) demo_put one_record_valid)
  have o: "o_nodeID demo_options \<noteq> []" "o_statePath demo_options = ''/state.json''" "o_nodeID demo_options = ''node-1''"
    by (simp_all add: demo_options_def)
  obtain reg w1 where r: "node_start ref_os (render_flags demo_options) (Shutdown ref_os (sv_reg s) [demo_target] (sv_world s))
      = (Inr (demo_options, reg), w1)" "r_records reg = one_record"
    using rolling_restart [OF d demo_keeps_file p s(1,3) u l v demo_args o(1,2), of "[demo_target]"] by (auto simp: s(5) demo_put)
  have "WasPublished (nd_registry (NewNodeServer ''node-1'' reg)) demo_target"
    by (simp add: WasPublished_def NewNodeServer_def r(2) one_record_def demo_target_def)
  then have "fst (NodePublishVolume (demo_env (Inl Forbidden)) ''v1'' demo_target fmempty (NewNodeServer ''node-1'' reg) w1) = None"
    by (rule known_target_silent) (simp_all add: demo_target_def)
  with r s(1) show ?thesis by blast
qed

end
