(* ===== verification/Access.thy ===== *)
theory Access
  imports Driver
begin

text \<open>
  What a pod's ServiceAccount may do: the Role and the RoleBinding that \<open>RBACHint\<close> prints, as values and
  as the YAML of the hint, and the requests that the driver makes for a volume with the pod's token. RBAC
  itself is the API server's: \<open>rule_allows\<close> and \<open>rbac_allows\<close> are its documented rules, and
  \<open>admits K ok\<close> is the assumption that the server behind \<open>K\<close> refuses no request that they allow.
\<close>

section \<open>Rules, roles and bindings\<close>

text \<open>A rule without resource names is for every object; a request that creates an object carries no
  name, so a rule with resource names never allows it.\<close>

record policy_rule =
  pr_apiGroups :: "string list"
  pr_resources :: "string list"
  pr_resourceNames :: "string list"
  pr_verbs :: "string list"

record request =
  rq_namespace :: string
  rq_group :: string
  rq_resource :: string
  rq_name :: "string option"
  rq_verb :: string

definition rule_allows :: "policy_rule \<Rightarrow> request \<Rightarrow> bool" where
  "rule_allows r q \<longleftrightarrow>
     rq_group q \<in> set (pr_apiGroups r) \<and> rq_resource q \<in> set (pr_resources r) \<and> rq_verb q \<in> set (pr_verbs r) \<and>
     (pr_resourceNames r = [] \<or> (\<exists>n. rq_name q = Some n \<and> n \<in> set (pr_resourceNames r)))"

record role =
  ro_namespace :: string
  ro_name :: string
  ro_rules :: "policy_rule list"

text \<open>The subjects are ServiceAccounts, each a namespace and a name; the reference is to a Role.\<close>

record role_binding =
  rb_namespace :: string
  rb_name :: string
  rb_roleRef :: string
  rb_subjects :: "(string \<times> string) list"

text \<open>The Roles and bindings of a cluster, by namespace and name. Applying one replaces the rules, or the
  subjects, of the one that was there.\<close>

record rbac =
  rs_roles :: "string \<times> string \<Rightarrow> policy_rule list option"
  rs_bindings :: "string \<times> string \<Rightarrow> (string \<times> (string \<times> string) list) option"

definition no_rbac :: rbac where
  "no_rbac = \<lparr>rs_roles = (\<lambda>_. None), rs_bindings = (\<lambda>_. None)\<rparr>"

definition apply_role :: "role \<Rightarrow> rbac \<Rightarrow> rbac" where
  "apply_role r s = s\<lparr>rs_roles := (rs_roles s)((ro_namespace r, ro_name r) \<mapsto> ro_rules r)\<rparr>"

definition apply_binding :: "role_binding \<Rightarrow> rbac \<Rightarrow> rbac" where
  "apply_binding b s =
     s\<lparr>rs_bindings := (rs_bindings s)((rb_namespace b, rb_name b) \<mapsto> (rb_roleRef b, rb_subjects b))\<rparr>"

definition rbac_allows :: "rbac \<Rightarrow> string \<Rightarrow> string \<Rightarrow> request \<Rightarrow> bool" where
  "rbac_allows s ns sa q \<longleftrightarrow>
     (\<exists>b ref subjects rules r. rs_bindings s (rq_namespace q, b) = Some (ref, subjects) \<and> (ns, sa) \<in> set subjects \<and>
        rs_roles s (rq_namespace q, ref) = Some rules \<and> r \<in> set rules \<and> rule_allows r q)"

section \<open>What the hint prints\<close>

definition hint_resource :: "string \<Rightarrow> string" where
  "hint_resource kind = (if map ascii_lower kind = ''configmap'' then ''configmaps'' else ''secrets'')"

definition hint_role :: "string \<Rightarrow> string \<Rightarrow> string \<Rightarrow> string \<Rightarrow> role" where
  "hint_role namespace kind objectName leaseName =
     \<lparr>ro_namespace = namespace, ro_name = ''roommate-'' @ objectName,
      ro_rules =
       [\<lparr>pr_apiGroups = [''''], pr_resources = [hint_resource kind], pr_resourceNames = [objectName],
          pr_verbs = [''get'', ''watch'', ''patch'']\<rparr>,
        \<lparr>pr_apiGroups = [''coordination.k8s.io''], pr_resources = [''leases''], pr_resourceNames = [leaseName],
          pr_verbs = [''get'', ''update'']\<rparr>,
        \<lparr>pr_apiGroups = [''coordination.k8s.io''], pr_resources = [''leases''], pr_resourceNames = [],
          pr_verbs = [''create'']\<rparr>]\<rparr>"

definition hint_binding :: "string \<Rightarrow> string \<Rightarrow> string \<Rightarrow> role_binding" where
  "hint_binding namespace serviceAccount objectName =
     \<lparr>rb_namespace = namespace, rb_name = ''roommate-'' @ objectName @ ''-'' @ serviceAccount,
      rb_roleRef = ''roommate-'' @ objectName, rb_subjects = [(namespace, serviceAccount)]\<rparr>"

definition apply_hint :: "string \<Rightarrow> string \<Rightarrow> string \<Rightarrow> string \<Rightarrow> string \<Rightarrow> rbac \<Rightarrow> rbac" where
  "apply_hint namespace serviceAccount kind objectName leaseName s =
     apply_binding (hint_binding namespace serviceAccount objectName)
       (apply_role (hint_role namespace kind objectName leaseName) s)"

text \<open>The YAML of a Role and of a RoleBinding in the shape of the hint, by lines.\<close>

fun flow_items :: "string list \<Rightarrow> string" where
  "flow_items [] = ''''"
| "flow_items [x] = quote x"
| "flow_items (x # xs) = quote x @ '', '' @ flow_items xs"

definition flow_list :: "string list \<Rightarrow> string" where
  "flow_list xs = ''['' @ flow_items xs @ '']''"

definition rule_yaml :: "policy_rule \<Rightarrow> string list" where
  "rule_yaml r =
     [''  - apiGroups: '' @ flow_list (pr_apiGroups r), ''    resources: '' @ flow_list (pr_resources r)] @
     (if pr_resourceNames r = [] then [] else [''    resourceNames: '' @ flow_list (pr_resourceNames r)]) @
     [''    verbs: '' @ flow_list (pr_verbs r)]"

definition role_yaml :: "role \<Rightarrow> string list" where
  "role_yaml r =
     [''apiVersion: rbac.authorization.k8s.io/v1'', ''kind: Role'', ''metadata:'',
      ''  namespace: '' @ ro_namespace r, ''  name: '' @ ro_name r, ''rules:''] @ concat (map rule_yaml (ro_rules r))"

definition binding_yaml :: "role_binding \<Rightarrow> string list" where
  "binding_yaml b =
     [''apiVersion: rbac.authorization.k8s.io/v1'', ''kind: RoleBinding'', ''metadata:'',
      ''  namespace: '' @ rb_namespace b, ''  name: '' @ rb_name b, ''roleRef:'',
      ''  apiGroup: rbac.authorization.k8s.io'', ''  kind: Role'', ''  name: '' @ rb_roleRef b, ''subjects:''] @
     concat (map (\<lambda>(ns, sa). [''  - kind: ServiceAccount'', ''    name: '' @ sa, ''    namespace: '' @ ns]) (rb_subjects b))"

definition hint_intro :: "string \<Rightarrow> string \<Rightarrow> string \<Rightarrow> string \<Rightarrow> string list" where
  "hint_intro namespace serviceAccount kind objectName =
     [''serviceaccount '' @ namespace @ ''/'' @ serviceAccount @ '' is not permitted to use '' @ hint_resource kind @ ''/''
        @ objectName @ ''.'' @ [CHR 0x0A],
      ''Apply this in namespace '' @ namespace @ '':'' @ [CHR 0x0A], ''---'']"

definition hint_comment :: "string \<Rightarrow> string \<Rightarrow> string list" where
  "hint_comment kind objectName =
     [''---'',
      ''# Named per-ServiceAccount, not just per-object: a RoleBinding''@ [CHR 0x27] @ ''s subjects'',
      ''# list is replaced wholesale on apply, not merged with what'' @ [CHR 0x27] @ ''s already'',
      ''# there. If another ServiceAccount already has a working binding for'',
      ''# '' @ kind @ ''/'' @ objectName @ '', add a subject to that one instead of applying this '' @ [CHR 0xE2, CHR 0x80, CHR 0x94] @ '' applying'',
      ''# this alongside one named just '' @ [CHR 0x22] @ ''roommate-'' @ objectName @ [CHR 0x22] @ '' would silently drop the'',
      ''# other ServiceAccount'' @ [CHR 0x27] @ ''s subject and 403 its next API call.'']"

text \<open>The text of \<open>RBACHint\<close> is the YAML of exactly this Role and this binding.\<close>

lemma RBACHint_prints:
  "RBACHint namespace serviceAccount kind objectName leaseName =
     lines_of (hint_intro namespace serviceAccount kind objectName @
       role_yaml (hint_role namespace kind objectName leaseName) @ hint_comment kind objectName @
       binding_yaml (hint_binding namespace serviceAccount objectName))"
  by (simp add: RBACHint_def hint_intro_def role_yaml_def rule_yaml_def hint_role_def hint_comment_def
      binding_yaml_def hint_binding_def flow_list_def hint_resource_def Let_def)

section \<open>What the driver asks for\<close>

definition object_request :: "string \<Rightarrow> string \<Rightarrow> string \<Rightarrow> string \<Rightarrow> request" where
  "object_request resource verb ns name =
     \<lparr>rq_namespace = ns, rq_group = '''', rq_resource = resource, rq_name = Some name, rq_verb = verb\<rparr>"

definition lease_request :: "string \<Rightarrow> string \<Rightarrow> string option \<Rightarrow> request" where
  "lease_request verb ns name =
     \<lparr>rq_namespace = ns, rq_group = ''coordination.k8s.io'', rq_resource = ''leases'', rq_name = name, rq_verb = verb\<rparr>"

text \<open>\<open>refused\<close> is what \<open>read_status\<close> and \<open>errnoFor\<close> take for a missing permission.\<close>

definition refused :: "'a result \<Rightarrow> bool" where
  "refused r \<longleftrightarrow> r = Inl Forbidden \<or> r = Inl Unauthorized"

text \<open>The request behind each operation of the API, and the server that refuses none that is allowed. The
  watches carry the name in their field selector.\<close>

definition admits :: "'w kube \<Rightarrow> (request \<Rightarrow> bool) \<Rightarrow> bool" where
  "admits K ok \<longleftrightarrow>
     (\<forall>ns n w. ok (object_request ''secrets'' ''get'' ns n) \<longrightarrow> \<not> refused (fst (get_secret K ns n w))) \<and>
     (\<forall>ns n p w. ok (object_request ''secrets'' ''patch'' ns n) \<longrightarrow> \<not> refused (fst (patch_secret K ns n p w))) \<and>
     (\<forall>ns n rv w. ok (object_request ''secrets'' ''watch'' ns n) \<longrightarrow> \<not> refused (fst (watch_secret K ns n rv w))) \<and>
     (\<forall>ns n w. ok (object_request ''configmaps'' ''get'' ns n) \<longrightarrow> \<not> refused (fst (get_configmap K ns n w))) \<and>
     (\<forall>ns n p w. ok (object_request ''configmaps'' ''patch'' ns n) \<longrightarrow> \<not> refused (fst (patch_configmap K ns n p w))) \<and>
     (\<forall>ns n rv w. ok (object_request ''configmaps'' ''watch'' ns n) \<longrightarrow> \<not> refused (fst (watch_configmap K ns n rv w))) \<and>
     (\<forall>ns n w. ok (lease_request ''get'' ns (Some n)) \<longrightarrow> \<not> refused (fst (get_lease K ns n w))) \<and>
     (\<forall>ns n l w. ok (lease_request ''update'' ns (Some n)) \<longrightarrow> \<not> refused (fst (update_lease K ns n l w))) \<and>
     (\<forall>ns n l w. ok (lease_request ''create'' ns None) \<longrightarrow> \<not> refused (fst (create_lease K ns n l w)))"

fun store_requests :: "store \<Rightarrow> request list" where
  "store_requests (SecretStore ns n) = map (\<lambda>v. object_request ''secrets'' v ns n) [''get'', ''watch'', ''patch'']"
| "store_requests (ConfigMapStore ns n) = map (\<lambda>v. object_request ''configmaps'' v ns n) [''get'', ''watch'', ''patch'']"

definition lease_requests :: "string \<Rightarrow> string \<Rightarrow> request list" where
  "lease_requests ns n =
     [lease_request ''get'' ns (Some n), lease_request ''update'' ns (Some n), lease_request ''create'' ns None]"

definition volume_requests :: "config \<Rightarrow> request list" where
  "volume_requests cfg =
     map (\<lambda>v. object_request (hint_resource (config.ObjectKind cfg)) v (Namespace cfg) (config.ObjectName cfg))
       [''get'', ''watch'', ''patch''] @ lease_requests (Namespace cfg) (LeaseName cfg)"

definition all_ok :: "(request \<Rightarrow> bool) \<Rightarrow> request list \<Rightarrow> bool" where
  "all_ok ok qs \<longleftrightarrow> (\<forall>q \<in> set qs. ok q)"

lemma refused_simps [simp]:
  "\<not> refused (Inr x)" "refused (Inl e) \<longleftrightarrow> e = Forbidden \<or> e = Unauthorized"
  by (auto simp: refused_def)

lemma all_ok_append [simp]: "all_ok ok (xs @ ys) \<longleftrightarrow> all_ok ok xs \<and> all_ok ok ys"
  by (auto simp: all_ok_def)

section \<open>Admitted operations\<close>

lemma admitted_store:
  assumes "admits K ok" "all_ok ok (store_requests st)"
  shows "\<not> refused (fst (store_Get K st w))" "\<not> refused (fst (store_Watch K st rv w))"
    "\<not> refused (fst (store_Patch K st puts del w))"
  using assms unfolding admits_def
  by (cases st; auto simp: all_ok_def secret_Get_def configmap_Get_def secret_Decode_def configmap_Decode_def
      secret_Watch_def configmap_Watch_def secret_Patch_def configmap_Patch_def refused_def
      split: sum.splits prod.splits; metis fst_conv)+

lemma admitted_lease:
  assumes "admits K ok" "all_ok ok (lease_requests ns n)"
  shows "\<not> refused (fst (get_lease K ns n w))" "\<not> refused (fst (update_lease K ns n l w))"
    "\<not> refused (fst (create_lease K ns n l w))"
  using assms by (simp_all add: admits_def all_ok_def lease_requests_def)

lemma not_refused: "\<not> refused r \<longleftrightarrow> r \<noteq> Inl Forbidden \<and> r \<noteq> Inl Unauthorized"
  by (auto simp: refused_def)

lemma admitted_Fresh:
  assumes "admits K ok" "all_ok ok (store_requests (c_store c))"
  shows "\<not> refused (fst (cache_Fresh K c w))"
  using admitted_store(1) [OF assms, of w] by (auto simp: cache_Fresh_def split: sum.splits prod.splits)

lemma admitted_TryAcquire:
  assumes "admits K ok" "all_ok ok (lease_requests (m_ns m) (m_name m))"
  shows "\<not> refused (fst (TryAcquire K mu m w))"
  by (auto simp: TryAcquire_def lease_create_def takeOver_def case_prod_unfold
      admitted_lease [OF assms, unfolded not_refused] split: sum.splits)

lemma TryAcquire_lease:
  "TryAcquire K mu m w = (r, m1, w1) \<Longrightarrow> m_ns m1 = m_ns m \<and> m_name m1 = m_name m"
  by (auto simp: TryAcquire_def startRenewal_def case_prod_unfold split: sum.splits if_splits)

lemma admitted_Acquire:
  assumes K: "admits K ok" and "Acquire K mu m w = Some res" "all_ok ok (lease_requests (m_ns m) (m_name m))"
  shows "\<not> refused (fst res)"
proof -
  let ?P = "\<lambda>K mu m w res. admits K ok \<longrightarrow> all_ok ok (lease_requests (m_ns m) (m_name m)) \<longrightarrow> \<not> refused (fst res)"
  have "?P K mu m w res"
  proof (rule Acquire.raw_induct [where P = ?P, OF _ assms(2)])
    fix acq :: "'a kube \<Rightarrow> bool option \<Rightarrow> manager \<Rightarrow> 'a \<Rightarrow> (unit result \<times> manager \<times> 'a) option"
    fix K :: "'a kube" and mu m w res
    assume ih: "\<And>K mu m w res. acq K mu m w = Some res \<Longrightarrow> ?P K mu m w res"
      and body: "(case TryAcquire K mu m w of (res, m1, w1) \<Rightarrow> case res of Inl err \<Rightarrow> Some (Inl err, m1, w1)
        | Inr ok \<Rightarrow> if ok then Some (Inr (), m1, w1) else (case sleepCtx K (m_duration m div 3) w1 of
            (fired, w2) \<Rightarrow> if \<not> fired then Some (Inl CtxErr, m1, w2) else acq K mu m1 w2)) = Some res"
    obtain r m1 w1 where t: "TryAcquire K mu m w = (r, m1, w1)" by (rule prod_cases3)
    obtain fired w2 where s: "sleepCtx K (m_duration m div 3) w1 = (fired, w2)"
      by (cases "sleepCtx K (m_duration m div 3) w1")
    show "?P K mu m w res"
      using admitted_TryAcquire [of K ok m mu w] TryAcquire_lease [OF t] body ih [of K mu m1 w2 res] t s
      by (auto split: sum.splits if_splits)
  qed
  with assms show ?thesis by simp
qed

lemma admitted_renewal:
  assumes "admits K ok" "all_ok ok (lease_requests (m_ns m) (m_name m))"
  shows "\<not> refused (fst (renewOnce K m w))" "\<not> refused (fst (lease_Release K m w))"
  by (auto simp: renewOnce_def lease_Release_def Let_def case_prod_unfold admitted_lease [OF assms]
      admitted_lease [OF assms, unfolded not_refused] split: sum.splits)

lemma admitted_Commit:
  assumes "admits K ok" "all_ok ok (store_requests (c_store c))"
  shows "\<not> refused (fst (Commit K c lease puts del w))"
  by (cases rule: checkSize_cases [of c puts del])
    (auto simp: Commit_def case_prod_unfold admitted_store(3) [OF assms, unfolded not_refused] split: sum.splits option.splits)

lemma Commit_store: "c_store (fst (snd (Commit K c lease puts del w))) = c_store c"
  by (auto simp: Commit_def case_prod_unfold split: sum.splits option.splits)

lemma errnoFor_EACCES: "errnoFor e = EACCES \<longleftrightarrow> e = Forbidden \<or> e = Unauthorized"
  by (simp add: errnoFor_def)

text \<open>A volume whose object and Lease may be used.\<close>

definition may_use :: "(request \<Rightarrow> bool) \<Rightarrow> volume \<Rightarrow> bool" where
  "may_use ok v \<longleftrightarrow> all_ok ok (store_requests (c_store (v_cache v))) \<and>
     all_ok ok (lease_requests (Namespace (v_cfg v)) (LeaseName (v_cfg v)))"

lemma admitted_handle_commit:
  assumes "admits K ok" "may_use ok v" "handle_commit K v h w = (e, v1, h1, w1)"
  shows "e \<noteq> EACCES"
proof -
  have "\<not> refused (fst (Commit K (v_cache v) lease puts del w))" for lease puts del w
    using assms(1,2) admitted_Commit [of K ok "v_cache v"] by (simp add: may_use_def)
  with assms(3) show ?thesis
    by (auto simp: handle_commit_def case_prod_unfold not_refused errnoFor_EACCES split: option.splits sum.splits)
qed

lemma admitted_setlk_fresh:
  assumes "admits K ok" "may_use ok v" "setlk_fresh K v h m w = (e, v1, h1, w1)"
  shows "e \<noteq> EACCES"
proof -
  have "\<not> refused (fst (cache_Fresh K (v_cache v) w))"
    using assms(1,2) admitted_Fresh [of K ok "v_cache v"] by (simp add: may_use_def)
  with assms(3) show ?thesis
    by (auto simp: setlk_fresh_def case_prod_unfold errnoFor_EACCES split: sum.splits)
qed

lemma admitted_setlk:
  assumes K: "admits K ok" and v: "may_use ok v" and s: "setlk K typ flags blocking v h w = Some (e, v1, h1, w1)"
  shows "e \<noteq> EACCES"
proof -
  obtain m v2 where n: "NewLease v = (m, v2)" by (cases "NewLease v")
  note nf = NewLease_fields [OF n]
  have v2: "may_use ok v2" and m: "all_ok ok (lease_requests (m_ns m) (m_name m))"
    using v n by (auto simp: may_use_def NewLease_def NewLeaseManager_def Let_def)
  have u: "handle_unlock K v h w = (e, v1, h1, w1) \<Longrightarrow> e \<noteq> EACCES"
    using admitted_handle_commit [OF K v] by (auto simp: handle_unlock_def split: prod.splits)
  note f = admitted_setlk_fresh [OF K v2]
  have a: "r = Inl x \<Longrightarrow> errnoFor x \<noteq> EACCES" if "Acquire K mu m w = Some (r, m1, w1)" for mu r x m1 w1
    using admitted_Acquire [OF K that m] by (simp add: errnoFor_EACCES)
  have t: "r = Inl x \<Longrightarrow> errnoFor x \<noteq> EACCES" if "TryAcquire K mu m w = (r, m1, w1)" for mu r x m1 w1
    using admitted_TryAcquire [OF K m, of mu w] that by (simp add: errnoFor_EACCES)
  show ?thesis
  proof (cases "flags AND FUSE_LK_FLOCK = 0 \<or> typ = F_UNLCK \<or> h_lease h \<noteq> None")
    case True
    with s u show ?thesis by (auto simp: setlk_def split: if_splits)
  next
    case early: False
    show ?thesis
    proof (cases blocking)
      case True
      with s early n obtain r m1 w2 where q: "Acquire K (Some (v_acquiring v2)) m w = Some (r, m1, w2)"
        by (auto simp: setlk_def bind_eq_Some_conv)
      with s early n True a [OF q] f show ?thesis by (cases r) (auto simp: setlk_def split: if_splits)
    next
      case False
      obtain r m1 w2 where q: "TryAcquire K (Some (v_acquiring v2)) m w = (r, m1, w2)" by (rule prod_cases3)
      with s early n False t [OF q] f show ?thesis by (cases r) (auto simp: setlk_def split: if_splits)
    qed
  qed
qed

section \<open>The hint makes a denied mount work\<close>

lemma apply_hint_allows:
  assumes "r \<in> set (ro_rules (hint_role ns kind name lease))" "rule_allows r q" "rq_namespace q = ns"
  shows "rbac_allows (apply_hint ns sa kind name lease s) ns sa q"
  using assms unfolding rbac_allows_def
  by (intro exI [of _ "''roommate-'' @ name @ ''-'' @ sa"] exI [of _ "''roommate-'' @ name"] exI [of _ "[(ns, sa)]"]
      exI [of _ "ro_rules (hint_role ns kind name lease)"] exI [of _ r])
    (simp add: apply_hint_def apply_role_def apply_binding_def hint_binding_def hint_role_def)

lemma hint_covers:
  assumes "Namespace cfg = ns"
  shows "all_ok (rbac_allows (apply_hint ns sa (config.ObjectKind cfg) (config.ObjectName cfg) (LeaseName cfg) s) ns sa)
    (volume_requests cfg)"
  unfolding all_ok_def
proof
  let ?rules = "ro_rules (hint_role ns (config.ObjectKind cfg) (config.ObjectName cfg) (LeaseName cfg))"
  fix q assume q: "q \<in> set (volume_requests cfg)"
  then have "\<exists>r \<in> set ?rules. rule_allows r q"
    by (auto simp: volume_requests_def lease_requests_def hint_role_def rule_allows_def object_request_def lease_request_def)
  moreover have "rq_namespace q = ns"
    using q assms by (auto simp: volume_requests_def lease_requests_def object_request_def lease_request_def)
  ultimately show "rbac_allows (apply_hint ns sa (config.ObjectKind cfg) (config.ObjectName cfg) (LeaseName cfg) s) ns sa q"
    using apply_hint_allows by blast
qed

lemma NewVolume_requests:
  assumes "ParseConfig dns vc ns = Inr cfg" "NewVolume cfg uid = Inr vol"
  shows "v_cfg vol = cfg" "may_use ok vol \<longleftrightarrow> all_ok ok (volume_requests cfg)"
proof -
  have k: "config.ObjectKind cfg \<in> {KindSecret, KindConfigMap}" using ParseConfig_Inr [OF assms(1)] by blast
  have r: "hint_resource KindSecret = ''secrets''" "hint_resource KindConfigMap = ''configmaps''"
    by code_simp+
  show "v_cfg vol = cfg" using assms(2) by (auto simp: NewVolume_def split: if_splits)
  show "may_use ok vol \<longleftrightarrow> all_ok ok (volume_requests cfg)"
    using k assms(2) r
    by (auto simp: NewVolume_def NewCache_def may_use_def volume_requests_def all_ok_def split: if_splits)
qed

text \<open>The promise of the hint: once the Role and the RoleBinding it prints are applied in the pod's
  namespace, over whatever was there, and the server refuses no request that RBAC allows, publishing the
  pod's volume is not answered with \<open>PermissionDenied\<close> any more.\<close>

theorem hint_unblocks_publish:
  assumes "PodIdentity vc = Inr (ns, sa, uid)" and "ParseConfig (e_dns E) vc ns = Inr cfg"
    and K: "\<And>client tokens. ClientFor (e_inCluster E) (e_newForConfig E) (nd_next n) = Inr client \<Longrightarrow>
      admits (client tokens)
        (rbac_allows (apply_hint ns sa (config.ObjectKind cfg) (config.ObjectName cfg) (LeaseName cfg) s) ns sa)"
  shows "fst (NodePublishVolume E volumeId target vc n w) \<noteq> Some (PermissionDenied, msg)"
proof -
  let ?ok = "rbac_allows (apply_hint ns sa (config.ObjectKind cfg) (config.ObjectName cfg) (LeaseName cfg) s) ns sa"
  have ns: "Namespace cfg = ns" using ParseConfig_Inr [OF assms(2)] by simp
  have read: "\<not> refused (fst (cache_Fresh (client tokens) (v_cache vol) w))"
    if "ClientFor (e_inCluster E) (e_newForConfig E) (nd_next n) = Inr client" "NewVolume cfg uid = Inr vol" for client tokens vol w
  proof -
    have "may_use ?ok vol" using NewVolume_requests(2) [OF assms(2) that(2)] hint_covers [OF ns] by simp
    then show ?thesis by (intro admitted_Fresh [OF K [OF that(1)]]) (simp add: may_use_def)
  qed
  have a: "authorize E vc n w \<noteq> (Inl (PermissionDenied, msg), n1, w1)" for n1 w1
    using assms(1,2) read
    by (auto simp: authorize_def Let_def read_status_def attempted_def case_prod_unfold not_refused
        split: if_splits sum.splits)
  have m: "publish_mount E target cfg' ns' vol h n' w' \<noteq> (Some (PermissionDenied, msg), n1, w1)" for cfg' ns' vol h n' w' n1 w1
    by (auto simp: publish_mount_def mount_volume_def record_mount_def split: sum.splits prod.splits)
  have "publish E target vc n w \<noteq> (Some (PermissionDenied, msg), n1, w1)" for n1 w1
    using a m by (auto simp: publish_def split: sum.splits prod.splits)
  then show ?thesis
    by (auto simp: NodePublish_defs Let_def split: option.splits prod.splits if_splits)
qed

text \<open>C15: and the mounted volume works: for every later state of that volume, no quorum read, watch, renewal or
  release is refused, and no flush and no lock request, blocking or not, fails with \<open>EACCES\<close>.\<close>

theorem hint_unblocks_mount:
  assumes "ParseConfig dns vc ns = Inr cfg" and "NewVolume cfg uid = Inr vol"
    and K: "admits K (rbac_allows (apply_hint ns sa (config.ObjectKind cfg) (config.ObjectName cfg) (LeaseName cfg) s) ns sa)"
    and v: "v_cfg v = cfg" "c_store (v_cache v) = c_store (v_cache vol)"
    and m: "m_ns m = Namespace cfg" "m_name m = LeaseName cfg"
  shows "\<not> refused (fst (cache_Fresh K (v_cache v) w)) \<and> \<not> refused (fst (store_Watch K (c_store (v_cache v)) rv w)) \<and>
    \<not> refused (fst (renewOnce K m w)) \<and> \<not> refused (fst (lease_Release K m w)) \<and>
    fst (handle_Flush K v h w) \<noteq> EACCES \<and>
    (\<forall>r. setlk K typ flags blocking v h w = Some r \<longrightarrow> fst r \<noteq> EACCES)"
proof -
  let ?ok = "rbac_allows (apply_hint ns sa (config.ObjectKind cfg) (config.ObjectName cfg) (LeaseName cfg) s) ns sa"
  have "Namespace cfg = ns" using ParseConfig_Inr [OF assms(1)] by simp
  then have u: "may_use ?ok v"
    using NewVolume_requests [OF assms(1,2)] hint_covers v by (simp add: may_use_def)
  have l: "all_ok ?ok (lease_requests (m_ns m) (m_name m))" "all_ok ?ok (store_requests (c_store (v_cache v)))"
    using u m v by (simp_all add: may_use_def)
  have "fst (handle_Flush K v h w) \<noteq> EACCES"
    using admitted_handle_commit [OF K u] by (metis handle_Flush_def prod.collapse)
  moreover have "\<forall>r. setlk K typ flags blocking v h w = Some r \<longrightarrow> fst r \<noteq> EACCES"
    using admitted_setlk [OF K u] by (metis prod.collapse)
  ultimately show ?thesis
    using admitted_Fresh [OF K l(2)] admitted_store(2) [OF K l(2)] admitted_renewal [OF K l(1)] by blast
qed

section \<open>And grants nothing else\<close>

text \<open>Authorization does not see the name of an object that is to be created.\<close>

definition as_authorized :: "request \<Rightarrow> request" where
  "as_authorized q = (if rq_verb q = ''create'' then q\<lparr>rq_name := None\<rparr> else q)"

lemma apply_hint_no_rbac:
  "rbac_allows (apply_hint ns sa kind name lease no_rbac) ns' sa' q \<longleftrightarrow>
     ns' = ns \<and> sa' = sa \<and> rq_namespace q = ns \<and> (\<exists>r \<in> set (ro_rules (hint_role ns kind name lease)). rule_allows r q)"
  by (auto simp: rbac_allows_def apply_hint_def apply_role_def apply_binding_def hint_binding_def no_rbac_def
      hint_role_def split: if_splits)

lemma hint_grants:
  "rbac_allows (apply_hint (Namespace cfg) sa (config.ObjectKind cfg) (config.ObjectName cfg) (LeaseName cfg) no_rbac) ns' sa' q \<longleftrightarrow>
     ns' = Namespace cfg \<and> sa' = sa \<and> as_authorized q \<in> set (volume_requests cfg)"
  unfolding apply_hint_no_rbac
  by (cases q) (auto simp: hint_role_def rule_allows_def volume_requests_def lease_requests_def object_request_def
      lease_request_def as_authorized_def)

lemma hint_grants_all:
  "(\<forall>q. rbac_allows (apply_hint (Namespace cfg) sa (config.ObjectKind cfg) (config.ObjectName cfg) (LeaseName cfg) no_rbac)
      (Namespace cfg) sa q \<longrightarrow> ok (as_authorized q)) \<longleftrightarrow> all_ok ok (volume_requests cfg)"
proof -
  have "as_authorized q = q" if "q \<in> set (volume_requests cfg)" for q
    using that by (auto simp: volume_requests_def lease_requests_def object_request_def lease_request_def as_authorized_def)
  then show ?thesis unfolding hint_grants all_ok_def by metis
qed

text \<open>Any API server with an authorizer in front of it, which sees the verb, the resource and the name of
  each call.\<close>

definition if_allowed :: "bool \<Rightarrow> ('w \<Rightarrow> 'a result \<times> 'w) \<Rightarrow> 'w \<Rightarrow> 'a result \<times> 'w" where
  "if_allowed ok call w = (if ok then call w else (Inl Forbidden, w))"

definition guard :: "(request \<Rightarrow> bool) \<Rightarrow> 'w kube \<Rightarrow> 'w kube" where
  "guard ok K = K\<lparr>
     get_secret := (\<lambda>ns n. if_allowed (ok (object_request ''secrets'' ''get'' ns n)) (get_secret K ns n)),
     patch_secret := (\<lambda>ns n p. if_allowed (ok (object_request ''secrets'' ''patch'' ns n)) (patch_secret K ns n p)),
     watch_secret := (\<lambda>ns n rv. if_allowed (ok (object_request ''secrets'' ''watch'' ns n)) (watch_secret K ns n rv)),
     get_configmap := (\<lambda>ns n. if_allowed (ok (object_request ''configmaps'' ''get'' ns n)) (get_configmap K ns n)),
     patch_configmap := (\<lambda>ns n p. if_allowed (ok (object_request ''configmaps'' ''patch'' ns n)) (patch_configmap K ns n p)),
     watch_configmap := (\<lambda>ns n rv. if_allowed (ok (object_request ''configmaps'' ''watch'' ns n)) (watch_configmap K ns n rv)),
     get_lease := (\<lambda>ns n. if_allowed (ok (lease_request ''get'' ns (Some n))) (get_lease K ns n)),
     update_lease := (\<lambda>ns n l. if_allowed (ok (lease_request ''update'' ns (Some n))) (update_lease K ns n l)),
     create_lease := (\<lambda>ns n l. if_allowed (ok (lease_request ''create'' ns None)) (create_lease K ns n l))\<rparr>"

lemma guard_sel [simp]:
  "get_secret (guard ok K) ns n = if_allowed (ok (object_request ''secrets'' ''get'' ns n)) (get_secret K ns n)"
  "patch_secret (guard ok K) ns n p = if_allowed (ok (object_request ''secrets'' ''patch'' ns n)) (patch_secret K ns n p)"
  "watch_secret (guard ok K) ns n rv = if_allowed (ok (object_request ''secrets'' ''watch'' ns n)) (watch_secret K ns n rv)"
  "get_configmap (guard ok K) ns n = if_allowed (ok (object_request ''configmaps'' ''get'' ns n)) (get_configmap K ns n)"
  "patch_configmap (guard ok K) ns n p = if_allowed (ok (object_request ''configmaps'' ''patch'' ns n)) (patch_configmap K ns n p)"
  "watch_configmap (guard ok K) ns n rv = if_allowed (ok (object_request ''configmaps'' ''watch'' ns n)) (watch_configmap K ns n rv)"
  "get_lease (guard ok K) ns n = if_allowed (ok (lease_request ''get'' ns (Some n))) (get_lease K ns n)"
  "update_lease (guard ok K) ns n l = if_allowed (ok (lease_request ''update'' ns (Some n))) (update_lease K ns n l)"
  "create_lease (guard ok K) ns n l = if_allowed (ok (lease_request ''create'' ns None)) (create_lease K ns n l)"
  by (simp_all add: guard_def)

lemma if_allowed_True [simp]: "if_allowed True call w = call w" and if_allowed_False [simp]: "if_allowed False call w = (Inl Forbidden, w)"
  by (simp_all add: if_allowed_def)

lemma guard_admits: "admits K (\<lambda>q. True) \<Longrightarrow> admits (guard ok K) ok"
  by (simp add: admits_def)

text \<open>No operation of the driver on the volume, in whatever state of the cluster, is refused for lack of a
  permission: no quorum read, watch or commit, and no attempt, renewal or release of a manager of its Lease.\<close>

definition never_refused :: "'w kube \<Rightarrow> volume \<Rightarrow> bool" where
  "never_refused K v \<longleftrightarrow>
     (\<forall>w. \<not> refused (fst (cache_Fresh K (v_cache v) w))) \<and>
     (\<forall>rv w. \<not> refused (fst (store_Watch K (c_store (v_cache v)) rv w))) \<and>
     (\<forall>lease puts del w. \<not> refused (fst (Commit K (v_cache v) lease puts del w))) \<and>
     (\<forall>mu m w. m_ns m = Namespace (v_cfg v) \<longrightarrow> m_name m = LeaseName (v_cfg v) \<longrightarrow>
        \<not> refused (fst (TryAcquire K mu m w)) \<and> \<not> refused (fst (renewOnce K m w)) \<and> \<not> refused (fst (lease_Release K m w)))"

lemma may_use_suffices:
  assumes "admits K ok" and "may_use ok v"
  shows "never_refused K v"
  using assms admitted_Fresh [of K ok "v_cache v"] admitted_store(2) [of K ok "c_store (v_cache v)"]
    admitted_Commit [of K ok "v_cache v"] admitted_TryAcquire [of K ok] admitted_renewal [of K ok]
  by (simp add: never_refused_def may_use_def)

text \<open>Each of the six requests is made by some operation, which fails without the permission.\<close>

lemma guard_refuses:
  assumes "q \<in> set (store_requests st)" and "\<not> ok q"
  shows "(\<forall>w. store_Get (guard ok K) st w = (Inl Forbidden, w)) \<or>
    (\<forall>rv w. store_Watch (guard ok K) st rv w = (Inl Forbidden, w)) \<or>
    (\<forall>puts del w. store_Patch (guard ok K) st puts del w = (Inl Forbidden, w))"
  using assms
  by (cases st) (auto simp: secret_Get_def configmap_Get_def secret_Watch_def configmap_Watch_def secret_Patch_def
      configmap_Patch_def)

lemma object_permissions_needed:
  assumes "never_refused (guard ok K) v" and "cache_Current (v_cache v) = None"
  shows "all_ok ok (store_requests (c_store (v_cache v)))"
proof (rule ccontr)
  let ?puts = "fmupd ''k'' (Some '''') fmempty"
  have put: "checkSize (v_cache v) ?puts [] = Inr ()" "writes ?puts []"
    using assms(2) by (auto simp: checkSize_def writes_def MaxObjectBytes_def fmlookup_ran_iff split: if_splits)
  have n: "\<not> refused (fst (Commit (guard ok K) (v_cache v) None ?puts [] w))"
    "\<not> refused (fst (cache_Fresh (guard ok K) (v_cache v) w))"
    "\<not> refused (fst (store_Watch (guard ok K) (c_store (v_cache v)) rv w))" for rv w
    using assms(1) by (simp_all add: never_refused_def)
  assume "\<not> all_ok ok (store_requests (c_store (v_cache v)))"
  then obtain q where "q \<in> set (store_requests (c_store (v_cache v)))" "\<not> ok q" by (auto simp: all_ok_def)
  from guard_refuses [of q _ ok K, OF this] n put show False
    by (auto simp: Commit_def cache_Fresh_def refused_def)
qed

lemma lease_permissions_needed:
  assumes "never_refused (guard ok K) v"
    and absent: "get_lease K (Namespace (v_cfg v)) (LeaseName (v_cfg v)) w0 = (Inl NotFound, w1)"
    and free: "get_lease K (Namespace (v_cfg v)) (LeaseName (v_cfg v)) w2 = (Inr l, w3)" "HolderIdentity l = None"
  shows "all_ok ok (lease_requests (Namespace (v_cfg v)) (LeaseName (v_cfg v)))"
proof -
  let ?m = "NewLeaseManager (Namespace (v_cfg v)) (LeaseName (v_cfg v)) ''h'' 0"
  have "\<not> refused (fst (TryAcquire (guard ok K) None ?m w))" for w
    using assms(1) by (simp add: never_refused_def NewLeaseManager_def)
  from this [of w0] this [of w2] show ?thesis
    using absent free
    by (auto simp: all_ok_def lease_requests_def TryAcquire_def NewLeaseManager_def lease_create_def takeOver_def
        claimable_def if_allowed_def split: if_splits)
qed

text \<open>C29: the hint is exact: behind any authorizer, the driver's operations on the volume, as the code makes
  them, are never refused if and only if the authorizer allows everything that the hint grants to the
  ServiceAccount; so all of it is needed and nothing else is. To others it grants nothing. The server itself
  refuses nothing, and can be in a state without the Lease and in one with a free Lease.\<close>

theorem hint_is_exact:
  assumes "ParseConfig dns vc ns = Inr cfg" and "NewVolume cfg uid = Inr vol"
    and K: "admits K (\<lambda>q. True)" "get_lease K ns (LeaseName cfg) w0 = (Inl NotFound, w1)"
      "get_lease K ns (LeaseName cfg) w2 = (Inr l, w3)" "HolderIdentity l = None"
  shows "(never_refused (guard ok K) vol \<longleftrightarrow>
      (\<forall>q. rbac_allows (apply_hint ns sa (config.ObjectKind cfg) (config.ObjectName cfg) (LeaseName cfg) no_rbac) ns sa q \<longrightarrow>
        ok (as_authorized q))) \<and>
    (\<forall>ns' sa' q. rbac_allows (apply_hint ns sa (config.ObjectKind cfg) (config.ObjectName cfg) (LeaseName cfg) no_rbac) ns' sa' q \<longrightarrow>
      ns' = ns \<and> sa' = sa \<and> rq_namespace q = ns)"
proof -
  have ns: "Namespace cfg = ns" using ParseConfig_Inr [OF assms(1)] by simp
  have vol: "v_cfg vol = cfg" "cache_Current (v_cache vol) = None"
    using assms(2) by (auto simp: NewVolume_def NewCache_def cache_Current_def split: if_splits)
  have "never_refused (guard ok K) vol \<longleftrightarrow> may_use ok vol"
  proof
    assume n: "never_refused (guard ok K) vol"
    from object_permissions_needed [OF n vol(2)] lease_permissions_needed [OF n, of w0 w1 w2 l w3] K(2-4)
    show "may_use ok vol" by (simp add: may_use_def vol(1) ns)
  qed (rule may_use_suffices [OF guard_admits [OF K(1)]])
  also have "\<dots> \<longleftrightarrow> all_ok ok (volume_requests cfg)" by (rule NewVolume_requests(2) [OF assms(1,2)])
  finally show ?thesis
    using hint_grants_all [of cfg sa ok] by (auto simp: ns apply_hint_no_rbac)
qed

text \<open>C37: the printed Role is named after the object alone, so the hints for a Secret and a ConfigMap of the
  same name, or for two volumes of one object with different Leases, are one Role: applying the second replaces
  the rules of the first, and the first pod, which worked, loses its object, or its Lease.\<close>

theorem second_hint_revokes_first:
  assumes "(k2 = ''ConfigMap'' \<and> q = object_request ''secrets'' ''get'' ns name) \<or>
      (l2 \<noteq> l1 \<and> q = lease_request ''get'' ns (Some l1))"
  shows "rbac_allows (apply_hint ns sa1 ''Secret'' name l1 no_rbac) ns sa1 q \<and>
    \<not> rbac_allows (apply_hint ns sa2 k2 name l2 (apply_hint ns sa1 ''Secret'' name l1 no_rbac)) ns sa1 q"
proof -
  have r: "hint_resource ''Secret'' = ''secrets''" "hint_resource ''ConfigMap'' = ''configmaps''" by code_simp+
  have "\<not> (\<exists>r \<in> set (ro_rules (hint_role ns k2 name l2)). rule_allows r q)"
    using assms r by (auto simp: hint_role_def rule_allows_def object_request_def lease_request_def)
  moreover have "rq_namespace q = ns" using assms by (auto simp: object_request_def lease_request_def)
  moreover have "\<exists>r \<in> set (ro_rules (hint_role ns ''Secret'' name l1)). rule_allows r q"
    using assms r by (auto simp: hint_role_def rule_allows_def object_request_def lease_request_def)
  ultimately show ?thesis
    unfolding apply_hint_no_rbac
    by (auto simp: rbac_allows_def apply_hint_def apply_role_def apply_binding_def hint_binding_def no_rbac_def hint_role_def
        split: if_splits)
qed

section \<open>A server with these rules\<close>

text \<open>A server that answers what is allowed and refuses the rest, for the witnesses.\<close>

definition guarded_kube :: "(request \<Rightarrow> bool) \<Rightarrow> 'w kube" where
  "guarded_kube ok =
     \<lparr>api_now = (\<lambda>w. 1000), ctx_err = (\<lambda>w. False), timer_or_done = (\<lambda>d w. (True, w)),
      get_secret = (\<lambda>ns n w. (if ok (object_request ''secrets'' ''get'' ns n) then Inr demo_secret else Inl Forbidden, w)),
      patch_secret = (\<lambda>ns n p w. (if ok (object_request ''secrets'' ''patch'' ns n) then Inr () else Inl Forbidden, w)),
      watch_secret = (\<lambda>ns n rv w. (if ok (object_request ''secrets'' ''watch'' ns n) then Inr () else Inl Forbidden, w)),
      get_configmap = (\<lambda>ns n w. (if ok (object_request ''configmaps'' ''get'' ns n) then Inl NotFound else Inl Forbidden, w)),
      patch_configmap = (\<lambda>ns n p w. (if ok (object_request ''configmaps'' ''patch'' ns n) then Inl NotFound else Inl Forbidden, w)),
      watch_configmap = (\<lambda>ns n rv w. (if ok (object_request ''configmaps'' ''watch'' ns n) then Inr () else Inl Forbidden, w)),
      watch_next = (\<lambda>w. (CtxDone, w)),
      get_lease = (\<lambda>ns n w. (if ok (lease_request ''get'' ns (Some n)) then Inl NotFound else Inl Forbidden, w)),
      create_lease = (\<lambda>ns n l w. (if ok (lease_request ''create'' ns None) then Inr () else Inl Forbidden, w)),
      update_lease = (\<lambda>ns n l w. (if ok (lease_request ''update'' ns (Some n)) then Inl Conflict else Inl Forbidden, w))\<rparr>"

lemma guarded_kube_admits: "admits (guarded_kube ok) ok"
  by (simp add: admits_def guarded_kube_def)

definition demo_rbac :: rbac where
  "demo_rbac = apply_hint ''app'' ''web'' ''Secret'' ''creds'' ''roommate-creds'' no_rbac"

definition hinted_env :: "node_world env" where
  "hinted_env = (demo_env (Inr demo_secret))\<lparr>e_newForConfig :=
     (\<lambda>cfg. Inr (\<lambda>tokens. guarded_kube (rbac_allows demo_rbac ''app'' ''web'')))\<rparr>"

theorem hint_unblocks_publish_witness:
  "fst (NodePublishVolume hinted_env ''v1'' demo_target demo_vc demo_node node_world0) \<noteq> Some (PermissionDenied, ''denied'')"
proof -
  have c: "ParseConfig (e_dns hinted_env) demo_vc ''app'' = Inr (config_min ''creds'' ''app'')"
    by (simp add: hinted_env_def demo_vc_config)
  show ?thesis
    by (rule hint_unblocks_publish [OF demo_vc_config(2) c, where s = no_rbac])
      (auto simp: hinted_env_def ClientFor_def config_min_def KindSecret_def guarded_kube_admits simp flip: demo_rbac_def)
qed

theorem hint_unblocks_mount_witness:
  "fst (cache_Fresh (guarded_kube (rbac_allows demo_rbac ''app'' ''web'')) (v_cache (volume_min ''creds'' ''uid-1'')) node_world0)
      \<noteq> Inl Forbidden \<and>
   fst (handle_Flush (guarded_kube (rbac_allows demo_rbac ''app'' ''web'')) (volume_min ''creds'' ''uid-1'')
     ((newHandle ''k'' None ''v'')\<lparr>h_dirty := True\<rparr>) node_world0) \<noteq> EACCES"
proof -
  have K: "admits (guarded_kube (rbac_allows demo_rbac ''app'' ''web''))
    (rbac_allows (apply_hint ''app'' ''web'' (config.ObjectKind (config_min ''creds'' ''app''))
       (config.ObjectName (config_min ''creds'' ''app'')) (LeaseName (config_min ''creds'' ''app'')) no_rbac) ''app'' ''web'')"
    by (simp add: config_min_def KindSecret_def guarded_kube_admits flip: demo_rbac_def)
  have v: "v_cfg (volume_min ''creds'' ''uid-1'') = config_min ''creds'' ''app''" by (simp add: volume_min_def)
  show ?thesis
    using hint_unblocks_mount [OF demo_vc_config(3) demo_volume_ok K v refl,
        of "NewLeaseManager (Namespace (config_min ''creds'' ''app'')) (LeaseName (config_min ''creds'' ''app'')) ''h'' 0"
          node_world0 _ "(newHandle ''k'' None ''v'')\<lparr>h_dirty := True\<rparr>"]
    by (simp add: NewLeaseManager_def not_refused)
qed

text \<open>A server that refuses nothing, over a world that is the stored Lease, behind an authorizer without the
  watch permission.\<close>

definition open_kube :: "lease option kube" where
  "open_kube =
     \<lparr>api_now = (\<lambda>w. 1000), ctx_err = (\<lambda>w. False), timer_or_done = (\<lambda>d w. (True, w)),
      get_secret = (\<lambda>ns n w. (Inr demo_secret, w)), patch_secret = (\<lambda>ns n p w. (Inr (), w)),
      watch_secret = (\<lambda>ns n rv w. (Inr (), w)), get_configmap = (\<lambda>ns n w. (Inl NotFound, w)),
      patch_configmap = (\<lambda>ns n p w. (Inl NotFound, w)), watch_configmap = (\<lambda>ns n rv w. (Inr (), w)),
      watch_next = (\<lambda>w. (CtxDone, w)),
      get_lease = (\<lambda>ns n w. (case w of None \<Rightarrow> Inl NotFound | Some l \<Rightarrow> Inr l, w)),
      create_lease = (\<lambda>ns n l w. (Inr (), Some l)), update_lease = (\<lambda>ns n l w. (Inr (), Some l))\<rparr>"

theorem hint_is_exact_witness:
  "never_refused (guard (\<lambda>q. True) open_kube) (volume_min ''creds'' ''uid-1'') \<and>
   \<not> never_refused (guard (\<lambda>q. rq_verb q \<noteq> ''watch'') open_kube) (volume_min ''creds'' ''uid-1'')"
proof -
  let ?free = "\<lparr>lease_rv = ''1'', HolderIdentity = None, LeaseDurationSeconds = None, AcquireTime = None, RenewTime = None\<rparr>"
  have K: "admits open_kube (\<lambda>q. True)" by (simp add: admits_def open_kube_def split: option.split)
  have l: "get_lease open_kube ''app'' n None = (Inl NotFound, None)"
    "get_lease open_kube ''app'' n (Some ?free) = (Inr ?free, Some ?free)" "HolderIdentity ?free = None" for n
    by (simp_all add: open_kube_def)
  have cfg: "config.ObjectKind (config_min ''creds'' ''app'') = ''Secret''"
    "config.ObjectName (config_min ''creds'' ''app'') = ''creds''" by simp_all
  note e = hint_is_exact [OF demo_vc_config(3) demo_volume_ok K l, of _ "''web''"]
  let ?w = "object_request ''secrets'' ''watch'' ''app'' ''creds''"
  have r: "hint_resource ''Secret'' = ''secrets''" by code_simp
  have "rbac_allows (apply_hint ''app'' ''web'' ''Secret'' ''creds'' (LeaseName (config_min ''creds'' ''app'')) no_rbac) ''app'' ''web'' ?w"
    unfolding apply_hint_no_rbac by (simp add: hint_role_def rule_allows_def object_request_def r)
  moreover have "rq_verb (as_authorized ?w) = ''watch''" by (simp add: as_authorized_def object_request_def)
  ultimately show ?thesis
    using e [of "\<lambda>q. True"] e [of "\<lambda>q. rq_verb q \<noteq> ''watch''"] unfolding cfg by blast
qed

theorem second_hint_revokes_first_witness:
  "rbac_allows (apply_hint ''app'' ''web'' ''Secret'' ''creds'' ''roommate-creds'' no_rbac) ''app'' ''web''
     (object_request ''secrets'' ''get'' ''app'' ''creds'') \<and>
   \<not> rbac_allows (apply_hint ''app'' ''api'' ''ConfigMap'' ''creds'' ''roommate-creds''
       (apply_hint ''app'' ''web'' ''Secret'' ''creds'' ''roommate-creds'' no_rbac)) ''app'' ''web''
     (object_request ''secrets'' ''get'' ''app'' ''creds'')"
  by (rule second_hint_revokes_first) simp

end
