(* ===== verification/Fixtures.thy ===== *)
theory Fixtures
  imports Access
begin

text \<open>
  \<open>test/e2e/fixtures.go\<close>: what the end-to-end tests set up and wait for: the namespace with its
  ServiceAccount, Secret, Role and binding, the pod that mounts the Secret, the two polling loops, the
  diagnostics and the choice of nodes. The cluster is the parameter \<open>C\<close>, a record of the calls of the client;
  \<open>t.Fatalf\<close> ends the test, which is \<open>Inl\<close> of the fixed part of its message, and \<open>t.Logf\<close> is \<open>cl_logf\<close>.
  Making the client is client-go's.
\<close>

section \<open>What the tests use of a cluster\<close>

text \<open>The states of a container are kept as they are printed.\<close>

record container_status =
  cs_name :: string
  cs_state :: string
  cs_lastTerminated :: "string option"

record pod =
  p_name :: string
  p_phase :: string
  p_nodeName :: string
  p_statuses :: "container_status list"
  p_containers :: "string list"

record pod_event =
  ev_type :: string
  ev_reason :: string
  ev_message :: string

record cluster_node =
  no_name :: string
  no_labels :: "(string, string) fmap"

record 'w e2e =
  cl_now :: "'w \<Rightarrow> time"
  cl_sleep :: "duration \<Rightarrow> 'w \<Rightarrow> 'w"
  cl_logf :: "string \<Rightarrow> 'w \<Rightarrow> 'w"
  cl_cleanup :: "string \<Rightarrow> 'w \<Rightarrow> 'w"
  cl_create_namespace :: "string \<Rightarrow> 'w \<Rightarrow> unit result \<times> 'w"
  cl_create_serviceaccount :: "string \<Rightarrow> string \<Rightarrow> 'w \<Rightarrow> unit result \<times> 'w"
  cl_create_secret :: "string \<Rightarrow> string \<Rightarrow> data \<Rightarrow> 'w \<Rightarrow> unit result \<times> 'w"
  cl_create_role :: "role \<Rightarrow> 'w \<Rightarrow> unit result \<times> 'w"
  cl_create_rolebinding :: "role_binding \<Rightarrow> 'w \<Rightarrow> unit result \<times> 'w"
  cl_get_pod :: "string \<Rightarrow> string \<Rightarrow> 'w \<Rightarrow> pod result \<times> 'w"
  cl_get_secret :: "string \<Rightarrow> string \<Rightarrow> 'w \<Rightarrow> secret result \<times> 'w"
  cl_list_events :: "string \<Rightarrow> string \<Rightarrow> 'w \<Rightarrow> pod_event list result \<times> 'w"
  cl_list_pods :: "string \<Rightarrow> string \<Rightarrow> string \<Rightarrow> 'w \<Rightarrow> pod list result \<times> 'w"
  cl_pod_logs :: "string \<Rightarrow> string \<Rightarrow> string \<Rightarrow> bool \<Rightarrow> 'w \<Rightarrow> bytes result \<times> 'w"
  cl_list_nodes :: "'w \<Rightarrow> cluster_node list result \<times> 'w"

section \<open>The namespace\<close>

text \<open>An object that is there already is taken as it is; any other error ends the test.\<close>

definition create_object ::
  "string \<Rightarrow> ('w \<Rightarrow> unit result \<times> 'w) \<Rightarrow> 'w \<Rightarrow> (string + unit) \<times> 'w" where
  "create_object what fn w =
     (case fn w of
        (Inl e, w1) \<Rightarrow> if e = AlreadyExists then (Inr (), w1) else (Inl (''create '' @ what), w1)
      | (Inr _, w1) \<Rightarrow> (Inr (), w1))"

text \<open>The next step of a test, unless it has ended.\<close>

definition and_then ::
  "(string + unit) \<times> 'w \<Rightarrow> ('w \<Rightarrow> (string + unit) \<times> 'w) \<Rightarrow> (string + unit) \<times> 'w" where
  "and_then r f = (case r of (Inl e, w) \<Rightarrow> (Inl e, w) | (Inr _, w) \<Rightarrow> f w)"

definition setup_role :: "string \<Rightarrow> role" where
  "setup_role ns =
     \<lparr>ro_namespace = ns, ro_name = ''roommate-oauth-credentials'',
      ro_rules =
       [\<lparr>pr_apiGroups = [''''], pr_resources = [''secrets''], pr_resourceNames = [''oauth-credentials''],
          pr_verbs = [''get'', ''watch'', ''patch'']\<rparr>,
        \<lparr>pr_apiGroups = [''coordination.k8s.io''], pr_resources = [''leases''],
          pr_resourceNames = [''roommate-oauth-credentials''], pr_verbs = [''get'', ''update'']\<rparr>,
        \<lparr>pr_apiGroups = [''coordination.k8s.io''], pr_resources = [''leases''], pr_resourceNames = [],
          pr_verbs = [''create'']\<rparr>]\<rparr>"

definition setup_binding :: "string \<Rightarrow> role_binding" where
  "setup_binding ns =
     \<lparr>rb_namespace = ns, rb_name = ''roommate-oauth-credentials'', rb_roleRef = ''roommate-oauth-credentials'',
      rb_subjects = [(ns, ''session-runner'')]\<rparr>"

definition setupNamespace :: "'w e2e \<Rightarrow> string \<Rightarrow> data \<Rightarrow> 'w \<Rightarrow> (string + unit) \<times> 'w" where
  "setupNamespace C ns d w =
     and_then (and_then (and_then (and_then
       (create_object ''namespace'' (cl_create_namespace C ns) w)
       (\<lambda>w. create_object ''serviceaccount'' (cl_create_serviceaccount C ns ''session-runner'') (cl_cleanup C ns w)))
       (create_object ''secret'' (cl_create_secret C ns ''oauth-credentials'' d)))
       (create_object ''role'' (cl_create_role C (setup_role ns))))
       (create_object ''rolebinding'' (cl_create_rolebinding C (setup_binding ns)))"

section \<open>The pod\<close>

record container =
  co_name :: string
  co_image :: string
  co_command :: "string list"
  co_mounts :: "(string \<times> string) list"

record inline_volume =
  iv_name :: string
  iv_driver :: string
  iv_attributes :: attrs

record pod_spec =
  ps_name :: string
  ps_namespace :: string
  ps_serviceAccount :: string
  ps_restartPolicy :: string
  ps_containers :: "container list"
  ps_volumes :: "inline_volume list"
  ps_nodeName :: string

definition podSpec :: "string \<Rightarrow> string \<Rightarrow> string \<Rightarrow> string \<Rightarrow> pod_spec" where
  "podSpec name ns node script =
     (let p = \<lparr>ps_name = name, ps_namespace = ns, ps_serviceAccount = ''session-runner'', ps_restartPolicy = ''Never'',
        ps_containers = [\<lparr>co_name = ''app'', co_image = ''debian:bookworm-slim'',
          co_command = [''/bin/sh'', ''-c'', script], co_mounts = [(''creds'', ''/creds'')]\<rparr>],
        ps_volumes = [\<lparr>iv_name = ''creds'', iv_driver = ''roommate.csi'',
          iv_attributes = fmupd ''objectKind'' ''Secret'' (fmupd ''objectName'' ''oauth-credentials'' fmempty)\<rparr>],
        ps_nodeName = ''''\<rparr>
      in if node \<noteq> '''' then p\<lparr>ps_nodeName := node\<rparr> else p)"

section \<open>Diagnostics\<close>

definition getPodLogs :: "'w e2e \<Rightarrow> string \<Rightarrow> string \<Rightarrow> string \<Rightarrow> bool \<Rightarrow> 'w \<Rightarrow> string result \<times> 'w" where
  "getPodLogs C ns pod container previous w =
     (case cl_pod_logs C ns pod container previous w of
        (Inl e, w1) \<Rightarrow> (Inl e, w1)
      | (Inr raw, w1) \<Rightarrow> (Inr raw, w1))"

definition dumpDriverLogs :: "'w e2e \<Rightarrow> string \<Rightarrow> 'w \<Rightarrow> 'w" where
  "dumpDriverLogs C nodeName w =
     (case cl_list_pods C ''roommate-system'' ''app=roommate-node'' (''spec.nodeName='' @ nodeName) w of
        (Inl e, w1) \<Rightarrow> cl_logf C (''dumpDriverLogs: no roommate-node pod found on '' @ nodeName) w1
      | (Inr [], w1) \<Rightarrow> cl_logf C (''dumpDriverLogs: no roommate-node pod found on '' @ nodeName) w1
      | (Inr (p # ps), w1) \<Rightarrow>
          (case getPodLogs C ''roommate-system'' (p_name p) ''roommate'' False w1 of
             (Inr logs, w2) \<Rightarrow>
               cl_logf C (''driver logs '' @ p_name p @ '' (node '' @ nodeName @ ''):'' @ [CHR 0x0A] @ logs) w2
           | (Inl _, w2) \<Rightarrow> w2))"

text \<open>The two logs of a container.\<close>

definition log_container :: "'w e2e \<Rightarrow> string \<Rightarrow> string \<Rightarrow> string \<Rightarrow> 'w \<Rightarrow> 'w" where
  "log_container C ns name container w =
     fold (\<lambda>(title, previous) w.
       case getPodLogs C ns name container previous w of
         (Inr logs, w1) \<Rightarrow>
           if logs \<noteq> '''' then cl_logf C (title @ ns @ ''/'' @ container @ '':'' @ [CHR 0x0A] @ logs) w1 else w1
       | (Inl _, w1) \<Rightarrow> w1)
       [(''logs '', False), (''previous logs '', True)] w"

definition log_status :: "'w e2e \<Rightarrow> container_status \<Rightarrow> 'w \<Rightarrow> 'w" where
  "log_status C cs w =
     (let w1 = cl_logf C (''container '' @ cs_name cs @ '' state: '' @ cs_state cs) w
      in case cs_lastTerminated cs of
           None \<Rightarrow> w1
         | Some t \<Rightarrow> cl_logf C (''container '' @ cs_name cs @ '' last termination: '' @ t) w1)"

definition describePod :: "'w e2e \<Rightarrow> string \<Rightarrow> string \<Rightarrow> 'w \<Rightarrow> 'w" where
  "describePod C ns name w =
     (case cl_list_events C ns (''involvedObject.name='' @ name) w of (evs, w1) \<Rightarrow>
        let w2 = (case evs of Inl _ \<Rightarrow> w1
              | Inr items \<Rightarrow> fold (\<lambda>e. cl_logf C (''event '' @ ev_type e @ ''/'' @ ev_reason e @ '': '' @ name @ '': ''
                  @ ev_message e)) items w1)
        in case cl_get_pod C ns name w2 of
             (Inl _, w3) \<Rightarrow> cl_logf C (''describePod: get pod '' @ name) w3
           | (Inr pod, w3) \<Rightarrow>
               let w4 = fold (log_status C) (p_statuses pod) w3;
                   w5 = fold (log_container C ns name) (p_containers pod) w4
               in if p_nodeName pod \<noteq> '''' then dumpDriverLogs C (p_nodeName pod) w5 else w5)"

section \<open>Waiting\<close>

text \<open>Both waits check, and sleep a second if the check has not decided.\<close>

partial_function (option) poll :: "('w \<Rightarrow> 'r option \<times> 'w) \<Rightarrow> ('w \<Rightarrow> 'w) \<Rightarrow> 'w \<Rightarrow> ('r \<times> 'w) option" where
  "poll check sleep w =
     (case check w of (verdict, w1) \<Rightarrow>
        case verdict of Some r \<Rightarrow> Some (r, w1) | None \<Rightarrow> poll check sleep (sleep w1))"

definition phase_check ::
  "'w e2e \<Rightarrow> string \<Rightarrow> string \<Rightarrow> string \<Rightarrow> time \<Rightarrow> 'w \<Rightarrow> (string + unit) option \<times> 'w" where
  "phase_check C ns name want deadline w =
     (case cl_get_pod C ns name w of (r, w1) \<Rightarrow>
        if (case r of Inr p \<Rightarrow> p_phase p = want | Inl _ \<Rightarrow> False) then (Some (Inr ()), w1)
        else if (case r of Inr p \<Rightarrow> (p_phase p = ''Failed'' \<or> p_phase p = ''Succeeded'') \<and> p_phase p \<noteq> want | Inl _ \<Rightarrow> False)
        then (Some (Inl ''terminal''), describePod C ns name w1)
        else if cl_now C w1 > deadline then (Some (Inl ''never reached''), describePod C ns name w1)
        else (None, w1))"

definition waitForPhase ::
  "'w e2e \<Rightarrow> string \<Rightarrow> string \<Rightarrow> string \<Rightarrow> duration \<Rightarrow> 'w \<Rightarrow> ((string + unit) \<times> 'w) option" where
  "waitForPhase C ns name want d w =
     poll (phase_check C ns name want (cl_now C w + d)) (cl_sleep C second) w"

definition missing_keys :: "string list \<Rightarrow> secret \<Rightarrow> string list" where
  "missing_keys want sec = filter (\<lambda>k. fmlookup (sec_Data sec) k = None) want"

definition keys_check ::
  "'w e2e \<Rightarrow> string \<Rightarrow> string list \<Rightarrow> time \<Rightarrow> 'w \<Rightarrow> (string + unit) option \<times> 'w" where
  "keys_check C ns want deadline w =
     (case cl_get_secret C ns ''oauth-credentials'' w of
        (Inr sec, w1) \<Rightarrow>
          if missing_keys want sec = [] then (Some (Inr ()), w1)
          else if cl_now C w1 > deadline then (Some (Inl ''oauth-credentials never gained keys''), w1)
          else (None, w1)
      | (Inl e, w1) \<Rightarrow> if cl_now C w1 > deadline then (Some (Inl ''get secret''), w1) else (None, w1))"

definition waitForSecretKeys ::
  "'w e2e \<Rightarrow> string \<Rightarrow> string list \<Rightarrow> duration \<Rightarrow> 'w \<Rightarrow> ((string + unit) \<times> 'w) option" where
  "waitForSecretKeys C ns want d w =
     poll (keys_check C ns want (cl_now C w + d)) (cl_sleep C second) w"

section \<open>Nodes\<close>

definition workerNodes :: "'w e2e \<Rightarrow> 'w \<Rightarrow> (string + string list) \<times> 'w" where
  "workerNodes C w =
     (case cl_list_nodes C w of
        (Inl e, w1) \<Rightarrow> (Inl ''list nodes'', w1)
      | (Inr items, w1) \<Rightarrow>
          let names = map no_name (filter (\<lambda>n. fmlookup (no_labels n) ''node-role.kubernetes.io/control-plane'' = None) items)
          in if length names < 2 then (Inl ''need 2 worker nodes'', w1) else (Inr names, w1))"

section \<open>The set-up is what the driver needs\<close>

text \<open>The volume of the tests' pod parses, the Role of the tests is the one \<open>RBACHint\<close> prints for it, and
  with their binding the pod's ServiceAccount may make every request of the driver for that volume.\<close>

theorem fixtures_match_hint:
  assumes "ns \<noteq> ''''" and "dns ''oauth-credentials'' = []" and "v \<in> set (ps_volumes (podSpec name ns node script))"
  shows "\<exists>cfg. ParseConfig dns (iv_attributes v) ns = Inr cfg \<and>
    setup_role ns = hint_role ns (config.ObjectKind cfg) (config.ObjectName cfg) (LeaseName cfg) \<and>
    all_ok (rbac_allows (apply_binding (setup_binding ns) (apply_role (setup_role ns) s)) ns
      (ps_serviceAccount (podSpec name ns node script))) (volume_requests cfg)"
proof -
  let ?cfg = "config_min ''oauth-credentials'' ns"
  have p: "ParseConfig dns (iv_attributes v) ns = Inr ?cfg"
    using assms ParseConfig_min [of ns dns "''oauth-credentials''"] by (simp add: podSpec_def attrs_min_def Let_def split: if_splits)
  have k: "hint_resource ''Secret'' = ''secrets''" by code_simp
  have r: "setup_role ns = hint_role ns (config.ObjectKind ?cfg) (config.ObjectName ?cfg) (LeaseName ?cfg)"
    by (simp add: setup_role_def hint_role_def config_min_def k)
  have "rbac_allows (apply_binding (setup_binding ns) (apply_role (setup_role ns) s)) ns ''session-runner'' q"
    if "q \<in> set (volume_requests ?cfg)" for q
  proof -
    have "rq_namespace q = ns"
      using that by (auto simp: volume_requests_def lease_requests_def object_request_def lease_request_def config_min_def)
    moreover have "\<exists>r \<in> set (ro_rules (setup_role ns)). rule_allows r q"
      using that by (auto simp: volume_requests_def lease_requests_def setup_role_def rule_allows_def object_request_def
          lease_request_def config_min_def k)
    ultimately show ?thesis
      unfolding rbac_allows_def
      by (intro exI [of _ "''roommate-oauth-credentials''"] exI [of _ "[(ns, ''session-runner'')]"]
          exI [of _ "ro_rules (setup_role ns)"])
        (auto simp: apply_role_def apply_binding_def setup_binding_def setup_role_def)
  qed
  then show ?thesis using p r by (intro exI [of _ ?cfg]) (simp add: all_ok_def podSpec_def Let_def)
qed

text \<open>The set-up can be repeated: it goes through whenever every object is created or was there.\<close>

definition done_or_there :: "unit result \<times> 'w \<Rightarrow> bool" where
  "done_or_there r \<longleftrightarrow> fst r = Inr () \<or> fst r = Inl AlreadyExists"

lemma create_object_ok: "fst (create_object what fn w) = Inr () \<longleftrightarrow> done_or_there (fn w)"
  by (auto simp: create_object_def done_or_there_def split: sum.splits prod.splits)

lemma and_then_ok: "fst (and_then r f) = Inr () \<longleftrightarrow> fst r = Inr () \<and> fst (f (snd r)) = Inr ()"
  by (auto simp: and_then_def split: sum.splits prod.splits)

lemma setupNamespace_again:
  assumes "\<And>w. done_or_there (cl_create_namespace C ns w)"
    and "\<And>w. done_or_there (cl_create_serviceaccount C ns ''session-runner'' w)"
    and "\<And>w. done_or_there (cl_create_secret C ns ''oauth-credentials'' d w)"
    and "\<And>w. done_or_there (cl_create_role C (setup_role ns) w)"
    and "\<And>w. done_or_there (cl_create_rolebinding C (setup_binding ns) w)"
  shows "fst (setupNamespace C ns d w) = Inr ()"
  by (simp add: setupNamespace_def and_then_ok create_object_ok assms)

section \<open>The waits end\<close>

lemma poll_checked:
  fixes check :: "'w \<Rightarrow> 'r option \<times> 'w"
  assumes "poll check sleep w = Some (r, w')"
  shows "\<exists>w0. check w0 = (Some r, w')"
proof -
  let ?P = "\<lambda>check sleep w res. \<exists>w0. check w0 = (Some (fst res), snd res)"
  have "?P check sleep w (r, w')"
  proof (rule poll.raw_induct [where P = ?P, OF _ assms])
    fix p :: "('w \<Rightarrow> 'r option \<times> 'w) \<Rightarrow> ('w \<Rightarrow> 'w) \<Rightarrow> 'w \<Rightarrow> ('r \<times> 'w) option"
    fix check :: "'w \<Rightarrow> 'r option \<times> 'w" and sleep :: "'w \<Rightarrow> 'w" and w res
    assume ih: "\<And>check sleep w res. p check sleep w = Some res \<Longrightarrow> ?P check sleep w res"
      and body: "(case check w of (verdict, w1) \<Rightarrow>
        case verdict of Some r \<Rightarrow> Some (r, w1) | None \<Rightarrow> p check sleep (sleep w1)) = Some res"
    obtain verdict w1 where c: "check w = (verdict, w1)" by (cases "check w")
    show "?P check sleep w res"
    proof (cases verdict)
      case None
      with body c ih show ?thesis by simp
    next
      case (Some r)
      with body c show ?thesis by auto
    qed
  qed
  then show ?thesis by simp
qed

lemma poll_ends:
  fixes now :: "'w \<Rightarrow> int"
  assumes check: "\<And>w w1. check w = (None, w1) \<Longrightarrow> now w \<le> now w1 \<and> now w1 \<le> deadline"
    and sleep: "\<And>w. now w < now (sleep w)"
  shows "\<exists>r. poll check sleep w = Some r"
proof (induction "nat (deadline + 1 - now w)" arbitrary: w rule: less_induct)
  case less
  obtain verdict w1 where c: "check w = (verdict, w1)" by (cases "check w")
  show ?case
  proof (cases verdict)
    case None
    with c check have n: "now w \<le> now w1" "now w1 \<le> deadline" by auto
    have "nat (deadline + 1 - now (sleep w1)) < nat (deadline + 1 - now w)"
      using n sleep [of w1] by linarith
    from less [OF this] c None show ?thesis by (subst poll.simps) simp
  qed (use c in \<open>subst poll.simps, simp\<close>)
qed

text \<open>Time passes in a sleep and does not go back in a call.\<close>

definition clock_moves :: "'w e2e \<Rightarrow> bool" where
  "clock_moves C \<longleftrightarrow> (\<forall>w. cl_now C w < cl_now C (cl_sleep C second w)) \<and>
     (\<forall>ns n w. cl_now C w \<le> cl_now C (snd (cl_get_pod C ns n w))) \<and>
     (\<forall>ns n w. cl_now C w \<le> cl_now C (snd (cl_get_secret C ns n w)))"

lemma phase_check_undecided:
  "clock_moves C \<Longrightarrow> phase_check C ns n want deadline w = (None, w1) \<Longrightarrow>
   cl_now C w \<le> cl_now C w1 \<and> cl_now C w1 \<le> deadline"
  by (auto simp: phase_check_def clock_moves_def case_prod_unfold split: if_splits)

lemma keys_check_undecided:
  "clock_moves C \<Longrightarrow> keys_check C ns want deadline w = (None, w1) \<Longrightarrow>
   cl_now C w \<le> cl_now C w1 \<and> cl_now C w1 \<le> deadline"
  by (auto simp: keys_check_def clock_moves_def case_prod_unfold split: if_splits sum.splits)

text \<open>Whatever the cluster answers, both waits end, because time passes; and a wait that ends well has
  seen what it waited for: the pod in that phase, or a Secret with all of the keys.\<close>

theorem waits_end:
  assumes "clock_moves C"
  shows "(\<exists>r w'. waitForPhase C ns name want d w = Some (r, w') \<and>
      (r = Inr () \<longrightarrow> (\<exists>w0 p. fst (cl_get_pod C ns name w0) = Inr p \<and> p_phase p = want))) \<and>
    (\<exists>r w'. waitForSecretKeys C ns keys d w = Some (r, w') \<and>
      (r = Inr () \<longrightarrow> (\<exists>w0 sec. fst (cl_get_secret C ns ''oauth-credentials'' w0) = Inr sec \<and>
        set keys \<subseteq> fset (fmdom (sec_Data sec)))))"
proof
  have s: "cl_now C w < cl_now C (cl_sleep C second w)" for w using assms by (simp add: clock_moves_def)
  obtain r w' where p: "waitForPhase C ns name want d w = Some (r, w')"
    using poll_ends [of "phase_check C ns name want (cl_now C w + d)" "cl_now C", OF phase_check_undecided [OF assms] s]
    unfolding waitForPhase_def by fastforce
  moreover have "\<exists>w0 p. fst (cl_get_pod C ns name w0) = Inr p \<and> p_phase p = want" if "r = Inr ()"
    using poll_checked [OF p [unfolded waitForPhase_def]] that
    by (auto simp: phase_check_def case_prod_unfold split: if_splits sum.splits)
  ultimately show "\<exists>r w'. waitForPhase C ns name want d w = Some (r, w') \<and>
      (r = Inr () \<longrightarrow> (\<exists>w0 p. fst (cl_get_pod C ns name w0) = Inr p \<and> p_phase p = want))" by blast
  obtain r w' where k: "waitForSecretKeys C ns keys d w = Some (r, w')"
    using poll_ends [of "keys_check C ns keys (cl_now C w + d)" "cl_now C", OF keys_check_undecided [OF assms] s]
    unfolding waitForSecretKeys_def by fastforce
  moreover have "\<exists>w0 sec. fst (cl_get_secret C ns ''oauth-credentials'' w0) = Inr sec \<and> set keys \<subseteq> fset (fmdom (sec_Data sec))"
    if "r = Inr ()"
    using poll_checked [OF k [unfolded waitForSecretKeys_def]] that
    by (force simp: keys_check_def missing_keys_def case_prod_unfold filter_empty_conv fmlookup_dom_iff split: if_splits sum.splits)
  ultimately show "\<exists>r w'. waitForSecretKeys C ns keys d w = Some (r, w') \<and>
      (r = Inr () \<longrightarrow> (\<exists>w0 sec. fst (cl_get_secret C ns ''oauth-credentials'' w0) = Inr sec \<and>
        set keys \<subseteq> fset (fmdom (sec_Data sec))))" by blast
qed

text \<open>A cluster in which the pod never starts, for the witness: the world is the clock.\<close>

definition stuck_cluster :: "int e2e" where
  "stuck_cluster =
     \<lparr>cl_now = (\<lambda>w. w), cl_sleep = (\<lambda>d w. w + d), cl_logf = (\<lambda>s w. w), cl_cleanup = (\<lambda>ns w. w),
      cl_create_namespace = (\<lambda>ns w. (Inr (), w)), cl_create_serviceaccount = (\<lambda>ns n w. (Inr (), w)),
      cl_create_secret = (\<lambda>ns n d w. (Inr (), w)), cl_create_role = (\<lambda>r w. (Inr (), w)),
      cl_create_rolebinding = (\<lambda>b w. (Inr (), w)),
      cl_get_pod = (\<lambda>ns n w. (Inr \<lparr>p_name = n, p_phase = ''Pending'', p_nodeName = '''', p_statuses = [], p_containers = []\<rparr>, w)),
      cl_get_secret = (\<lambda>ns n w. (Inl NotFound, w)), cl_list_events = (\<lambda>ns f w. (Inr [], w)),
      cl_list_pods = (\<lambda>ns l f w. (Inr [], w)), cl_pod_logs = (\<lambda>ns p c b w. (Inl NotFound, w)),
      cl_list_nodes = (\<lambda>w. (Inr [], w))\<rparr>"

theorem fixtures_match_hint_witness:
  "\<exists>cfg. ParseConfig (\<lambda>_. []) (iv_attributes (hd (ps_volumes (podSpec ''p'' ''e2e'' ''n1'' ''true'')))) ''e2e'' = Inr cfg \<and>
    setup_role ''e2e'' = hint_role ''e2e'' (config.ObjectKind cfg) (config.ObjectName cfg) (LeaseName cfg)"
proof -
  have "hd (ps_volumes (podSpec ''p'' ''e2e'' ''n1'' ''true'')) \<in> set (ps_volumes (podSpec ''p'' ''e2e'' ''n1'' ''true''))"
    by (simp add: podSpec_def Let_def)
  from fixtures_match_hint [OF _ _ this, of "\<lambda>_. []" no_rbac] show ?thesis by auto
qed

theorem waits_end_witness:
  "(\<exists>r w'. waitForPhase stuck_cluster ''e2e'' ''p'' ''Running'' (60 * second) 0 = Some (r, w')) \<and>
   (\<exists>r w'. waitForSecretKeys stuck_cluster ''e2e'' [''a''] (60 * second) 0 = Some (r, w'))"
proof -
  have "clock_moves stuck_cluster" by (simp add: clock_moves_def stuck_cluster_def second_def)
  from waits_end [OF this] show ?thesis by blast
qed

end
