(* ===== verification/Spec2Isabelle.thy ===== *)
theory Spec2Isabelle
  imports Prelude Utf8 Keys Snapshots Kube Stores Json Wire Strconv RefServer Caches Leases Commits Volumes Handles Nodes
    Tokens Mounts TargetLocks Driver LeaseProtocol LeaseRuns Buffers
    CacheRaces Handover Sections Goroutines NodeMain Access Fixtures
begin

text \<open>
  roommate-csi is a CSI node plugin: it mounts one Kubernetes Secret or ConfigMap into a pod as a
  directory of files, serves reads from a watched cache, buffers writes in open handles, commits them as
  merge patches, and maps \<open>flock\<close> to a Kubernetes Lease, so that consumers on different nodes can
  serialise read-modify-write cycles. This development models the code under \<open>src/pkg\<close> function by
  function, with the process of \<open>src/cmd/node\<close> on top, and proves what makes it correct.

  \<^bold>\<open>The parts, from below.\<close>
  \<^item> \<open>Prelude\<close>: the errors the code tells apart, error numbers, slices, integer conversions, finite
    maps. \<open>Strconv\<close>: what is used of Go's number parsing and printing. \<open>Utf8\<close>: runes and validity. \<open>Json\<close>: the text of JSON as
    \<open>encoding/json\<close> writes and reads it, with its escapes, its UTF-8 repair and its nesting limit.
  \<^item> \<open>Keys\<close> (\<open>objectfs/keys.go\<close>) and \<open>Snapshots\<close> (\<open>snapshot.go\<close>): key names and their inode
    numbers, immutable object contents.
  \<^item> \<open>Kube\<close>: the record of the API calls that the code makes, a parameter \<open>K\<close> over an arbitrary world,
    with the clock and the timers. Nothing is assumed of it unless a statement says so. \<open>RefServer\<close> is one
    concrete API server; it serves the witnesses only.
  \<^item> \<open>Stores\<close> (\<open>store.go\<close>, \<open>store_secret.go\<close>, \<open>store_configmap.go\<close>): decoding and the merge
    patch bodies, over the documents of RFC 7386. The locale \<open>object_store\<close> is the contract of a store
    (a patch decodes to \<open>snap_With\<close>), interpreted for both kinds. \<open>Wire\<close>: the JSON text of the patches, with
    base64, and that it is read as the document.
  \<^item> \<open>Caches\<close> (\<open>cache.go\<close>): the snapshot cache, quorum reads, staleness, the watch loop with its
    reconnects.
  \<^item> \<open>Leases\<close> (\<open>lease.go\<close>): one Lease manager, its claim rule, attempts, renewal, release.
    \<open>LeaseProtocol\<close>: any number of managers with their requests interleaved, as a step relation over the
    functions of \<open>Leases\<close>, in which a request that its client has given up may still take effect; \<open>LeaseRuns\<close>: the functions, run on the protocol's server, are paths of it.
  \<^item> \<open>Commits\<close> (\<open>commit.go\<close>): the fence, the size ceiling, the patch, the local refresh. \<open>CacheRaces\<close>: quorum
    reads, commits and watch events of one mount interleaved, over the functions of \<open>Caches\<close> and \<open>Commits\<close>, with
    what the API server makes of a patch for either kind of object.
  \<^item> \<open>Volumes\<close> (\<open>volume.go\<close>): configuration parsing, a volume, its lease identities.
  \<^item> \<open>Handles\<close> (\<open>handle.go\<close>): an open file: reads, copy-on-write writes, commit, lock and unlock, on
    values. \<open>Buffers\<close>: the same operations on slices of shared arrays, interleaved with watch events and
    with the two halves of commits. \<open>Handover\<close>: whole read-modify-write cycles of several pods, one after the
    other. \<open>Sections\<close>: locked sections of any number of pods interleaved, over \<open>LeaseProtocol\<close> and the critical
    sections of \<open>Handles\<close>, with commits that are under way when others lock, crash or let go.
  \<^item> \<open>Nodes\<close> (\<open>fs.go\<close>, \<open>mount.go\<close>): the directory and the files, and the mount options.
  \<^item> \<open>Tokens\<close> (\<open>podtoken/token.go\<close>): finding the pod's token, the client that carries it.
  \<^item> \<open>Mounts\<close> (\<open>mounts/registry.go\<close>, \<open>detach.go\<close>): the live table, the state file, detaching. The
    locale \<open>mount_table\<close> is the table's contract, interpreted for the registry.
  \<^item> \<open>TargetLocks\<close> (\<open>driver/targetlock.go\<close>): the reference-counted lock per target, as a step relation
    of any number of goroutines. \<open>Driver\<close> (\<open>node.go\<close>, \<open>rbachint.go\<close>, \<open>identity.go\<close>, \<open>server.go\<close>):
    the Node and Identity services on top. \<open>Goroutines\<close>: any number of publishes and unpublishes
    interleaved, over the functions of \<open>Driver\<close>, \<open>Mounts\<close> and \<open>TargetLocks\<close>.
  \<^item> \<open>Access\<close>: the Role and the binding that \<open>RBACHint\<close> prints, as values and as its YAML, and the driver's
    operations on a volume behind an API server that asks an authorizer before each call. \<open>Fixtures\<close> (\<open>test/e2e/fixtures.go\<close>): what the end-to-end tests set up and
    wait for.
  \<^item> \<open>NodeMain\<close> (\<open>cmd/node/main.go\<close>): the flags, the start, the shutdown, the exit codes.

  A Go method \<open>T.f\<close> is a function \<open>f\<close> or \<open>t_f\<close> of the receiver's record, the request and the world,
  and returns the reply, the record as it leaves it and the world; an error is \<open>Inl\<close> of an \<open>err\<close>, a panic
  of \<open>make\<close> is \<open>None\<close>. Contents are octet strings; a nil slice is \<open>None\<close> of a \<open>slice\<close>.

  \<^bold>\<open>What is shown.\<close> Here: \<open>flock_read_after_write\<close>, the promise of the whole system, from one node's
  write through commit, release, lock and quorum read to another node's read; and \<open>flock_excludes\<close>;
  \<open>Handover\<close> has it for any number of cycles, which are atomic updates of one file; \<open>Sections\<close> has, for every
  interleaving, that commits are serial as long as each lands within its holder's window, and that without
  that an update can be lost. In
  the component theories: the wire format refines the local update (\<open>Stores\<close>), the cache after a commit
  agrees with the server (\<open>Commits\<close>), newest events win and the loops end (\<open>Caches\<close>), the claim rule,
  its liveness and its safety under every interleaving (\<open>Leases\<close>, \<open>LeaseProtocol\<close>), commit before
  release and fresh contents under the lock (\<open>Handles\<close>), the file operations as a map from names to
  contents (\<open>Nodes\<close>), token isolation, and rotation down to the client that a mount was made with (\<open>Tokens\<close>, \<open>Driver\<close>), the state file's atomicity
  (\<open>Mounts\<close>), exclusion on a target and republishes that never fail (\<open>TargetLocks\<close>, \<open>Driver\<close>), copy-on-write under aliasing
  (\<open>Buffers\<close>), a cache that shows only what was stored, however its users overlap, save for what a nil slice leaves (\<open>CacheRaces\<close>), one publish per target and no lost update of the state file in every interleaving
  (\<open>Goroutines\<close>), the state file's round trip (\<open>Mounts\<close>), and, over all of the driver, that a rolling
  restart loses no mount point (\<open>NodeMain\<close>), and that the hint for a denied mount grants what the driver's
  operations on the volume need, all of it and nothing else (\<open>Access\<close>). Some
  theorems state behaviour that the comments of the code do not lead one to expect, e.g.
  \<open>write_during_commit_is_lost\<close>, \<open>fence_gone_after_unlock\<close>, \<open>stalled_holder_passes_the_fence\<close>, \<open>late_commit_loses_update\<close>,
  \<open>unpublish_misses_publish_under_way\<close>, \<open>late_event_hides_fresh_read\<close>, \<open>commits_hide_each_other\<close>,
  \<open>second_hint_revokes_first\<close>, \<open>nil_write_shows_phantom\<close>.

  \<^bold>\<open>Loops.\<close> Loops that may not end (\<open>Acquire\<close>, \<open>renewLoop\<close>, \<open>watch_loop\<close>, \<open>run_loop\<close>, \<open>poll\<close>) are
  \<open>partial_function (option)\<close>: \<open>None\<close> is not returning, and that they return is stated as
  \<open>\<dots> = Some \<dots>\<close>; no fuel is used. Integers are kept at their width where it matters (inode
  hashes, counters, capabilities, \<open>parseSeconds\<close>, the Lease's 32-bit duration, allocation sizes).

  \<^bold>\<open>Parameters.\<close> The API server (\<open>'w kube\<close>), the kernel and the file system (\<open>'w os\<close>), go-fuse's mount, the
  name validation of apimachinery, client-go's construction of a client, the cluster of the end-to-end tests (\<open>'w e2e\<close>), and what happens between
  \<open>net.Listen\<close> and the end of serving.

  \<^bold>\<open>Concurrency.\<close> Where the code's own protocol is concurrent it is a step relation: the Lease
  (\<open>LeaseProtocol\<close>), the target lock (\<open>TargetLocks\<close>), the Node service (\<open>Goroutines\<close>), the buffers of
  the open handles (\<open>Buffers\<close>), the cache and its users (\<open>CacheRaces\<close>), the locked sections (\<open>Sections\<close>); each of these theories says which sections of code are one step.
  \<open>LeaseRuns\<close>, \<open>locked_write_is_run\<close> and \<open>publish_served_alone\<close> connect the functions with the relations. Elsewhere an operation
  runs alone.

  \<^bold>\<open>Not modelled.\<close> Making the client of the end-to-end tests, the driver's logging, gRPC, the wrapped texts of error messages, \<open>%q\<close> of
  non-ASCII text, go-fuse's inode bookkeeping, and requests that are served while the process is already shutting down.
  In \<open>LeaseProtocol\<close> the clocks of the nodes differ by arbitrary constants, but none is set or drifts while the
  managers run, and the mutex that keeps a second attempt of one volume back is left out; in \<open>Leases\<close> that mutex
  is an argument, which an attempt or a blocking acquire finds in one state throughout.
\<close>

unbundle bit_operations_syntax

section \<open>Handing a file over\<close>

text \<open>C1: read-after-write under \<open>flock\<close>, across two nodes: handle A holds the lock, writes data at an offset
  and unlocks successfully; then a lock request by a clean handle B of the same file, in a volume with a
  cache that may be arbitrarily stale, blocking or not, shared or exclusive, is granted at once, and B
  reads A's data at that offset.\<close>

theorem flock_read_after_write:
  assumes cl: "cluster K st ns name up contents lview" and "up w"
    and A: "c_store (v_cache vA) = st" "h_lease hA = Some m" "m_ns m = ns" "m_name m = name" "m_held m" "owns m (lview w)"
    and wr: "0 \<le> off" "off + int (length data) \<le> max_alloc" "int (length (h_buf hA)) \<le> max_alloc"
      "handle_Write hA data off = Some (hA1, n, OK)"
    and un: "handle_unlock K vA hA1 w = (OK, vA', hA2, w1)"
    and B: "volume_on vB st ns name" "\<not> v_acquiring vB" "h_lease hB = None" "\<not> h_dirty hB" "h_key hB = h_key hA"
    and lk: "flags AND FUSE_LK_FLOCK \<noteq> 0" "typ \<noteq> F_UNLCK"
  shows "\<exists>vB' hB' w2. setlk K typ flags blocking vB hB w1 = Some (OK, vB', hB', w2) \<and>
    handle_Read hB' (length data) off = data \<and> (\<exists>mB. h_lease hB' = Some mB \<and> Healthy mB)"
proof -
  have A1: "h_lease hA1 = Some m" "h_key hA1 = h_key hA" "h_dirty hA1"
    using wr(4) A(2) by (auto simp: handle_Write_def Let_def split: if_splits option.splits)
  note u = unlock_result [OF cl A(1) \<open>up w\<close> A1(1) A(3-6) un]
  have free: "lock_free (fst (NewLease vB)) (lview w1)"
    using u by (auto simp: lock_free_def foreign_def)
  have up: "up w1" and c: "contents w1 = fmupd (h_key hA) (h_buf hA1) (contents w)" using u A1 by auto
  obtain vB' hB' w2 where l: "setlk K typ flags blocking vB hB w1 = Some (OK, vB', hB', w2)"
    "\<exists>mB. h_lease hB' = Some mB \<and> Healthy mB" "h_buf hB' = file_of (contents w1) (h_key hB)"
    using lock_result [OF cl B(1) up lk B(3,2) free, of blocking] B(4) by auto
  then have "h_buf hB' = h_buf hA1" using B(5) c by (simp add: file_of_def)
  then have "handle_Read hB' (length data) off = handle_Read hA1 (length data) off"
    by (simp add: handle_Read_def Let_def)
  also have "\<dots> = data" by (rule Read_back [OF wr])
  finally show ?thesis using l by blast
qed

text \<open>C26: exclusion: while handle A's Lease is stamped and B's volume has not watched it longer, a
  non-blocking lock request of another identity is refused with \<open>EWOULDBLOCK\<close>, and neither B's handle nor
  the stored Lease changes.\<close>

theorem flock_excludes:
  assumes srv: "lease_server K ns name up lview" and "up w" and "owns m (lview w)" and "m_holder m \<noteq> ''''"
    and B: "Namespace (v_cfg vB) = ns" "LeaseName (v_cfg vB) = name" "h_lease hB = None"
      "m_holder (fst (NewLease vB)) \<noteq> m_holder m"
    and lk: "flags AND FUSE_LK_FLOCK \<noteq> 0" "typ \<noteq> F_UNLCK"
  shows "\<exists>vB' w'. Setlk K typ flags vB hB w = Some (EWOULDBLOCK, vB', hB, w') \<and> lview w' = lview w"
proof -
  obtain mB v1 where n: "NewLease vB = (mB, v1)" by (cases "NewLease vB")
  note nf = NewLease_fields [OF n]
  from assms(3,4) B(4) n obtain l where l: "lview w = Some l" "foreign mB l"
    by (auto simp: owns_def foreign_def)
  have no: "\<not> observed mB l" using n by (auto simp: NewLease_def NewLeaseManager_def Let_def observed_def)
  have srvB: "lease_server K (m_ns mB) (m_name mB) up lview" using srv nf B(1,2) by simp
  from TryAcquire_taken [OF srvB \<open>up w\<close> nf(3) l no, of "Some (v_acquiring v1)"]
  obtain m' w' where "TryAcquire K (Some (v_acquiring v1)) mB w = (Inr False, m', w')" "lview w' = lview w" by blast
  with lk B(3) n show ?thesis by (simp add: Setlk_def setlk_def)
qed

text \<open>Pod A's handle holds the Lease of its volume; pod B's volume still has the old value in its cache.\<close>

definition pod_A_manager :: manager where
  "pod_A_manager = startRenewal (fst (NewLease (demo_volume ''podA'')))"

lemma decimal_1: "decimal (Suc 0) = ''1''"
  by code_simp

lemma pod_A [simp]:
  "m_ns pod_A_manager = ''app''" "m_name pod_A_manager = ''roommate-o''" "m_held pod_A_manager"
  "m_healthy pod_A_manager" "m_holder pod_A_manager = ''podA:1''"
  by (simp_all add: pod_A_manager_def NewLease_def Let_def NewLeaseManager_def startRenewal_def demo_volume_def
      volume_min_def config_min_def holder_of_def decimal_1)

theorem flock_read_after_write_witness:
  "\<exists>hA1 vA' hA2 w1 vB' hB' w2. handle_Write (holding pod_A_manager) ''XY'' 1 = Some (hA1, 2, OK) \<and>
    handle_unlock ref_kube (demo_volume ''podA'') hA1 (held_world pod_A_manager) = (OK, vA', hA2, w1) \<and>
    setlk ref_kube F_RDLCK 1 True (demo_volume ''podB'') demo_handle w1 = Some (OK, vB', hB', w2) \<and>
    handle_Read hB' 2 1 = ''XY''"
proof -
  let ?m = pod_A_manager and ?w = "held_world pod_A_manager"
  obtain hA1 where wr: "handle_Write (holding ?m) ''XY'' 1 = Some (hA1, of_nat (length ''XY''), OK)"
    and len: "length (h_buf hA1) = 4"
    using handle_Write_result [of 1 "''XY''" "holding ?m"] by (auto simp: max_alloc_def)
  have h: "h_dirty hA1" "h_lease hA1 = Some ?m" "h_key hA1 = ''k''"
    using wr by (auto simp: handle_Write_def Let_def split: if_splits option.splits)
  have nf: "\<not> fenced (Some ?m)" by (simp add: fenced_def Healthy_def)
  have wri: "writes (fmupd ''k'' (Some (h_buf hA1)) fmempty) []" by (simp add: writes_def)
  obtain c1 w0 where c: "Commit ref_kube demo_cache (Some ?m) (fmupd ''k'' (Some (h_buf hA1)) fmempty) [] ?w
      = (Inr (), c1, w0)"
    by (rule demo_commit_at [OF wri _ nf, of ?w]) (simp_all add: demo_put_size len MaxObjectBytes_def)
  obtain vA' hA2 w1 where un: "handle_unlock ref_kube (demo_volume ''podA'') hA1 ?w = (OK, vA', hA2, w1)"
    using c h by (simp add: handle_unlock_def handle_commit_dirty drop_lease_def)
  have "\<exists>vB' hB' w2. setlk ref_kube F_RDLCK 1 True (demo_volume ''podB'') demo_handle w1 = Some (OK, vB', hB', w2) \<and>
    handle_Read hB' (length ''XY'') 1 = ''XY'' \<and> (\<exists>mB. h_lease hB' = Some mB \<and> Healthy mB)"
    by (rule flock_read_after_write [where m = pod_A_manager, OF ref_cluster _ _ _ _ _ _ _ _ _ _ wr un demo_volume_on(1)])
      (simp_all add: owns_def stamped_def max_alloc_def FUSE_LK_FLOCK_def)
  with wr un show ?thesis by (auto simp: numeral_2_eq_2)
qed

theorem flock_excludes_witness:
  "\<exists>vB' w'. Setlk ref_kube F_WRLCK 1 (demo_volume ''podB'') demo_handle (held_world pod_A_manager)
      = Some (EWOULDBLOCK, vB', demo_handle, w')"
proof -
  have ow: "owns pod_A_manager (w_lease (held_world pod_A_manager))" by (simp add: owns_def stamped_def)
  have "\<exists>vB' w'. Setlk ref_kube F_WRLCK 1 (demo_volume ''podB'') demo_handle (held_world pod_A_manager)
      = Some (EWOULDBLOCK, vB', demo_handle, w') \<and> w_lease w' = w_lease (held_world pod_A_manager)"
    by (rule flock_excludes [OF ref_lease_server _ ow])
      (simp_all add: NewLease_def Let_def NewLeaseManager_def demo_volume_def volume_min_def config_min_def
        holder_of_def FUSE_LK_FLOCK_def)
  then show ?thesis by blast
qed

end
